(* ===== verification/Prelude.thy ===== *)
theory Prelude
  imports Main "HOL-Library.Word" "HOL-Library.Monad_Syntax"
begin

unbundle bit_operations_syntax

text \<open>
  Shared vocabulary of the development (\<open>include/types.h\<close>): the C integer types as words of
  their width, byte memory, the generic facts about words and option-valued loops that the
  component theories use, and the spinlock of \<open>kernel/mm/spinlock.h\<close> in its sequential
  reading. \<open>None\<close> as the result of an operation means that the C code does not return
  (a loop that never ends, a lock that is never released) or traps.
\<close>

section \<open>Types\<close>

type_synonym u8 = "8 word"
type_synonym u16 = "16 word"
type_synonym u32 = "32 word"

text \<open>A flat byte memory, indexed by 32-bit addresses (addition wraps as on the machine).\<close>

type_synonym mem = "u32 \<Rightarrow> u8"

definition PAGE_SIZE :: u32 where
  [simp]: "PAGE_SIZE = 4096"

named_theorems c_state \<open>state-update equations of the component operations\<close>
named_theorems c_rep \<open>facts that follow from a representation predicate\<close>

section \<open>Spinlock, sequential reading\<close>

text \<open>
  \<open>spinlock_acquire\<close> spins while the atomic exchange returns a non-zero old value. With no
  other CPU to release the lock, a held lock is never acquired: the loop does not return.
\<close>

definition spinlock_init :: "u32 \<Rightarrow> u32" where
  "spinlock_init l = 0"

partial_function (option) spinlock_acquire :: "u32 \<Rightarrow> u32 option" where
  "spinlock_acquire l = (if l \<noteq> 0 then spinlock_acquire 1 else Some 1)"

definition spinlock_release :: "u32 \<Rightarrow> u32" where
  "spinlock_release l = 0"

lemma spinlock_acquire_free [simp]: "spinlock_acquire 0 = Some 1"
  by (subst spinlock_acquire.simps) simp

lemma spinlock_acquire_1: "spinlock_acquire 1 = Some r \<Longrightarrow> False"
proof -
  assume ret: "spinlock_acquire 1 = Some r"
  have "(1::u32) \<noteq> 0 \<longrightarrow> False"
    by (rule spinlock_acquire.raw_induct [where P = "\<lambda>l r. l \<noteq> 0 \<longrightarrow> False", OF _ ret])
      (fastforce split: if_splits)
  then show False by simp
qed

lemma spinlock_acquire_held [simp]: "l \<noteq> 0 \<Longrightarrow> spinlock_acquire l = None"
  by (subst spinlock_acquire.simps) (metis option.exhaust spinlock_acquire_1)

lemma spinlock_release_eq [simp]: "spinlock_release l = 0"
  by (simp add: spinlock_release_def)

lemma spinlock_init_eq [simp]: "spinlock_init l = 0"
  by (simp add: spinlock_init_def)

section \<open>Words\<close>

lemma unat_sub_le: "(b::'a::len word) \<le> a \<Longrightarrow> unat (a - b) = unat a - unat b"
  by (rule unat_sub)

lemma unat_add_no_wrap:
  "unat (a::'a::len word) + unat b < 2 ^ LENGTH('a) \<Longrightarrow> unat (a + b) = unat a + unat b"
  by (simp add: unat_word_ariths)

lemma unat_mult_no_wrap:
  "unat (a::'a::len word) * unat b < 2 ^ LENGTH('a) \<Longrightarrow> unat (a * b) = unat a * unat b"
  by (simp add: unat_word_ariths)

lemma unat_of_nat_small: "n < 2 ^ LENGTH('a) \<Longrightarrow> unat (of_nat n :: 'a::len word) = n"
  by (simp add: unat_of_nat)

end
