(* ===== verification/Cstring.thy ===== *)
theory Cstring
  imports Prelude
begin

text \<open>
  The string routines of \<open>lib/string.c\<close> on a byte memory. Pointers are 32-bit addresses and
  \<open>p[i]\<close> is the byte at \<open>p + i\<close>; an \<open>int\<close> result is a 32-bit word. A counted loop is a recursion
  on the counter; a loop that runs up to a NUL byte is a partial function, \<open>None\<close> when memory has
  no such byte and the C loop never ends.
\<close>

section \<open>Block operations\<close>

definition memset :: "u32 \<Rightarrow> u32 \<Rightarrow> u32 \<Rightarrow> mem \<Rightarrow> mem" where
  "memset ptr value num m = fold (\<lambda>i m. m(ptr + of_nat i := ucast value)) [0..<unat num] m"

definition copy_byte :: "u32 \<Rightarrow> u32 \<Rightarrow> nat \<Rightarrow> mem \<Rightarrow> mem" where
  "copy_byte d s i m = m(d + of_nat i := m (s + of_nat i))"

definition memcpy :: "u32 \<Rightarrow> u32 \<Rightarrow> u32 \<Rightarrow> mem \<Rightarrow> mem" where
  "memcpy dest src num m = fold (copy_byte dest src) [0..<unat num] m"

definition memmove :: "u32 \<Rightarrow> u32 \<Rightarrow> u32 \<Rightarrow> mem \<Rightarrow> mem" where
  "memmove dest src num m =
     (if dest < src then fold (copy_byte dest src) [0..<unat num] m
      else fold (copy_byte dest src) (rev [0..<unat num]) m)"

fun memcmp_loop :: "u32 \<Rightarrow> u32 \<Rightarrow> u32 \<Rightarrow> nat \<Rightarrow> mem \<Rightarrow> u32" where
  "memcmp_loop p1 p2 i 0 m = 0"
| "memcmp_loop p1 p2 i (Suc k) m =
     (if m (p1 + i) \<noteq> m (p2 + i) then ucast (m (p1 + i)) - ucast (m (p2 + i))
      else memcmp_loop p1 p2 (i + 1) k m)"

definition memcmp :: "u32 \<Rightarrow> u32 \<Rightarrow> u32 \<Rightarrow> mem \<Rightarrow> u32" where
  "memcmp ptr1 ptr2 num m = memcmp_loop ptr1 ptr2 0 (unat num) m"

section \<open>String operations\<close>

partial_function (option) strlen_loop :: "u32 \<Rightarrow> u32 \<Rightarrow> mem \<Rightarrow> u32 option" where
  "strlen_loop str len m = (if m (str + len) \<noteq> 0 then strlen_loop str (len + 1) m else Some len)"

definition strlen :: "u32 \<Rightarrow> mem \<Rightarrow> u32 option" where
  "strlen str m = strlen_loop str 0 m"

partial_function (option) strcpy_loop :: "u32 \<Rightarrow> u32 \<Rightarrow> mem \<Rightarrow> mem option" where
  "strcpy_loop d src m =
     (if m src \<noteq> 0 then strcpy_loop (d + 1) (src + 1) (m(d := m src)) else Some (m(d := 0)))"

definition strcpy :: "u32 \<Rightarrow> u32 \<Rightarrow> mem \<Rightarrow> mem option" where
  "strcpy dest src m = strcpy_loop dest src m"

text \<open>The two loops of \<open>strncpy\<close>: copy up to a NUL, then pad. The first returns its counter.\<close>

fun strncpy_copy :: "u32 \<Rightarrow> u32 \<Rightarrow> u32 \<Rightarrow> nat \<Rightarrow> mem \<Rightarrow> nat \<times> u32 \<times> mem" where
  "strncpy_copy d src i 0 m = (0, i, m)"
| "strncpy_copy d src i (Suc k) m =
     (if m (src + i) \<noteq> 0 then strncpy_copy d src (i + 1) k (m(d + i := m (src + i)))
      else (Suc k, i, m))"

fun strncpy_pad :: "u32 \<Rightarrow> u32 \<Rightarrow> nat \<Rightarrow> mem \<Rightarrow> mem" where
  "strncpy_pad d i 0 m = m"
| "strncpy_pad d i (Suc k) m = strncpy_pad d (i + 1) k (m(d + i := 0))"

definition strncpy :: "u32 \<Rightarrow> u32 \<Rightarrow> u32 \<Rightarrow> mem \<Rightarrow> mem" where
  "strncpy dest src num m =
     (let (k, i, m) = strncpy_copy dest src 0 (unat num) m in strncpy_pad dest i k m)"

partial_function (option) find_nul :: "u32 \<Rightarrow> mem \<Rightarrow> u32 option" where
  "find_nul d m = (if m d \<noteq> 0 then find_nul (d + 1) m else Some d)"

definition strcat :: "u32 \<Rightarrow> u32 \<Rightarrow> mem \<Rightarrow> mem option" where
  "strcat dest src m = do {
     d \<leftarrow> find_nul dest m;
     strcpy_loop d src m
   }"

partial_function (option) strcmp_loop :: "u32 \<Rightarrow> u32 \<Rightarrow> mem \<Rightarrow> u32 option" where
  "strcmp_loop str1 str2 m =
     (if m str1 \<noteq> 0 \<and> m str1 = m str2 then strcmp_loop (str1 + 1) (str2 + 1) m
      else Some (ucast (m str1) - ucast (m str2)))"

definition strcmp :: "u32 \<Rightarrow> u32 \<Rightarrow> mem \<Rightarrow> u32 option" where
  "strcmp str1 str2 m = strcmp_loop str1 str2 m"

text \<open>Here the two characters are subtracted as plain (signed) \<open>char\<close>.\<close>

fun strncmp_loop :: "u32 \<Rightarrow> u32 \<Rightarrow> u32 \<Rightarrow> nat \<Rightarrow> mem \<Rightarrow> u32" where
  "strncmp_loop str1 str2 i 0 m = 0"
| "strncmp_loop str1 str2 i (Suc k) m =
     (if m (str1 + i) \<noteq> m (str2 + i) then scast (m (str1 + i)) - scast (m (str2 + i))
      else if m (str1 + i) = 0 then 0
      else strncmp_loop str1 str2 (i + 1) k m)"

definition strncmp :: "u32 \<Rightarrow> u32 \<Rightarrow> u32 \<Rightarrow> mem \<Rightarrow> u32" where
  "strncmp str1 str2 num m = strncmp_loop str1 str2 0 (unat num) m"

section \<open>Addresses at an offset\<close>

lemma off_eq_iff:
  assumes "i < 2 ^ 32" and "j < 2 ^ 32"
  shows "(p + of_nat i = (p + of_nat j :: u32)) = (i = j)"
proof
  assume "p + of_nat i = (p + of_nat j :: u32)"
  then have "(of_nat i :: u32) = of_nat j" by simp
  then have "unat (of_nat i :: u32) = unat (of_nat j :: u32)" by (rule arg_cong)
  then show "i = j" using assms by (simp add: unat_of_nat_small del: unsigned_of_nat)
qed simp

lemma off_in_range: "(a :: u32) = p + of_nat (unat (a - p))"
  by simp

lemma off_lt: "i < unat n \<Longrightarrow> (p + of_nat i) - p < (n :: u32)"
proof -
  assume "i < unat n"
  moreover have "unat n < 2 ^ LENGTH(32)" by (rule unsigned_less)
  ultimately have "unat (of_nat i :: u32) < unat n" by (simp add: unat_of_nat_small)
  then show ?thesis by (simp add: word_less_nat_alt)
qed

lemma fold_writes:
  assumes "n \<le> 2 ^ 32"
  shows "fold (\<lambda>i m. m(p + of_nat i := f i)) [0..<n] m a =
    (if unat (a - p :: u32) < n then f (unat (a - p)) else m a)"
  using assms
proof (induction n)
  case (Suc n)
  have "a = p + of_nat n \<longleftrightarrow> unat (a - p) = n"
  proof
    assume "a = p + of_nat n"
    then show "unat (a - p) = n" using Suc.prems by (simp add: unat_of_nat_small)
  qed (metis off_in_range)
  then show ?case using Suc by (auto simp: less_Suc_eq)
qed simp

lemma memset_byte: "memset p v n m a = (if a - p < n then ucast v else m a)"
proof -
  have "unat n < 2 ^ LENGTH(32)" by (rule unsigned_less)
  then show ?thesis
    using fold_writes [of "unat n" p "\<lambda>_. ucast v" m a] by (simp add: memset_def word_less_nat_alt)
qed

text \<open>
  A copy in any order gives the bytes of the source as they were, provided no byte is
  overwritten before it is read.
\<close>

lemma fold_copy:
  assumes "distinct js" and "\<forall>i\<in>set js. i < 2 ^ 32"
    and "\<And>k j. k < length js \<Longrightarrow> j < k \<Longrightarrow> s + of_nat (js ! k) \<noteq> d + of_nat (js ! j)"
  shows "fold (copy_byte d s) js m a =
    (if unat (a - d) \<in> set js then m (s + (a - d)) else m a)"
  using assms
proof (induction js arbitrary: a rule: rev_induct)
  case (snoc i js)
  let ?m = "fold (copy_byte d s) js m"
  have "s + of_nat (js ! k) \<noteq> d + of_nat (js ! j)" if "k < length js" "j < k" for k j
    using snoc.prems(3) [of k j] that by (simp add: nth_append)
  then have IH: "?m b = (if unat (b - d) \<in> set js then m (s + (b - d)) else m b)" for b
    using snoc.IH [of b] snoc.prems(1,2) by simp
  have i: "unat (of_nat i :: u32) = i" using snoc.prems(2) by (simp add: unat_of_nat_small)
  have "unat (s + of_nat i - d) \<notin> set js"
  proof
    assume "unat (s + of_nat i - d) \<in> set js"
    then obtain j where j: "j < length js" "js ! j = unat (s + of_nat i - d)"
      by (auto simp: in_set_conv_nth)
    then have "s + of_nat i = d + of_nat (js ! j)" by simp
    then show False using snoc.prems(3) [of "length js" j] j(1) by (simp add: nth_append)
  qed
  then have src: "?m (s + of_nat i) = m (s + of_nat i)" by (simp add: IH)
  have step: "fold (copy_byte d s) (js @ [i]) m a = (if a = d + of_nat i then ?m (s + of_nat i) else ?m a)"
    by (simp add: copy_byte_def [of d s i])
  show ?case
  proof (cases "a = d + of_nat i")
    case True
    then show ?thesis unfolding step src using i by simp
  next
    case False
    then have "unat (a - d) \<noteq> i" by (metis off_in_range)
    then show ?thesis unfolding step using False by (simp add: IH)
  qed
qed simp

lemma no_wrap_off: "unat p + i < 2 ^ 32 \<Longrightarrow> unat (p + of_nat i :: u32) = unat p + i"
  by (simp add: unat_word_ariths unat_of_nat_small)

lemma memmove_byte:
  assumes "unat d + unat n \<le> 2 ^ 32" and "unat s + unat n \<le> 2 ^ 32"
  shows "memmove d s n m a = (if a - d < n then m (s + (a - d)) else m a)"
proof (cases "d < s")
  case True
  then have lt: "unat d < unat s" by (simp add: word_less_nat_alt)
  have "s + of_nat ([0..<unat n] ! k) \<noteq> d + of_nat ([0..<unat n] ! j)" if "k < unat n" "j < k" for k j
  proof
    assume "s + of_nat ([0..<unat n] ! k) = d + of_nat ([0..<unat n] ! j)"
    then have "unat (s + of_nat k) = unat (d + of_nat j)" using that by simp
    then show False using lt that assms by (simp add: no_wrap_off)
  qed
  then have "fold (copy_byte d s) [0..<unat n] m a =
      (if unat (a - d) \<in> set [0..<unat n] then m (s + (a - d)) else m a)"
    using assms(1) by (intro fold_copy) auto
  then show ?thesis using True by (simp add: memmove_def word_less_nat_alt)
next
  case False
  then have le: "unat s \<le> unat d" by (simp add: word_less_nat_alt)
  have "s + of_nat (rev [0..<unat n] ! k) \<noteq> d + of_nat (rev [0..<unat n] ! j)" if "k < unat n" "j < k" for k j
  proof
    assume "s + of_nat (rev [0..<unat n] ! k) = d + of_nat (rev [0..<unat n] ! j)"
    moreover have "rev [0..<unat n] ! k = unat n - Suc k" "rev [0..<unat n] ! j = unat n - Suc j"
      using that by (simp_all add: rev_nth)
    ultimately have "unat (s + of_nat (unat n - Suc k)) = unat (d + of_nat (unat n - Suc j))"
      by (simp only:)
    then show False using le that assms by (simp add: no_wrap_off del: of_nat_diff)
  qed
  then have "fold (copy_byte d s) (rev [0..<unat n]) m a =
      (if unat (a - d) \<in> set (rev [0..<unat n]) then m (s + (a - d)) else m a)"
    using assms(1) by (intro fold_copy) auto
  then show ?thesis using False by (simp add: memmove_def word_less_nat_alt)
qed

lemma memcpy_is_memmove:
  assumes "unat d + unat n \<le> 2 ^ 32" and "unat s + unat n \<le> 2 ^ 32"
    and "d < s \<or> unat s + unat n \<le> unat d"
  shows "memcpy d s n m = memmove d s n m"
proof (cases "d < s")
  case False
  with assms(3) have far: "unat s + unat n \<le> unat d" by simp
  have "s + of_nat ([0..<unat n] ! k) \<noteq> d + of_nat ([0..<unat n] ! j)" if "k < unat n" "j < k" for k j
  proof
    assume "s + of_nat ([0..<unat n] ! k) = d + of_nat ([0..<unat n] ! j)"
    then have "unat (s + of_nat k) = unat (d + of_nat j)" using that by simp
    then show False using far that assms by (simp add: no_wrap_off)
  qed
  then have "fold (copy_byte d s) [0..<unat n] m a =
      (if unat (a - d) \<in> set [0..<unat n] then m (s + (a - d)) else m a)" for a
    using assms(1) by (intro fold_copy) auto
  then show ?thesis
    by (intro ext) (simp add: memcpy_def memmove_byte [OF assms(1,2)] word_less_nat_alt)
qed (simp add: memcpy_def memmove_def)

lemma memcpy_byte:
  assumes "unat d + unat n \<le> 2 ^ 32" and "unat s + unat n \<le> 2 ^ 32"
    and "d < s \<or> unat s + unat n \<le> unat d"
  shows "memcpy d s n m a = (if a - d < n then m (s + (a - d)) else m a)"
  by (simp add: memcpy_is_memmove [OF assms] memmove_byte [OF assms(1,2)])

section \<open>Strings in memory\<close>

text \<open>\<open>cstr m p xs\<close>: the bytes \<open>xs\<close>, none of them NUL, are at \<open>p\<close> and a NUL follows.\<close>

fun cstr :: "mem \<Rightarrow> u32 \<Rightarrow> u8 list \<Rightarrow> bool" where
  "cstr m p [] \<longleftrightarrow> m p = 0"
| "cstr m p (x # xs) \<longleftrightarrow> x \<noteq> 0 \<and> m p = x \<and> cstr m (p + 1) xs"

fun store :: "u32 \<Rightarrow> u8 list \<Rightarrow> mem \<Rightarrow> mem" where
  "store p [] m = m"
| "store p (b # bs) m = store (p + 1) bs (m(p := b))"

definition span :: "u32 \<Rightarrow> nat \<Rightarrow> u32 set" where
  "span p n = (\<lambda>i. p + of_nat i) ` {..<n}"

lemma span_0 [simp]: "span p 0 = {}"
  by (simp add: span_def)

lemma span_Suc: "span p (Suc n) = insert p (span (p + 1) n)"
  unfolding span_def lessThan_Suc_eq_insert_0 image_insert image_image by (simp add: add.assoc)

lemma span_add: "span p (i + n) = span p i \<union> span (p + of_nat i) n"
  by (induction i arbitrary: p) (simp_all add: span_Suc add.assoc)

lemma start_in_span [simp]: "0 < n \<Longrightarrow> p \<in> span p n"
  by (force simp: span_def)

lemma span_mono: "m \<le> n \<Longrightarrow> span p m \<subseteq> span p n"
  by (auto simp: span_def)

lemma span_iff: "n \<le> 2 ^ 32 \<Longrightarrow> a \<in> span p n \<longleftrightarrow> unat (a - p) < n"
proof
  assume "n \<le> 2 ^ 32" "a \<in> span p n"
  then show "unat (a - p) < n" by (auto simp: span_def unat_of_nat_small)
next
  assume "unat (a - p) < n"
  then show "a \<in> span p n" unfolding span_def using off_in_range [of a p] by blast
qed

lemma span_unat: "unat p + n \<le> 2 ^ 32 \<Longrightarrow> a \<in> span p n \<Longrightarrow> unat p \<le> unat a \<and> unat a < unat p + n"
  by (auto simp: span_def unat_word_ariths unat_of_nat_small)

lemma span_disjoint:
  "unat p + n \<le> unat q \<or> unat q + k \<le> unat p \<Longrightarrow> unat p + n \<le> 2 ^ 32 \<Longrightarrow> unat q + k \<le> 2 ^ 32 \<Longrightarrow>
   span p n \<inter> span q k = {}"
  using span_unat [of p n] span_unat [of q k] by fastforce

lemma cstr_nth: "cstr m p xs \<Longrightarrow> i < length xs \<Longrightarrow> m (p + of_nat i) = xs ! i \<and> xs ! i \<noteq> 0"
proof (induction xs arbitrary: p i)
  case (Cons x xs)
  then show ?case by (cases i) (auto simp: add.assoc [symmetric])
qed simp

lemma cstr_end: "cstr m p xs \<Longrightarrow> m (p + of_nat (length xs)) = 0"
  by (induction xs arbitrary: p) (auto simp: add.assoc [symmetric])

lemma cstr_length:
  assumes "cstr m p xs"
  shows "length xs < 2 ^ 32"
proof (rule ccontr)
  assume ge: "\<not> length xs < 2 ^ 32"
  have z: "(of_nat (2 ^ 32) :: u32) = 0" by simp
  have "(of_nat (length xs) :: u32) = of_nat (2 ^ 32 + (length xs - 2 ^ 32))" using ge by simp
  also have "\<dots> = of_nat (length xs - 2 ^ 32)" unfolding of_nat_add z by simp
  finally have "m (p + of_nat (length xs - 2 ^ 32)) = 0" using cstr_end [OF assms] by metis
  moreover have "length xs - 2 ^ 32 < length xs" using ge by (intro diff_less) auto
  ultimately show False using cstr_nth [OF assms] by metis
qed

lemma cstr_upd: "d \<notin> span s (Suc (length xs)) \<Longrightarrow> cstr (m(d := b)) s xs = cstr m s xs"
  by (induction xs arbitrary: s) (auto simp: span_Suc)

lemma cstr_store:
  "span d (length bs) \<inter> span s (Suc (length xs)) = {} \<Longrightarrow> cstr (store d bs m) s xs = cstr m s xs"
proof (induction bs arbitrary: d m)
  case (Cons b bs)
  have "insert d (span (d + 1) (length bs)) \<inter> span s (Suc (length xs)) = {}"
    using Cons.prems by (simp add: span_Suc [of d, symmetric])
  then have d: "d \<notin> span s (Suc (length xs))" and "span (d + 1) (length bs) \<inter> span s (Suc (length xs)) = {}"
    by auto
  then have "cstr (store (d + 1) bs (m(d := b))) s xs = cstr (m(d := b)) s xs" by (intro Cons.IH)
  then show ?case using cstr_upd [OF d] by (simp only: store.simps)
qed simp

lemma store_other: "a \<notin> span p (length bs) \<Longrightarrow> store p bs m a = m a"
  by (induction bs arbitrary: p m) (auto simp: span_Suc)

lemma store_first:
  assumes "length bs < 2 ^ 32"
  shows "store (p + 1) bs m p = m p"
proof (rule store_other)
  have "p - (p + 1) = (- 1 :: u32)" by simp
  then have "unat (p - (p + 1)) = 2 ^ 32 - 1" by (simp add: unsigned_minus_1_eq_mask mask_eq_exp_minus_1)
  then show "p \<notin> span (p + 1) (length bs)" using assms by (simp add: span_iff del: diff_add_cancel)
qed

lemma store_append: "store p (xs @ ys) m = store (p + of_nat (length xs)) ys (store p xs m)"
  by (induction xs arbitrary: p m) (simp_all add: add.assoc)

lemma store_same: "cstr m p xs \<Longrightarrow> store p xs m = m"
proof (induction xs arbitrary: p)
  case (Cons x xs)
  then have "m(p := x) = m" by auto
  with Cons show ?case by simp
qed simp

lemma cstr_stored:
  "0 \<notin> set xs \<Longrightarrow> length xs < 2 ^ 32 \<Longrightarrow> cstr (store p (xs @ [0]) m) p xs"
proof (induction xs arbitrary: p m)
  case (Cons x xs)
  then show ?case by (simp add: store_first)
qed simp

lemma cstr_no_nul: "cstr m p xs \<Longrightarrow> 0 \<notin> set xs"
  by (induction xs arbitrary: p) auto

lemma cstr_unique: "cstr m p xs \<Longrightarrow> cstr m p ys \<Longrightarrow> xs = ys"
proof (induction xs arbitrary: p ys)
  case Nil
  then show ?case by (cases ys) auto
next
  case (Cons x xs)
  then show ?case by (cases ys) auto
qed

section \<open>Correctness of the string loops\<close>

lemma strlen_loop_spec:
  "cstr m (p + k) xs \<Longrightarrow> strlen_loop p k m = Some (k + of_nat (length xs))"
proof (induction xs arbitrary: k)
  case Nil
  then show ?case by (subst strlen_loop.simps) simp
next
  case (Cons x xs)
  then show ?case by (subst strlen_loop.simps) (simp add: add.assoc)
qed

lemma strcpy_loop_spec:
  "cstr m s xs \<Longrightarrow> span d (Suc (length xs)) \<inter> span s (Suc (length xs)) = {} \<Longrightarrow>
   strcpy_loop d s m = Some (store d (xs @ [0]) m)"
proof (induction xs arbitrary: d s m)
  case Nil
  then show ?case by (subst strcpy_loop.simps) simp
next
  case (Cons x xs)
  let ?n = "Suc (length xs)"
  have "span d (Suc ?n) \<inter> span s (Suc ?n) = {}" using Cons.prems(2) by simp
  then have d: "d \<notin> span (s + 1) ?n" and disj: "span (d + 1) ?n \<inter> span (s + 1) ?n = {}"
    unfolding span_Suc [of d] span_Suc [of s] by auto
  have "cstr (m(d := x)) (s + 1) xs" using Cons.prems(1) cstr_upd [OF d] by simp
  then have "strcpy_loop (d + 1) (s + 1) (m(d := x)) = Some (store (d + 1) (xs @ [0]) (m(d := x)))"
    by (rule Cons.IH [OF _ disj])
  then show ?case using Cons.prems(1) by (subst strcpy_loop.simps) simp
qed

lemma find_nul_spec: "cstr m d xs \<Longrightarrow> find_nul d m = Some (d + of_nat (length xs))"
proof (induction xs arbitrary: d)
  case Nil
  then show ?case by (subst find_nul.simps) simp
next
  case (Cons x xs)
  then show ?case by (subst find_nul.simps) (simp add: add.assoc)
qed

lemma sint_byte_diff: "sint (ucast (a :: u8) - ucast (b :: u8) :: u32) = int (unat a) - int (unat b)"
proof -
  have lt: "uint a < 256" "uint b < 256" using unsigned_less [of a] unsigned_less [of b] by simp_all
  have ge: "0 \<le> uint a" "0 \<le> uint b" by simp_all
  have "- 2147483648 \<le> uint a - uint b" "uint a - uint b < 2147483648"
    using lt ge by linarith+
  then have b8: "- (2 ^ 31) \<le> uint a - uint b" "uint a - uint b < 2 ^ 31" by simp_all
  have "sint (ucast a - ucast b :: u32) = signed_take_bit 31 (uint a - uint b)"
    by transfer (simp add: signed_take_bit_diff signed_take_bit_take_bit take_bit_eq_mod)
  also have "\<dots> = uint a - uint b"
    using b8 by (rule signed_take_bit_int_eq_self)
  finally show ?thesis by simp
qed

lemma byte_diff_0: "(ucast (a :: u8) - ucast (b :: u8) :: u32) = 0 \<longleftrightarrow> a = b"
  using sint_byte_diff [of a b] by (metis diff_self eq_iff_diff_eq_0 of_nat_eq_iff sint_0 unsigned_word_eqI)

lemma byte_diff_neg: "sint (ucast (a :: u8) - ucast (b :: u8) :: u32) < 0 \<longleftrightarrow> a < b"
  by (simp add: sint_byte_diff word_less_nat_alt del: unsigned_of_nat of_nat_unat)

lemma strcmp_loop_spec:
  "cstr m a xs \<Longrightarrow> cstr m b ys \<Longrightarrow>
   \<exists>r. strcmp_loop a b m = Some r \<and> (r = 0 \<longleftrightarrow> xs = ys) \<and>
     (sint r < 0 \<longleftrightarrow> ord_class.lexordp xs ys)"
proof (induction xs arbitrary: a b ys)
  case Nil
  have "m b \<noteq> 0 \<longleftrightarrow> ys \<noteq> []" using Nil by (cases ys) auto
  then show ?case using Nil byte_diff_0 [of 0 "m b"] byte_diff_neg [of 0 "m b"]
    by (subst strcmp_loop.simps) (cases ys; simp add: word_gt_0)
next
  case (Cons x xs)
  show ?case
  proof (cases ys)
    case Nil
    then show ?thesis using Cons.prems byte_diff_0 [of "m a" 0] byte_diff_neg [of "m a" 0]
      by (subst strcmp_loop.simps) simp
  next
    case (Cons y zs)
    show ?thesis
    proof (cases "x = y")
      case True
      then show ?thesis using Cons Cons.prems Cons.IH [of "a + 1" "b + 1" zs]
        by (subst strcmp_loop.simps) auto
    next
      case False
      then show ?thesis using Cons Cons.prems byte_diff_0 [of x y]
        by (subst strcmp_loop.simps) (auto simp: byte_diff_neg)
    qed
  qed
qed

lemma scast_byte_eq [simp]: "(scast (x :: u8) :: u32) = scast y \<longleftrightarrow> x = y"
proof
  assume "(scast x :: u32) = scast y"
  then have "sint (scast x :: u32) = sint (scast y :: u32)" by (rule arg_cong)
  then have "sint x = sint y" by (simp add: sint_up_scast is_up)
  then show "x = y" by (simp only: signed_word_eqI)
qed simp

lemma scast_byte_0 [simp]: "(scast (x :: u8) :: u32) = 0 \<longleftrightarrow> x = 0"
  using scast_byte_eq [of x 0] by simp

lemma strncmp_loop_spec:
  "cstr m (a + i) xs \<Longrightarrow> cstr m (b + i) ys \<Longrightarrow>
   strncmp_loop a b i n m = 0 \<longleftrightarrow> take n xs = take n ys"
proof (induction n arbitrary: i xs ys)
  case (Suc n)
  show ?case using Suc.prems Suc.IH [of "i + 1" "tl xs" "tl ys"]
    by (cases xs; cases ys) (auto simp: add.assoc)
qed simp

section \<open>Padding copy\<close>

lemma strncpy_pad_store: "strncpy_pad d i k m = store (d + i) (replicate k 0) m"
  by (induction k arbitrary: i m) (simp_all add: add.assoc)

lemma strncpy_spec_from:
  "cstr m (s + i) xs \<Longrightarrow> span (d + i) k \<inter> span (s + i) (Suc (length xs)) = {} \<Longrightarrow>
   (let (k', i', m') = strncpy_copy d s i k m in strncpy_pad d i' k' m') =
     store (d + i) (take k (xs @ replicate k 0)) m"
proof (induction k arbitrary: i m xs)
  case (Suc k)
  show ?case
  proof (cases xs)
    case Nil
    then show ?thesis using Suc.prems(1) by (simp add: strncpy_pad_store add.assoc)
  next
    case (Cons x ys)
    let ?n = "Suc (length ys)"
    have "span (d + i) (Suc k) \<inter> span (s + i) (Suc ?n) = {}" using Suc.prems(2) Cons by simp
    then have di: "d + i \<notin> span (s + (i + 1)) ?n"
      and disj: "span (d + (i + 1)) k \<inter> span (s + (i + 1)) ?n = {}"
      unfolding span_Suc [of "d + i"] span_Suc [of "s + i"] by (auto simp: add.assoc)
    have "cstr (m(d + i := x)) (s + (i + 1)) ys"
      using Suc.prems(1) cstr_upd [OF di] Cons by (simp add: add.assoc)
    then have "(let (k', i', m') = strncpy_copy d s (i + 1) k (m(d + i := x)) in strncpy_pad d i' k' m') =
        store (d + (i + 1)) (take k (ys @ replicate k 0)) (m(d + i := x))"
      by (rule Suc.IH [OF _ disj])
    moreover have "take (k - length ys) (replicate (Suc k) 0) = replicate (k - length ys) (0 :: u8)"
      unfolding take_replicate by (simp add: min_def)
    ultimately show ?thesis using Suc.prems(1) Cons by (simp add: Let_def add.assoc)
  qed
qed simp

section \<open>Properties\<close>

text \<open>
  C38: memmove copies as if all source bytes were read first, overlapping or not, memcpy agrees with
  it when the destination lies below the source or behind its end, and memset writes the low byte of
  its value to exactly the given range.
\<close>

theorem memmove_copies:
  assumes "unat dest + unat num \<le> 2 ^ 32" and "unat src + unat num \<le> 2 ^ 32"
  shows "memmove dest src num m = (\<lambda>a. if a - dest < num then m (src + (a - dest)) else m a) \<and>
    (dest < src \<or> unat src + unat num \<le> unat dest \<longrightarrow> memcpy dest src num m = memmove dest src num m) \<and>
    memset dest v num m = (\<lambda>a. if a - dest < num then ucast v else m a)"
  using memmove_byte [OF assms] memcpy_is_memmove [OF assms] by (auto simp: memset_byte)

theorem memmove_copies_witness:
  "memmove 4 2 5 (\<lambda>a. ucast a) = (\<lambda>a. if a - 4 < 5 then ucast (2 + (a - 4)) else ucast a)"
  using memmove_copies [of 4 5 2 "\<lambda>a. ucast a"] by simp

theorem strcpy_copies:
  assumes "cstr m src xs" and "span dest (Suc (length xs)) \<inter> span src (Suc (length xs)) = {}"
  shows "\<exists>m'. strcpy dest src m = Some m' \<and> cstr m' dest xs \<and> cstr m' src xs \<and>
    strlen dest m' = Some (of_nat (length xs)) \<and>
    (\<forall>a. a \<notin> span dest (Suc (length xs)) \<longrightarrow> m' a = m a)"
proof -
  let ?m = "store dest (xs @ [0]) m"
  have "cstr ?m dest xs"
    using cstr_stored cstr_no_nul [OF assms(1)] cstr_length [OF assms(1)] by blast
  moreover have "cstr ?m src xs" using cstr_store [of dest "xs @ [0]" src xs m] assms by simp
  moreover have "strlen dest ?m = Some (of_nat (length xs))"
    using strlen_loop_spec [of ?m dest 0 xs] calculation(1) by (simp add: strlen_def)
  moreover have "\<forall>a. a \<notin> span dest (Suc (length xs)) \<longrightarrow> ?m a = m a"
    using store_other [of _ dest "xs @ [0]" m] by simp
  ultimately show ?thesis using strcpy_loop_spec [OF assms] unfolding strcpy_def by blast
qed

theorem strcpy_copies_witness:
  "\<exists>m'. strcpy 10 0 ((\<lambda>_. 0)(0 := 104, 1 := 105)) = Some m' \<and> cstr m' 10 [104, 105]"
proof -
  have "span 10 (Suc (length [104, 105 :: u8])) \<inter> span 0 (Suc (length [104, 105 :: u8])) = {}"
    by (rule span_disjoint) simp_all
  from strcpy_copies [OF _ this, of "(\<lambda>_. 0)(0 := 104, 1 := 105)"] show ?thesis by auto
qed

theorem strcat_appends:
  assumes "cstr m dest xs" and "cstr m src ys" and "length xs + length ys < 2 ^ 32"
    and "span dest (Suc (length xs + length ys)) \<inter> span src (Suc (length ys)) = {}"
  shows "\<exists>m'. strcat dest src m = Some m' \<and> cstr m' dest (xs @ ys) \<and> cstr m' src ys \<and>
    (\<forall>a. a \<notin> span dest (Suc (length xs + length ys)) \<longrightarrow> m' a = m a)"
proof -
  let ?d = "dest + of_nat (length xs)" and ?m = "store (dest + of_nat (length xs)) (ys @ [0]) m"
  have sub: "span dest (Suc (length xs + length ys)) = span dest (length xs) \<union> span ?d (Suc (length ys))"
    using span_add [of dest "length xs" "Suc (length ys)"] by simp
  then have disj: "span ?d (Suc (length ys)) \<inter> span src (Suc (length ys)) = {}" using assms(4) by auto
  have "strcat dest src m = Some ?m"
    using find_nul_spec [OF assms(1)] strcpy_loop_spec [OF assms(2) disj] by (simp add: strcat_def)
  moreover have "cstr ?m src ys" using cstr_store [of ?d "ys @ [0]" src ys m] disj assms(2) by simp
  moreover have "store dest xs m = m" using store_same [OF assms(1)] .
  then have "?m = store dest ((xs @ ys) @ [0]) m" by (simp add: store_append [of dest xs])
  then have "cstr ?m dest (xs @ ys)"
    using cstr_stored [of "xs @ ys" dest m] assms(3) cstr_no_nul [OF assms(1)] cstr_no_nul [OF assms(2)]
    by simp
  moreover have "\<forall>a. a \<notin> span dest (Suc (length xs + length ys)) \<longrightarrow> ?m a = m a"
    using store_other [of _ ?d "ys @ [0]" m] sub by simp
  ultimately show ?thesis by blast
qed

theorem strcat_appends_witness:
  "\<exists>m'. strcat 10 0 ((\<lambda>_. 0)(0 := 104, 10 := 105)) = Some m' \<and> cstr m' 10 [105, 104]"
proof -
  have "span 10 (Suc (length [105 :: u8] + length [104 :: u8])) \<inter> span 0 (Suc (length [104 :: u8])) = {}"
    by (rule span_disjoint) simp_all
  from strcat_appends [OF _ _ _ this, of "(\<lambda>_. 0)(0 := 104, 10 := 105)"] show ?thesis by auto
qed

theorem strcmp_orders:
  assumes "cstr m str1 xs" and "cstr m str2 ys"
  shows "\<exists>r. strcmp str1 str2 m = Some r \<and> (r = 0 \<longleftrightarrow> xs = ys) \<and>
      (sint r < 0 \<longleftrightarrow> ord_class.lexordp xs ys) \<and>
      (strncmp str1 str2 num m = 0 \<longleftrightarrow> take (unat num) xs = take (unat num) ys)"
  using strcmp_loop_spec [OF assms] strncmp_loop_spec [of m str1 0 xs str2 ys] assms
  by (simp add: strcmp_def strncmp_def)

theorem strcmp_orders_witness:
  "\<exists>r. strcmp 0 8 ((\<lambda>_. 0)(0 := 104, 8 := 104, 9 := 105)) = Some r \<and> sint r < 0"
  using strcmp_orders [of "(\<lambda>_. 0)(0 := 104, 8 := 104, 9 := 105)" 0 "[104]" 8 "[104, 105]"] by auto

theorem strncpy_pads:
  assumes "cstr m src xs" and "span dest (unat num) \<inter> span src (Suc (length xs)) = {}"
  shows "strncpy dest src num m = store dest (take (unat num) (xs @ replicate (unat num) 0)) m"
  using strncpy_spec_from [of m src 0 xs dest "unat num"] assms by (simp add: strncpy_def)

theorem strncpy_pads_witness:
  "strncpy 10 0 4 ((\<lambda>_. 7)(0 := 104, 1 := 0)) = store 10 [104, 0, 0, 0] ((\<lambda>_. 7)(0 := 104, 1 := 0))"
proof -
  have "span 10 (unat (4 :: u32)) \<inter> span 0 (Suc (length [104 :: u8])) = {}"
    by (rule span_disjoint) simp_all
  note pads = strncpy_pads [OF _ this, of "(\<lambda>_. 7)(0 := 104, 1 := 0)"]
  have "replicate 4 (0 :: u8) = [0, 0, 0, 0]" by (simp add: numeral_eq_Suc)
  with pads show ?thesis by simp
qed

end
