(* ===== verification/Paging.thy ===== *)
theory Paging
  imports Cstring
begin

text \<open>
  The machine's view of memory that \<open>kernel/mm/temp_mapping.c\<close>, \<open>kernel/mm/vmm.c\<close> and
  \<open>kernel/process/process.c\<close> program against: 32-bit little-endian loads and stores on physical
  memory, the two-level page walk of the processor (4 KiB pages, supervisor accesses, write
  protection off) and loads and stores through virtual addresses. An access to a page that is not
  present is a page fault: the result is \<open>None\<close>. Every change of an entry in the code is followed by
  \<open>invlpg\<close>, so the walk is done anew on every access and there is no translation cache.
\<close>

section \<open>Words in physical memory\<close>

definition load32 :: "mem \<Rightarrow> u32 \<Rightarrow> u32" where
  "load32 m a = ucast (m a) OR push_bit 8 (ucast (m (a + 1))) OR push_bit 16 (ucast (m (a + 2))) OR
     push_bit 24 (ucast (m (a + 3)))"

definition store32 :: "u32 \<Rightarrow> u32 \<Rightarrow> mem \<Rightarrow> mem" where
  "store32 a v m = m(a := ucast v, a + 1 := ucast (drop_bit 8 v), a + 2 := ucast (drop_bit 16 v),
     a + 3 := ucast (drop_bit 24 v))"

lemma store32_outside: "a \<notin> span p 4 \<Longrightarrow> store32 p v m a = m a"
  by (simp add: store32_def span_Suc numeral_eq_Suc add.assoc)

lemma load32_store32_same [simp]: "load32 (store32 a v m) a = v"
proof -
  have "a \<noteq> a + 1" "a \<noteq> a + 2" "a \<noteq> a + 3" "a + 1 \<noteq> a + 2" "a + 1 \<noteq> a + 3" "a + 2 \<noteq> a + 3" by simp_all
  then have "load32 (store32 a v m) a = ucast (ucast v :: u8) OR push_bit 8 (ucast (ucast (drop_bit 8 v) :: u8)) OR
      push_bit 16 (ucast (ucast (drop_bit 16 v) :: u8)) OR push_bit 24 (ucast (ucast (drop_bit 24 v) :: u8))"
    by (simp add: load32_def store32_def)
  also have "\<dots> = v"
  proof (rule bit_word_eqI)
    fix n assume n: "n < LENGTH(32)"
    show "bit (ucast (ucast v :: u8) OR push_bit 8 (ucast (ucast (drop_bit 8 v) :: u8)) OR
        push_bit 16 (ucast (ucast (drop_bit 16 v) :: u8)) OR push_bit 24 (ucast (ucast (drop_bit 24 v) :: u8)) :: u32) n \<longleftrightarrow> bit v n"
    proof -
      consider "n < 8" | "8 \<le> n" "n < 16" | "16 \<le> n" "n < 24" | "24 \<le> n" by linarith
      then show ?thesis using n by cases (auto simp: bit_simps)
    qed
  qed
  finally show ?thesis .
qed

text \<open>Word addresses: multiples of four. Two of them are equal or four bytes apart.\<close>

definition word_addr :: "u32 \<Rightarrow> bool" where
  "word_addr a \<longleftrightarrow> 4 dvd unat a"

lemma word_addr_apart:
  assumes "word_addr a" and "word_addr b" and "a \<noteq> b" and "unat i < 4" and "unat j < 4"
  shows "a + i \<noteq> b + j"
proof
  assume eq: "a + i = b + j"
  obtain k where k: "unat a = 4 * k" using assms(1) by (auto simp: word_addr_def elim: dvdE)
  obtain l where l: "unat b = 4 * l" using assms(2) by (auto simp: word_addr_def elim: dvdE)
  have lt: "unat a < 4294967296" "unat b < 4294967296"
    using unsigned_less [of a] unsigned_less [of b] by simp_all
  then have "k < 1073741824" "l < 1073741824" using k l by simp_all
  then have "unat (a + i) = 4 * k + unat i" "unat (b + j) = 4 * l + unat j"
    using assms(4,5) k l by (simp_all add: unat_word_ariths)
  then have "4 * k + unat i = 4 * l + unat j" using eq by simp
  then have "k = l" using assms(4,5) by presburger
  then have "unat a = unat b" using k l by simp
  then have "a = b" by (rule unsigned_word_eqI)
  then show False using assms(3) by simp
qed

lemma load32_store32_other:
  assumes "word_addr a" and "word_addr b" and "a \<noteq> b"
  shows "load32 (store32 a v m) b = load32 m b"
proof -
  have n: "b + j \<noteq> a + i" if "unat i < 4" "unat j < 4" for i j
    using word_addr_apart [OF assms(1,2,3) that] by simp
  have "b \<noteq> a" "b \<noteq> a + 1" "b \<noteq> a + 2" "b \<noteq> a + 3"
    using n [of 0 0] n [of 1 0] n [of 2 0] n [of 3 0] by simp_all
  moreover have "b + 1 \<noteq> a" "b + 1 \<noteq> a + 1" "b + 1 \<noteq> a + 2" "b + 1 \<noteq> a + 3"
    using n [of 0 1] n [of 1 1] n [of 2 1] n [of 3 1] by simp_all
  moreover have "b + 2 \<noteq> a" "b + 2 \<noteq> a + 1" "b + 2 \<noteq> a + 2" "b + 2 \<noteq> a + 3"
    using n [of 0 2] n [of 1 2] n [of 2 2] n [of 3 2] by simp_all
  moreover have "b + 3 \<noteq> a" "b + 3 \<noteq> a + 1" "b + 3 \<noteq> a + 2" "b + 3 \<noteq> a + 3"
    using n [of 0 3] n [of 1 3] n [of 2 3] n [of 3 3] by simp_all
  ultimately show ?thesis unfolding load32_def store32_def by (simp only: fun_upd_apply if_False simp_thms)
qed

section \<open>Page walk\<close>

definition FRAME_MASK :: u32 where "FRAME_MASK = 0xFFFFF000"

definition pdx :: "u32 \<Rightarrow> u32" where "pdx va = drop_bit 22 va"
definition ptx :: "u32 \<Rightarrow> u32" where "ptx va = drop_bit 12 va AND 0x3FF"

definition pde_of :: "u32 \<Rightarrow> mem \<Rightarrow> u32 \<Rightarrow> u32" where
  "pde_of dir m va = load32 m (dir + 4 * pdx va)"

definition pte_addr :: "u32 \<Rightarrow> mem \<Rightarrow> u32 \<Rightarrow> u32" where
  "pte_addr dir m va = (pde_of dir m va AND FRAME_MASK) + 4 * ptx va"

definition translate :: "u32 \<Rightarrow> mem \<Rightarrow> u32 \<Rightarrow> u32 option" where
  "translate dir m va =
     (if pde_of dir m va AND 1 = 0 then None
      else
        let pte = load32 m (pte_addr dir m va)
        in if pte AND 1 = 0 then None else Some ((pte AND FRAME_MASK) + (va AND 0xFFF)))"

section \<open>Frames\<close>

text \<open>An address that starts a page, and arithmetic on entry addresses.\<close>

definition page_aligned :: "u32 \<Rightarrow> bool" where
  "page_aligned a \<longleftrightarrow> a AND 0xFFF = 0"

lemma unat_u32: "unat (a :: u32) < 4294967296"
proof -
  have "unat a < 2 ^ LENGTH(32)" by (rule unsigned_less)
  then show ?thesis by simp
qed

lemma and_mask_unat: "unat (a AND 0xFFF :: u32) = unat a mod 4096"
proof -
  have "(0xFFF :: u32) = mask 12" by (simp add: mask_eq_exp_minus_1)
  then have "a AND 0xFFF = take_bit 12 a" by (simp add: take_bit_eq_mask)
  then show ?thesis by (simp add: unat_mod take_bit_eq_mod)
qed

lemma and_frame_unat: "unat (a AND FRAME_MASK :: u32) = unat a div 4096 * 4096"
proof -
  have m: "(FRAME_MASK :: u32) = NOT (mask 12)" by (simp add: FRAME_MASK_def mask_eq_exp_minus_1)
  have "a AND FRAME_MASK = push_bit 12 (drop_bit 12 a)"
    unfolding m by (auto intro!: bit_word_eqI simp: bit_simps)
  also have "\<dots> = a div 4096 * 4096" by (simp add: push_bit_eq_mult drop_bit_eq_div)
  finally have "unat (a AND FRAME_MASK) = unat (a div 4096 * 4096)" by simp
  also have "\<dots> = unat (a div 4096) * unat (4096 :: u32)"
    using unat_u32 [of a] by (intro unat_mult_no_wrap) (simp add: unat_div less_mult_imp_div_less)
  also have "\<dots> = unat a div 4096 * 4096" by (simp add: unat_div)
  finally show ?thesis .
qed

lemma page_aligned_unat: "page_aligned a \<longleftrightarrow> 4096 dvd unat a"
  by (simp add: page_aligned_def and_mask_unat word_unat_eq_iff flip: unat_0_iff)
    (simp add: and_mask_unat dvd_eq_mod_eq_0)

lemma pdx_unat: "unat (pdx va) = unat va div 4194304"
  by (simp add: pdx_def drop_bit_eq_div unat_div)

lemma ptx_unat: "unat (ptx va) = unat va div 4096 mod 1024"
proof -
  have "(0x3FF :: u32) = mask 10" by (simp add: mask_eq_exp_minus_1)
  then have "ptx va = take_bit 10 (drop_bit 12 va)" by (simp add: ptx_def take_bit_eq_mask)
  then show ?thesis by (simp add: take_bit_eq_mod drop_bit_eq_div unat_mod unat_div)
qed

lemma ptx_lt: "unat (ptx va) < 1024"
  by (simp add: ptx_unat)

lemma pdx_lt: "unat (pdx va) < 1024"
  using unat_u32 [of va] by (simp add: pdx_unat less_mult_imp_div_less)

definition entry :: "u32 \<Rightarrow> nat \<Rightarrow> u32" where
  "entry f i = f + 4 * of_nat i"

lemma aligned_bound: "page_aligned f \<Longrightarrow> unat f \<le> 4294963200"
proof -
  assume "page_aligned f"
  then obtain k where "unat f = 4096 * k" by (auto simp: page_aligned_unat elim: dvdE)
  then show ?thesis using unat_u32 [of f] by simp
qed

lemma unat_offset: "page_aligned f \<Longrightarrow> unat off < 4096 \<Longrightarrow> unat (f + off) = unat f + unat off"
  using aligned_bound [of f] by (intro unat_add_no_wrap) simp

lemma unat_four: "i < 1024 \<Longrightarrow> unat (4 * of_nat i :: u32) = 4 * i"
proof -
  assume i: "i < 1024"
  then have "unat (of_nat i :: u32) = i" by (intro unat_of_nat_small) simp
  then show ?thesis using i by (subst unat_mult_no_wrap) simp_all
qed

lemma unat_entry: "page_aligned f \<Longrightarrow> i < 1024 \<Longrightarrow> unat (entry f i) = unat f + 4 * i"
  using unat_offset [of f "4 * of_nat i"] unat_four [of i] by (simp add: entry_def)

lemma entry_word [simp]: "page_aligned f \<Longrightarrow> i < 1024 \<Longrightarrow> word_addr (entry f i)"
  by (auto simp: word_addr_def unat_entry page_aligned_unat elim!: dvdE)

lemma entry_eq:
  assumes "page_aligned f" and "page_aligned g" and "i < 1024" and "j < 1024"
  shows "entry f i = entry g j \<longleftrightarrow> f = g \<and> i = j"
proof
  assume "entry f i = entry g j"
  then have eq: "unat f + 4 * i = unat g + 4 * j" using assms unat_entry by metis
  obtain k where k: "unat f = 4096 * k" using assms(1) by (auto simp: page_aligned_unat elim: dvdE)
  obtain l where l: "unat g = 4096 * l" using assms(2) by (auto simp: page_aligned_unat elim: dvdE)
  have kl: "1024 * k + i = 1024 * l + j" using eq k l by simp
  then have "(1024 * k + i) div 1024 = (1024 * l + j) div 1024" by simp
  then have "k = l" using assms(3,4) by simp
  then have "unat f = unat g" "i = j" using k l kl by simp_all
  then show "f = g \<and> i = j" using unsigned_word_eqI by blast
qed simp

lemma load_entry_store:
  assumes "page_aligned f" and "page_aligned g" and "i < 1024" and "j < 1024"
  shows "load32 (store32 (entry f i) v m) (entry g j) = (if f = g \<and> i = j then v else load32 m (entry g j))"
  using assms entry_eq [OF assms] by (auto simp: load32_store32_other)

lemma frame_aligned [simp]: "page_aligned (a AND FRAME_MASK)"
  by (simp add: page_aligned_unat and_frame_unat)

lemma frame_of_aligned: "page_aligned f \<Longrightarrow> unat off < 4096 \<Longrightarrow> (f + off) AND FRAME_MASK = f"
proof -
  assume a: "page_aligned f" "unat off < 4096"
  then obtain k where k: "unat f = 4096 * k" by (auto simp: page_aligned_unat elim: dvdE)
  then have "unat ((f + off) AND FRAME_MASK) = unat f" using a unat_offset [OF a] by (simp add: and_frame_unat)
  then show ?thesis by (rule unsigned_word_eqI)
qed

lemma page_aligned_bits: "page_aligned f \<Longrightarrow> bit f n \<Longrightarrow> 12 \<le> n"
proof (rule ccontr)
  assume a: "page_aligned f" "bit f n" "\<not> 12 \<le> n"
  have m: "(0xFFF :: u32) = mask 12" by (simp add: mask_eq_exp_minus_1)
  have "n < 32" using bit_imp_le_length [OF a(2)] by simp
  then have "bit (f AND mask 12) n" using a(2,3) by (simp add: bit_simps)
  then show False using a(1) unfolding page_aligned_def m by simp
qed

text \<open>Flags in the low bits of an entry do not disturb the frame.\<close>

lemma or_flags:
  assumes "page_aligned f" and "unat fl < 4096"
  shows "f OR fl = f + fl"
proof -
  have "unat (take_bit 12 fl) = unat fl" using assms(2) by (simp add: take_bit_eq_mod unat_mod)
  then have "take_bit 12 fl = fl" by (rule unsigned_word_eqI)
  then have "bit fl n \<Longrightarrow> n < 12" for n by (metis bit_take_bit_iff)
  with page_aligned_bits [OF assms(1)] have "\<not> bit f n \<or> \<not> bit fl n" for n by fastforce
  then have "f AND fl = 0" by (intro bit_eqI) (auto simp: bit_simps)
  then show ?thesis by (simp add: disjunctive_add_eq_or)
qed

lemma or_flags_frame: "page_aligned f \<Longrightarrow> unat fl < 4096 \<Longrightarrow> (f OR fl) AND FRAME_MASK = f"
  by (simp add: or_flags frame_of_aligned)

lemma or_present: "(f OR fl) AND 1 = 0 \<Longrightarrow> fl AND 1 = (0 :: u32)"
  by (auto simp: bit_eq_iff bit_simps)

section \<open>Accesses through virtual addresses\<close>

definition vread32 :: "u32 \<Rightarrow> u32 \<Rightarrow> mem \<Rightarrow> u32 option" where
  "vread32 dir va m = map_option (load32 m) (translate dir m va)"

definition vwrite32 :: "u32 \<Rightarrow> u32 \<Rightarrow> u32 \<Rightarrow> mem \<Rightarrow> mem option" where
  "vwrite32 dir va v m = map_option (\<lambda>pa. store32 pa v m) (translate dir m va)"

definition vread8 :: "u32 \<Rightarrow> u32 \<Rightarrow> mem \<Rightarrow> u8 option" where
  "vread8 dir va m = map_option m (translate dir m va)"

definition vwrite8 :: "u32 \<Rightarrow> u32 \<Rightarrow> u8 \<Rightarrow> mem \<Rightarrow> mem option" where
  "vwrite8 dir va v m = map_option (\<lambda>pa. m(pa := v)) (translate dir m va)"

text \<open>\<open>memset\<close> and \<open>memcpy\<close> of \<open>n\<close> bytes, byte by byte.\<close>

fun vmemset :: "u32 \<Rightarrow> u32 \<Rightarrow> u8 \<Rightarrow> nat \<Rightarrow> mem \<Rightarrow> mem option" where
  "vmemset dir ptr v 0 m = Some m"
| "vmemset dir ptr v (Suc n) m = do {
     m \<leftarrow> vwrite8 dir ptr v m;
     vmemset dir (ptr + 1) v n m
   }"

fun vmemcpy :: "u32 \<Rightarrow> u32 \<Rightarrow> u32 \<Rightarrow> nat \<Rightarrow> mem \<Rightarrow> mem option" where
  "vmemcpy dir d s 0 m = Some m"
| "vmemcpy dir d s (Suc n) m = do {
     c \<leftarrow> vread8 dir s m;
     m \<leftarrow> vwrite8 dir d c m;
     vmemcpy dir (d + 1) (s + 1) n m
   }"

section \<open>The recursive mapping\<close>

text \<open>The last entry of the directory points to the directory itself.\<close>

definition self_mapped :: "u32 \<Rightarrow> mem \<Rightarrow> bool" where
  "self_mapped dir m \<longleftrightarrow> page_aligned dir \<and> load32 m (entry dir 1023) AND FRAME_MASK = dir \<and>
     load32 m (entry dir 1023) AND 1 \<noteq> 0"

lemma entry_pdx: "dir + 4 * pdx va = entry dir (unat (pdx va))"
  by (simp add: entry_def)

lemma entry_ptx: "f + 4 * ptx va = entry f (unat (ptx va))"
  by (simp add: entry_def)

lemma or_base: "i < 1024 \<Longrightarrow> (0xFFC00000 :: u32) OR push_bit 12 (of_nat i) = 0xFFC00000 + 4096 * of_nat i"
proof -
  assume i: "i < 1024"
  have "bit (of_nat i :: u32) n \<Longrightarrow> n < 10" for n
  proof -
    have "take_bit 10 (of_nat i :: u32) = of_nat (take_bit 10 i)" by (simp add: take_bit_of_nat)
    moreover have "take_bit 10 i = i" using i by (simp add: take_bit_nat_eq_self)
    ultimately show "bit (of_nat i :: u32) n \<Longrightarrow> n < 10" by (metis bit_take_bit_iff)
  qed
  moreover have c: "(0xFFC00000 :: u32) = NOT (mask 22)" by (simp add: mask_eq_exp_minus_1)
  ultimately have "(0xFFC00000 :: u32) AND push_bit 12 (of_nat i) = 0"
    unfolding c by (fastforce simp: bit_eq_iff bit_simps)
  then have "(0xFFC00000 :: u32) OR push_bit 12 (of_nat i) = 0xFFC00000 + push_bit 12 (of_nat i)"
    by (simp add: disjunctive_add_eq_or)
  then show ?thesis by (simp add: push_bit_eq_mult mult.commute)
qed

lemma unat_window: "i < 1024 \<Longrightarrow> j < 1024 \<Longrightarrow>
  unat (0xFFC00000 + 4096 * of_nat i + 4 * of_nat j :: u32) = 4290772992 + 4096 * i + 4 * j"
proof -
  assume ij: "i < 1024" "j < 1024"
  have "of_nat (4290772992 + 4096 * i + 4 * j) = (0xFFC00000 + 4096 * of_nat i + 4 * of_nat j :: u32)" by simp
  moreover have "unat (of_nat (4290772992 + 4096 * i + 4 * j) :: u32) = 4290772992 + 4096 * i + 4 * j"
    using ij by (intro unat_of_nat_small) simp
  ultimately show ?thesis by simp
qed

text \<open>Through it the kernel reaches every entry of a table that is present, and of the directory.\<close>

lemma walk_table:
  assumes "self_mapped dir m" and "i < 1024" and "j < 1024" and "load32 m (entry dir i) AND 1 \<noteq> 0"
  shows "translate dir m ((0xFFC00000 OR push_bit 12 (of_nat i)) + 4 * of_nat j) =
    Some (entry (load32 m (entry dir i) AND FRAME_MASK) j)"
proof -
  let ?va = "0xFFC00000 + 4096 * of_nat i + 4 * of_nat j :: u32"
  note u = unat_window [OF assms(2,3)]
  have px: "unat (pdx ?va) = 1023" using assms(2,3) by (simp add: pdx_unat u)
  have "(4290772992 + 4096 * i + 4 * j) div 4096 = 1047552 + i" using assms(3) by simp
  moreover have "(1047552 + i) mod 1024 = i"
  proof -
    have "1047552 + i = i + 1023 * 1024" by simp
    then have "(1047552 + i) mod 1024 = i mod 1024" by (simp only: mod_mult_self1)
    then show ?thesis using assms(2) by simp
  qed
  ultimately have tx: "unat (ptx ?va) = i" by (simp add: ptx_unat u)
  have "unat (?va AND 0xFFF) = 4 * j"
  proof -
    have "4290772992 + 4096 * i + 4 * j = 4 * j + (1047552 + i) * 4096" by simp
    then have "(4290772992 + 4096 * i + 4 * j) mod 4096 = 4 * j mod 4096" by (simp only: mod_mult_self1)
    then have "(4290772992 + 4096 * i + 4 * j) mod 4096 = 4 * j" using assms(3) by simp
    then show ?thesis by (simp add: and_mask_unat u)
  qed
  then have "?va AND 0xFFF = 4 * of_nat j" using unat_four [OF assms(3)] unsigned_word_eqI by metis
  then show ?thesis using assms(1,4)
    by (simp add: or_base [OF assms(2)] translate_def pde_of_def pte_addr_def entry_pdx entry_ptx px tx
        self_mapped_def) (simp add: entry_def)
qed

lemma walk_directory:
  assumes "self_mapped dir m" and "i < 1024"
  shows "translate dir m (0xFFFFF000 + 4 * of_nat i) = Some (entry dir i)"
proof -
  have "(0xFFC00000 :: u32) OR push_bit 12 (of_nat 1023) = 0xFFFFF000" by (subst or_base) simp_all
  with walk_table [OF assms(1) _ assms(2), of 1023] assms(1) show ?thesis by (simp add: self_mapped_def)
qed

section \<open>Bytes of a frame\<close>

abbreviation frame :: "u32 \<Rightarrow> u32" where "frame a \<equiv> a AND FRAME_MASK"

definition same_frame :: "u32 \<Rightarrow> mem \<Rightarrow> mem \<Rightarrow> bool" where
  "same_frame f m m' \<longleftrightarrow> (\<forall>a. frame a = f \<longrightarrow> m' a = m a)"

lemma same_frame_refl [simp]: "same_frame f m m"
  by (simp add: same_frame_def)

lemma same_frame_trans: "same_frame f m m' \<Longrightarrow> same_frame f m' m'' \<Longrightarrow> same_frame f m m''"
  by (simp add: same_frame_def)

lemma unat_entry_byte: "i < 1024 \<Longrightarrow> unat j < 4 \<Longrightarrow> unat (4 * of_nat i + j :: u32) = 4 * i + unat j"
  by (subst unat_add_no_wrap) (simp_all add: unat_four)

lemma frame_entry_byte: "page_aligned f \<Longrightarrow> i < 1024 \<Longrightarrow> unat j < 4 \<Longrightarrow> frame (entry f i + j) = f"
  using frame_of_aligned [of f "4 * of_nat i + j"] unat_entry_byte [of i j]
  by (simp add: entry_def add.assoc)

lemma frame_entry [simp]: "page_aligned f \<Longrightarrow> i < 1024 \<Longrightarrow> frame (entry f i) = f"
  using frame_entry_byte [of f i 0] by simp

lemma load_entry_cong:
  assumes "same_frame f m m'" and "page_aligned f" and "i < 1024"
  shows "load32 m' (entry f i) = load32 m (entry f i)"
proof -
  have "m' (entry f i + j) = m (entry f i + j)" if "unat j < 4" for j
    using assms(1) frame_entry_byte [OF assms(2,3) that] by (simp add: same_frame_def)
  from this [of 0] this [of 1] this [of 2] this [of 3] show ?thesis by (simp add: load32_def)
qed

lemma store_entry_same_frame:
  "page_aligned g \<Longrightarrow> i < 1024 \<Longrightarrow> f \<noteq> g \<Longrightarrow> same_frame f m (store32 (entry g i) v m)"
proof -
  assume g: "page_aligned g" "i < 1024" "f \<noteq> g"
  have n: "a \<noteq> entry g i + j" if "frame a = f" "unat j < 4" for a j
    using frame_entry_byte [OF g(1,2) that(2)] that(1) g(3) by auto
  have "a \<noteq> entry g i \<and> a \<noteq> entry g i + 1 \<and> a \<noteq> entry g i + 2 \<and> a \<noteq> entry g i + 3" if "frame a = f" for a
    using n [OF that, of 0] n [OF that, of 1] n [OF that, of 2] n [OF that, of 3] by simp
  then show ?thesis by (simp add: same_frame_def store32_def)
qed

lemma split_address: "a = frame a + (a AND 0xFFF)"
proof -
  have "unat a = unat (frame a) + unat (a AND 0xFFF)" by (simp add: and_frame_unat and_mask_unat)
  also have "\<dots> = unat (frame a + (a AND 0xFFF))"
    by (rule unat_offset [symmetric]) (simp_all add: and_mask_unat)
  finally show ?thesis by (rule unsigned_word_eqI)
qed

lemma offset_of_aligned: "page_aligned f \<Longrightarrow> unat off < 4096 \<Longrightarrow> (f + off) AND 0xFFF = off"
  using split_address [of "f + off"] frame_of_aligned [of f off] by simp

lemma address_iff:
  "page_aligned f \<Longrightarrow> unat off < 4096 \<Longrightarrow> a = f + off \<longleftrightarrow> frame a = f \<and> a AND 0xFFF = off"
  using split_address [of a] frame_of_aligned [of f off] offset_of_aligned [of f off] by auto

text \<open>What the walk of an address depends on.\<close>

lemma translate_cong:
  assumes "page_aligned dir" and "same_frame dir m m'" and "same_frame (frame (pde_of dir m va)) m m'"
  shows "translate dir m' va = translate dir m va"
proof -
  have "pde_of dir m' va = pde_of dir m va"
    using load_entry_cong [OF assms(2,1) pdx_lt] by (simp add: pde_of_def entry_pdx)
  moreover have "load32 m' (pte_addr dir m va) = load32 m (pte_addr dir m va)"
    using load_entry_cong [OF assms(3) frame_aligned ptx_lt] by (simp add: pte_addr_def entry_ptx)
  ultimately show ?thesis by (simp add: translate_def pte_addr_def)
qed

end
