(* ===== verification/Klist.thy ===== *)
theory Klist
  imports Prelude
begin

text \<open>
  The intrusive doubly-linked lists of \<open>include/list.h\<close>. A \<open>struct list_head *\<close> is a node:
  the null pointer, the list head embedded in \<open>free_area[i]\<close>, or the node at the start of the
  page at a physical address. The \<open>next\<close> and \<open>prev\<close> members of all nodes are two functions from
  nodes, and every assignment of the C code is one update of them, in the order of the code.
  The representation predicate \<open>dll\<close> relates the pointers of a circular list to the list of its
  nodes; the locale \<open>intrusive_lists\<close> states the interface that the page allocator relies on.
\<close>

section \<open>Nodes and links\<close>

datatype lnode = Lnull | Lhead nat | Lpage u32

record links =
  nxt :: "lnode \<Rightarrow> lnode"
  prv :: "lnode \<Rightarrow> lnode"

definition list_init :: "lnode \<Rightarrow> links \<Rightarrow> links" where
  "list_init h s =
     (let s = s\<lparr>nxt := (nxt s)(h := h)\<rparr>
      in s\<lparr>prv := (prv s)(h := h)\<rparr>)"

definition list_add :: "lnode \<Rightarrow> lnode \<Rightarrow> links \<Rightarrow> links" where
  "list_add new h s =
     (let s = s\<lparr>nxt := (nxt s)(new := nxt s h)\<rparr>;
          s = s\<lparr>prv := (prv s)(new := h)\<rparr>;
          s = s\<lparr>prv := (prv s)(nxt s h := new)\<rparr>
      in s\<lparr>nxt := (nxt s)(h := new)\<rparr>)"

definition list_del :: "lnode \<Rightarrow> links \<Rightarrow> links" where
  "list_del e s =
     (let s = s\<lparr>prv := (prv s)(nxt s e := prv s e)\<rparr>;
          s = s\<lparr>nxt := (nxt s)(prv s e := nxt s e)\<rparr>;
          s = s\<lparr>prv := (prv s)(e := Lnull)\<rparr>
      in s\<lparr>nxt := (nxt s)(e := Lnull)\<rparr>)"

definition list_empty :: "lnode \<Rightarrow> links \<Rightarrow> bool" where
  "list_empty h s \<longleftrightarrow> nxt s h = h"

text \<open>
  \<open>list_for_each\<close> with a body that breaks at the first node with a property: \<open>Some (Some n)\<close> is
  the node it broke at, \<open>Some None\<close> a walk that came back to the head, \<open>None\<close> a walk that never
  ends.
\<close>

partial_function (option) list_for_each_find ::
  "(lnode \<Rightarrow> bool) \<Rightarrow> links \<Rightarrow> lnode \<Rightarrow> lnode \<Rightarrow> lnode option option" where
  "list_for_each_find P s h pos =
     (if pos = h then Some None
      else if P pos then Some (Some pos)
      else list_for_each_find P s h (nxt s pos))"

section \<open>The representation predicate\<close>

fun linked :: "(lnode \<Rightarrow> lnode) \<Rightarrow> (lnode \<Rightarrow> lnode) \<Rightarrow> lnode list \<Rightarrow> bool" where
  "linked n p (a # b # r) \<longleftrightarrow> n a = b \<and> p b = a \<and> linked n p (b # r)"
| "linked n p [a] \<longleftrightarrow> True"
| "linked n p [] \<longleftrightarrow> True"

definition dll :: "links \<Rightarrow> lnode \<Rightarrow> lnode list \<Rightarrow> bool" where
  "dll s h xs \<longleftrightarrow> distinct (h # xs) \<and> linked (nxt s) (prv s) (h # xs @ [h])"

lemma linked_append:
  "linked n p (xs @ a # ys) \<longleftrightarrow> linked n p (xs @ [a]) \<and> linked n p (a # ys)"
proof (induction xs)
  case (Cons x xs)
  then show ?case by (cases xs) auto
qed simp

lemma linked_cong:
  "(\<And>x. x \<in> set xs \<Longrightarrow> n' x = n x \<and> p' x = p x) \<Longrightarrow> linked n' p' xs = linked n p xs"
  by (induction n p xs rule: linked.induct) auto

lemma linked_nxt_upd [simp]:
  "a \<notin> set (butlast xs) \<Longrightarrow> linked (n(a := v)) p xs = linked n p xs"
  by (induction n p xs rule: linked.induct) auto

lemma linked_prv_upd [simp]:
  "a \<notin> set (tl xs) \<Longrightarrow> linked n (p(a := v)) xs = linked n p xs"
  by (induction n p xs rule: linked.induct) auto

lemma dll_distinct: "dll s h xs \<Longrightarrow> distinct (h # xs)"
  by (simp add: dll_def)

lemma dll_init: "dll (list_init h s) h []"
  by (simp add: dll_def list_init_def)

lemma dll_first: "dll s h xs \<Longrightarrow> nxt s h = (case xs of [] \<Rightarrow> h | x # _ \<Rightarrow> x)"
  by (cases xs) (auto simp: dll_def)

lemma dll_empty: "dll s h xs \<Longrightarrow> list_empty h s \<longleftrightarrow> xs = []"
  by (cases xs) (auto simp: list_empty_def dll_def)

lemma dll_add:
  assumes "dll s h xs" and "new \<notin> set (h # xs)"
  shows "dll (list_add new h s) h (new # xs)"
  using assms by (cases xs) (auto simp: dll_def list_add_def Let_def butlast_append)

lemma linked_unlink:
  assumes l: "linked n p (us @ a # e # b # vs)"
    and d: "distinct (us @ [a])" "distinct (b # vs)"
    and e: "e \<notin> set (us @ [a])" "e \<notin> set (b # vs)"
    and ab: "a \<notin> set (butlast (b # vs))" "b \<notin> set (tl (us @ [a]))"
  shows "linked (n(a := b, e := v)) (p(b := a, e := w)) (us @ a # b # vs)"
proof -
  have l1: "linked n p (us @ [a])" and l2: "linked n p (b # vs)"
    using l by (simp_all add: linked_append [of n p us a "e # b # vs"])
  have "a \<notin> set (butlast (us @ [a]))" "e \<notin> set (butlast (us @ [a]))" "e \<notin> set (tl (us @ [a]))"
    "e \<notin> set (butlast (b # vs))" "b \<notin> set (tl (b # vs))" "e \<notin> set (tl (b # vs))"
    using d e by (auto dest: in_set_butlastD list.set_sel(2) [rotated] split: if_splits)
  then have "linked (n(a := b, e := v)) (p(b := a, e := w)) (us @ [a])"
    and "linked (n(a := b, e := v)) (p(b := a, e := w)) (b # vs)"
    using l1 l2 ab by (simp_all only: linked_nxt_upd linked_prv_upd not_False_eq_True)
  moreover have "e \<noteq> a" "e \<noteq> b" using e by auto
  ultimately show ?thesis
    by (simp add: linked_append [of _ _ us a "b # vs"])
qed

text \<open>The two neighbours of an element of a circular list, with the rest on both sides.\<close>

lemma circle_split:
  assumes "xs = ys @ e # zs"
  obtains us a b vs where "h # ys = us @ [a]" and "zs @ [h] = b # vs"
    and "h # xs @ [h] = us @ a # e # b # vs" and "h # (ys @ zs) @ [h] = us @ a # b # vs"
proof -
  obtain us a where ua: "h # ys = us @ [a]" by (cases "h # ys" rule: rev_cases) auto
  obtain b vs where bv: "zs @ [h] = b # vs" by (cases "zs @ [h]") auto
  have "h # xs @ [h] = (h # ys) @ e # (zs @ [h])" by (simp add: assms)
  also have "\<dots> = us @ a # e # b # vs" by (simp only: ua bv) simp
  finally have 1: "h # xs @ [h] = us @ a # e # b # vs" .
  have "h # (ys @ zs) @ [h] = (h # ys) @ (zs @ [h])" by simp
  also have "\<dots> = us @ a # b # vs" by (simp only: ua bv) simp
  finally have 2: "h # (ys @ zs) @ [h] = us @ a # b # vs" .
  from that [OF ua bv 1 2] show thesis .
qed

lemma dll_del:
  assumes dll: "dll s h xs" and "e \<in> set xs"
  shows "dll (list_del e s) h (remove1 e xs)"
proof -
  obtain ys zs where xs: "xs = ys @ e # zs" and ys: "e \<notin> set ys"
    using assms(2) by (meson split_list_first)
  obtain us a b vs where ua: "h # ys = us @ [a]" and bv: "zs @ [h] = b # vs"
    and old: "h # xs @ [h] = us @ a # e # b # vs" and new: "h # (ys @ zs) @ [h] = us @ a # b # vs"
    using circle_split [OF xs] .
  have dist: "distinct (h # ys @ e # zs)" using dll by (simp add: dll_def xs)
  have l: "linked (nxt s) (prv s) (us @ a # e # b # vs)"
    using dll unfolding dll_def old [symmetric] by simp
  have nb: "nxt s e = b" "prv s e = a" "e \<noteq> a" "e \<noteq> b"
  proof -
    show "nxt s e = b" "prv s e = a" using l by (simp_all add: linked_append [of _ _ us a "e # b # vs"])
    have "e \<notin> set (us @ [a])" "e \<notin> set (b # vs)" using dist unfolding ua [symmetric] bv [symmetric] by auto
    then show "e \<noteq> a" "e \<noteq> b" by auto
  qed
  have links: "nxt (list_del e s) = (nxt s)(a := b, e := Lnull)"
    "prv (list_del e s) = (prv s)(b := a, e := Lnull)"
    using nb by (auto simp: list_del_def Let_def)
  have a: "a \<in> set (h # ys)" and b: "b \<in> set (zs @ [h])" unfolding ua bv by simp_all
  have "linked (nxt (list_del e s)) (prv (list_del e s)) (us @ a # b # vs)"
    unfolding links
  proof (rule linked_unlink [OF l])
    show "distinct (us @ [a])" "e \<notin> set (us @ [a])" "b \<notin> set (tl (us @ [a]))"
      using dist b unfolding ua [symmetric] by auto
    show "distinct (b # vs)" "e \<notin> set (b # vs)" "a \<notin> set (butlast (b # vs))"
      using dist a unfolding bv [symmetric] by auto
  qed
  moreover have "remove1 e xs = ys @ zs" using xs ys by (simp add: remove1_append)
  ultimately show ?thesis using dist unfolding dll_def by (simp add: new [symmetric])
qed

text \<open>Operations on one list leave every list with other nodes alone.\<close>

lemma dll_frame:
  assumes "dll s k ys" and "\<And>x. x \<in> set (k # ys) \<Longrightarrow> nxt t x = nxt s x \<and> prv t x = prv s x"
  shows "dll t k ys"
proof -
  have "linked (nxt t) (prv t) (k # ys @ [k]) = linked (nxt s) (prv s) (k # ys @ [k])"
    by (rule linked_cong) (use assms(2) in auto)
  then show ?thesis using assms(1) by (simp add: dll_def)
qed

lemma dll_nodes:
  assumes "dll s h xs" and "x \<in> set (h # xs)"
  shows "nxt s x \<in> set (h # xs)" and "prv s x \<in> set (h # xs)"
proof -
  have l: "linked (nxt s) (prv s) (h # xs @ [h])" using assms(1) by (simp add: dll_def)
  have n: "n a \<in> set zs" if "linked n p (us @ a # zs)" "zs \<noteq> []" for n p us a zs
  proof -
    have "linked n p (a # zs)" using that(1) linked_append [of n p us a zs] by simp
    with that(2) show ?thesis by (cases zs) simp_all
  qed
  have p: "p a \<in> set us" if lk: "linked n p (us @ a # zs)" and ne: "us \<noteq> []" for n p us a zs
  proof -
    obtain ws w where us: "us = ws @ [w]" using ne by (cases us rule: rev_cases) auto
    then have "linked n p (w # a # zs)" using lk by (simp add: linked_append [of _ _ ws w "a # zs"])
    with us show ?thesis by simp
  qed
  show "nxt s x \<in> set (h # xs)"
  proof -
    obtain us vs where e: "h # xs = us @ x # vs" using assms(2) by (meson split_list)
    have e2: "h # xs @ [h] = us @ x # vs @ [h]" using arg_cong [OF e, of "\<lambda>l. l @ [h]"] by simp
    have "linked (nxt s) (prv s) (us @ x # vs @ [h])" using l unfolding e2 .
    then have "nxt s x \<in> set (vs @ [h])" by (rule n) simp
    moreover have "set vs \<subseteq> set (h # xs)" unfolding e by auto
    ultimately show ?thesis by auto
  qed
  show "prv s x \<in> set (h # xs)"
  proof -
    have "x \<in> set (xs @ [h])" using assms(2) by auto
    then obtain us vs where e: "xs @ [h] = us @ x # vs" by (meson split_list)
    then have "linked (nxt s) (prv s) ((h # us) @ x # vs)" using l by simp
    then have "prv s x \<in> set (h # us)" by (rule p) simp
    moreover have "set us \<subseteq> set (xs @ [h])" unfolding e by auto
    ultimately show ?thesis by auto
  qed
qed

lemma dll_add_frame:
  assumes "dll s h xs" and "dll s k ys" and "set (h # xs) \<inter> set (k # ys) = {}"
    and "new \<notin> set (k # ys)"
  shows "dll (list_add new h s) k ys"
  using assms(2)
proof (rule dll_frame)
  fix x assume x: "x \<in> set (k # ys)"
  moreover have "nxt s h \<in> set (h # xs)" using dll_nodes(1) [OF assms(1), of h] by simp
  ultimately have "x \<noteq> h" "x \<noteq> nxt s h" "x \<noteq> new" using assms(3,4) by auto
  then show "nxt (list_add new h s) x = nxt s x \<and> prv (list_add new h s) x = prv s x"
    by (simp add: list_add_def Let_def)
qed

lemma dll_del_frame:
  assumes "dll s h xs" and "e \<in> set xs" and "dll s k ys" and "set (h # xs) \<inter> set (k # ys) = {}"
  shows "dll (list_del e s) k ys"
  using assms(3)
proof (rule dll_frame)
  fix x assume x: "x \<in> set (k # ys)"
  moreover have "nxt s e \<in> set (h # xs)" "prv s e \<in> set (h # xs)" "e \<in> set (h # xs)"
    using dll_nodes [OF assms(1), of e] assms(2) by simp_all
  ultimately have "x \<noteq> nxt s e" "x \<noteq> prv s e" "x \<noteq> e" using assms(4) by auto
  then show "nxt (list_del e s) x = nxt s x \<and> prv (list_del e s) x = prv s x"
    by (auto simp: list_del_def Let_def)
qed

lemma dll_init_frame: "dll s k ys \<Longrightarrow> h \<notin> set (k # ys) \<Longrightarrow> dll (list_init h s) k ys"
  by (erule dll_frame) (auto simp: list_init_def)

text \<open>The walk visits the nodes in order and always ends on a represented list.\<close>

lemma list_for_each_find_linked:
  "linked (nxt s) (prv s) (xs @ [h]) \<Longrightarrow> h \<notin> set xs \<Longrightarrow>
   list_for_each_find P s h (hd (xs @ [h])) = Some (List.find P xs)"
proof (induction xs)
  case Nil
  then show ?case by (subst list_for_each_find.simps) simp
next
  case (Cons x xs)
  have "nxt s x = hd (xs @ [h])" using Cons.prems(1) by (cases xs) auto
  moreover have "linked (nxt s) (prv s) (xs @ [h])" using Cons.prems(1) by (cases xs) auto
  ultimately show ?case using Cons by (subst list_for_each_find.simps) auto
qed

lemma dll_find:
  assumes "dll s h xs"
  shows "list_for_each_find P s h (nxt s h) = Some (List.find P xs)"
proof -
  have "nxt s h = hd (xs @ [h])" using dll_first [OF assms] by (cases xs) auto
  moreover have "linked (nxt s) (prv s) (xs @ [h])"
    using assms by (cases xs) (auto simp: dll_def)
  ultimately show ?thesis
    using list_for_each_find_linked [of s xs h P] assms by (simp add: dll_def)
qed

section \<open>The interface of a family of lists\<close>

text \<open>
  What a client that keeps several lists over one node space relies on. \<open>rep s h xs\<close>: in state
  \<open>s\<close> the list with head \<open>h\<close> has the nodes \<open>xs\<close>. A family of lists gives every head of \<open>H\<close> its
  nodes, no two lists sharing one.
\<close>

definition list_family ::
  "('s \<Rightarrow> 'n \<Rightarrow> 'n list \<Rightarrow> bool) \<Rightarrow> 's \<Rightarrow> 'n set \<Rightarrow> ('n \<Rightarrow> 'n list) \<Rightarrow> bool" where
  "list_family rep s H f \<longleftrightarrow>
     (\<forall>h\<in>H. rep s h (f h)) \<and>
     (\<forall>h\<in>H. \<forall>k\<in>H. h \<noteq> k \<longrightarrow> set (h # f h) \<inter> set (k # f k) = {})"

locale intrusive_lists =
  fixes rep :: "'s \<Rightarrow> 'n \<Rightarrow> 'n list \<Rightarrow> bool"
    and init :: "'n \<Rightarrow> 's \<Rightarrow> 's"
    and add :: "'n \<Rightarrow> 'n \<Rightarrow> 's \<Rightarrow> 's"
    and del :: "'n \<Rightarrow> 's \<Rightarrow> 's"
    and empty :: "'n \<Rightarrow> 's \<Rightarrow> bool"
    and first :: "'n \<Rightarrow> 's \<Rightarrow> 'n"
    and find :: "('n \<Rightarrow> bool) \<Rightarrow> 'n \<Rightarrow> 's \<Rightarrow> 'n option option"
  assumes rep_distinct: "rep s h xs \<Longrightarrow> distinct (h # xs)"
    and init_rep: "rep (init h s) h []"
    and init_frame: "rep s k ys \<Longrightarrow> h \<notin> set (k # ys) \<Longrightarrow> rep (init h s) k ys"
    and add_rep: "rep s h xs \<Longrightarrow> n \<notin> set (h # xs) \<Longrightarrow> rep (add n h s) h (n # xs)"
    and add_frame: "rep s h xs \<Longrightarrow> rep s k ys \<Longrightarrow> set (h # xs) \<inter> set (k # ys) = {} \<Longrightarrow>
      n \<notin> set (k # ys) \<Longrightarrow> rep (add n h s) k ys"
    and del_rep: "rep s h xs \<Longrightarrow> n \<in> set xs \<Longrightarrow> rep (del n s) h (remove1 n xs)"
    and del_frame: "rep s h xs \<Longrightarrow> n \<in> set xs \<Longrightarrow> rep s k ys \<Longrightarrow>
      set (h # xs) \<inter> set (k # ys) = {} \<Longrightarrow> rep (del n s) k ys"
    and empty_rep: "rep s h xs \<Longrightarrow> empty h s \<longleftrightarrow> xs = []"
    and first_rep: "rep s h (x # xs) \<Longrightarrow> first h s = x"
    and find_rep: "rep s h xs \<Longrightarrow> find P h s = Some (List.find P xs)"
begin

lemma family_rep: "list_family rep s H f \<Longrightarrow> h \<in> H \<Longrightarrow> rep s h (f h)"
  by (simp add: list_family_def)

lemma family_empty: "list_family rep s H f \<Longrightarrow> h \<in> H \<Longrightarrow> empty h s \<longleftrightarrow> f h = []"
  by (simp add: family_rep empty_rep)

lemma family_first: "list_family rep s H f \<Longrightarrow> h \<in> H \<Longrightarrow> f h = x # xs \<Longrightarrow> first h s = x"
  by (metis family_rep first_rep)

lemma family_find: "list_family rep s H f \<Longrightarrow> h \<in> H \<Longrightarrow> find P h s = Some (List.find P (f h))"
  by (simp add: family_rep find_rep)

lemma family_add:
  assumes fam: "list_family rep s H f" and h: "h \<in> H"
    and new: "\<And>k. k \<in> H \<Longrightarrow> n \<notin> set (k # f k)"
  shows "list_family rep (add n h s) H (f(h := n # f h))"
  unfolding list_family_def
proof (intro conjI ballI impI)
  fix k assume k: "k \<in> H"
  show "rep (add n h s) k ((f(h := n # f h)) k)"
  proof (cases "k = h")
    case True
    then show ?thesis using add_rep [OF family_rep [OF fam h] new [OF h]] by simp
  next
    case False
    moreover have "set (h # f h) \<inter> set (k # f k) = {}" using fam h k False unfolding list_family_def by blast
    ultimately show ?thesis
      using add_frame [OF family_rep [OF fam h] family_rep [OF fam k] _ new [OF k]] by simp
  qed
  fix l assume "l \<in> H" and "k \<noteq> l"
  then show "set (k # (f(h := n # f h)) k) \<inter> set (l # (f(h := n # f h)) l) = {}"
    using fam h k new [of k] new [of l] unfolding list_family_def fun_upd_def
    by (cases "k = h"; cases "l = h") force+
qed

lemma family_del:
  assumes fam: "list_family rep s H f" and h: "h \<in> H" and n: "n \<in> set (f h)"
  shows "list_family rep (del n s) H (f(h := remove1 n (f h)))"
  unfolding list_family_def
proof (intro conjI ballI impI)
  fix k assume k: "k \<in> H"
  show "rep (del n s) k ((f(h := remove1 n (f h))) k)"
  proof (cases "k = h")
    case True
    then show ?thesis using del_rep [OF family_rep [OF fam h] n] by simp
  next
    case False
    moreover have "set (h # f h) \<inter> set (k # f k) = {}" using fam h k False unfolding list_family_def by blast
    ultimately show ?thesis
      using del_frame [OF family_rep [OF fam h] n family_rep [OF fam k]] by simp
  qed
  fix l assume "l \<in> H" and "k \<noteq> l"
  then show "set (k # (f(h := remove1 n (f h))) k) \<inter> set (l # (f(h := remove1 n (f h))) l) = {}"
    using fam h k set_remove1_subset [of n "f h"] unfolding list_family_def fun_upd_def
    by (cases "k = h"; cases "l = h") force+
qed

lemma family_init:
  assumes fam: "list_family rep s H f" and new: "\<And>k. k \<in> H \<Longrightarrow> h \<notin> set (k # f k)"
  shows "list_family rep (init h s) (insert h H) (f(h := []))"
  unfolding list_family_def
proof (intro conjI ballI impI)
  fix k assume k: "k \<in> insert h H"
  show "rep (init h s) k ((f(h := [])) k)"
    using k fam new [of k] by (auto simp: list_family_def init_rep intro: init_frame)
  fix l assume "l \<in> insert h H" and "k \<noteq> l"
  then show "set (k # (f(h := [])) k) \<inter> set (l # (f(h := [])) l) = {}"
    using fam k new [of k] new [of l] by (auto simp: list_family_def)
qed

end

interpretation kl: intrusive_lists dll list_init list_add list_del list_empty "\<lambda>h s. nxt s h"
  "\<lambda>P h s. list_for_each_find P s h (nxt s h)"
proof
  show "dll s h (x # xs) \<Longrightarrow> nxt s h = x" for s h x xs by (simp add: dll_first)
  show "dll s h xs \<Longrightarrow> list_for_each_find P s h (nxt s h) = Some (List.find P xs)" for s h xs P
    by (rule dll_find)
qed (fact dll_distinct dll_init dll_init_frame dll_add dll_add_frame dll_del dll_del_frame dll_empty)+

end
