(* ===== verification/BuddyMath.thy ===== *)
theory BuddyMath
  imports Prelude
begin

text \<open>
  The arithmetic of buddy blocks: physical page frames as natural numbers, a block of an order as
  an interval of frames, the buddy of a block as the exclusive-or of one address bit, and the
  agreement between that address and the page-index form the allocator uses on release.
\<close>

definition pfn :: "u32 \<Rightarrow> nat" where
  "pfn a = unat a div 4096"

definition frames :: "nat \<Rightarrow> u32 \<Rightarrow> nat set" where
  "frames i a = {pfn a ..< pfn a + 2 ^ i}"

definition aligned :: "nat \<Rightarrow> u32 \<Rightarrow> bool" where
  "aligned i a \<longleftrightarrow> 2 ^ (i + 12) dvd unat a"

definition buddy_of :: "nat \<Rightarrow> u32 \<Rightarrow> u32" where
  "buddy_of i a = a XOR push_bit (i + 12) 1"

lemma xor_bit_clear:
  "\<not> bit (w::'a::len word) n \<Longrightarrow> w XOR push_bit n 1 = w + push_bit n 1"
  by (subst disjunctive_add) (auto simp: bit_simps intro!: bit_word_eqI)

lemma xor_bit_set:
  assumes "bit (w::'a::len word) n"
  shows "w XOR push_bit n 1 = w - push_bit n 1"
proof -
  let ?v = "w XOR push_bit n 1"
  have "n < LENGTH('a)" using assms by (rule bit_imp_le_length)
  then have "\<not> bit ?v n" using assms by (simp add: bit_simps)
  then have "?v XOR push_bit n 1 = ?v + push_bit n 1" by (rule xor_bit_clear)
  then have "w = ?v + push_bit n 1" by (simp add: xor.assoc)
  then show ?thesis by (metis add_diff_cancel_right')
qed

lemma bit_word_odd: "bit (w::'a::len word) n \<longleftrightarrow> odd (unat w div 2 ^ n)"
proof -
  have "bit w n \<longleftrightarrow> bit (unat w) n" by (simp add: bit_unsigned_iff)
  then show ?thesis by (simp only: bit_nat_def)
qed

lemma unat_push_bit_1: "n < 32 \<Longrightarrow> unat (push_bit n 1 :: u32) = 2 ^ n"
proof -
  assume n: "n < 32"
  have "push_bit n 1 = (of_nat (2 ^ n) :: u32)" by (simp add: push_bit_eq_mult)
  moreover have "(2::nat) ^ n < 2 ^ 32" using n by (rule power_strict_increasing) simp
  then have "unat (of_nat (2 ^ n) :: u32) = 2 ^ n" by (intro unat_of_nat_small) simp
  ultimately show ?thesis by simp
qed

lemma aligned_Suc: "aligned (Suc i) a \<longleftrightarrow> 2 * 2 ^ (i + 12) dvd unat a"
  unfolding aligned_def add_Suc power_Suc ..

lemma aligned_mono: "aligned j a \<Longrightarrow> i \<le> j \<Longrightarrow> aligned i a"
  unfolding aligned_def by (rule dvd_trans [OF le_imp_power_dvd]) auto

lemma aligned_frame_start: "aligned i a \<Longrightarrow> unat a = 4096 * pfn a"
proof -
  assume "aligned i a"
  moreover have "(4096::nat) dvd 2 ^ (i + 12)" by (simp add: power_add)
  ultimately have "4096 dvd unat a" unfolding aligned_def by (rule dvd_trans [rotated])
  then show ?thesis by (simp add: pfn_def)
qed

lemma aligned_pfn: "aligned i a \<Longrightarrow> 2 ^ i dvd pfn a"
proof -
  assume a: "aligned i a"
  then have "4096 * 2 ^ i dvd 4096 * pfn a"
    using aligned_frame_start [OF a] by (simp add: aligned_def power_add mult.commute)
  then show ?thesis by simp
qed

lemma pfn_inj: "aligned i a \<Longrightarrow> aligned j b \<Longrightarrow> pfn a = pfn b \<Longrightarrow> a = b"
  by (metis aligned_frame_start unsigned_word_eqI)

lemma aligned_room:
  assumes "aligned i a" and "i \<le> 20"
  shows "unat a + 2 ^ (i + 12) \<le> 2 ^ 32"
proof -
  obtain q where q: "unat a = 2 ^ (i + 12) * q" using assms(1) by (auto simp: aligned_def)
  have e: "(2::nat) ^ 32 = 2 ^ (i + 12) * 2 ^ (20 - i)" using assms(2) by (simp flip: power_add)
  have "unat a < 2 ^ LENGTH(32)" by (rule unsigned_less)
  then have "unat a < 2 ^ 32" by simp
  then have "q < 2 ^ (20 - i)" unfolding q e by simp
  then have "2 ^ (i + 12) * Suc q \<le> 2 ^ (i + 12) * 2 ^ (20 - i)" by (intro mult_le_mono2) simp
  then show ?thesis unfolding q e by (simp add: algebra_simps)
qed

text \<open>
  The buddy of a block: above it when the block starts a pair, below it otherwise.
\<close>

lemma buddy_cases:
  assumes a: "aligned i a" and i: "i \<le> 19"
  obtains (lower) "aligned (Suc i) a" and "unat (buddy_of i a) = unat a + 2 ^ (i + 12)"
    | (upper) "aligned (Suc i) (buddy_of i a)" and "unat a = unat (buddy_of i a) + 2 ^ (i + 12)"
proof -
  let ?p = "push_bit (i + 12) 1 :: u32"
  have p: "unat ?p = 2 ^ (i + 12)" using i by (intro unat_push_bit_1) simp
  obtain q where q: "unat a = 2 ^ (i + 12) * q" using a by (auto simp: aligned_def)
  have bit: "bit a (i + 12) \<longleftrightarrow> odd q" unfolding bit_word_odd q by simp
  show thesis
  proof (cases "odd q")
    case False
    then have al: "aligned (Suc i) a" unfolding aligned_Suc q by (auto elim!: evenE)
    have "unat a + 2 * 2 ^ (i + 12) \<le> 2 ^ 32" using aligned_room [OF al] i unfolding add_Suc power_Suc by simp
    moreover have "(0::nat) < 2 ^ (i + 12)" by simp
    ultimately have "unat a + 2 ^ (i + 12) < 2 ^ 32" by linarith
    then have "unat a + unat ?p < 2 ^ LENGTH(32)" unfolding p by simp
    then have "unat (a + ?p) = unat a + 2 ^ (i + 12)" unfolding p [symmetric] by (rule unat_add_no_wrap)
    moreover have "a XOR ?p = a + ?p" using False bit by (intro xor_bit_clear) simp
    ultimately have "unat (buddy_of i a) = unat a + 2 ^ (i + 12)" by (simp only: buddy_of_def)
    with al show thesis by (rule lower)
  next
    case True
    then obtain r where r: "q = Suc (2 * r)" by (metis oddE Suc_eq_plus1)
    have le: "?p \<le> a" unfolding word_le_nat_alt p q r by simp
    have "a XOR ?p = a - ?p" using True bit by (intro xor_bit_set) simp
    then have ub: "unat (buddy_of i a) = 2 ^ (i + 12) * (2 * r)"
      using unat_sub [OF le] by (simp only: buddy_of_def p q r) simp
    have "aligned (Suc i) (buddy_of i a)" unfolding aligned_Suc ub by simp
    moreover have "unat a = unat (buddy_of i a) + 2 ^ (i + 12)" unfolding ub q r by simp
    ultimately show thesis by (rule upper)
  qed
qed

lemma buddy_invol: "buddy_of i (buddy_of i a) = a"
  by (simp add: buddy_of_def xor.assoc)

lemma aligned_buddy: "aligned i a \<Longrightarrow> i \<le> 19 \<Longrightarrow> aligned i (buddy_of i a)"
proof -
  assume a: "aligned i a" and i: "i \<le> 19"
  from a i show ?thesis
  proof (cases rule: buddy_cases)
    case lower
    then show ?thesis using a by (simp add: aligned_def)
  next
    case upper
    from upper(1) show ?thesis by (rule aligned_mono) simp
  qed
qed

lemma buddy_above:
  assumes "aligned (Suc i) a" and "i \<le> 19"
  shows "unat (buddy_of i a) = unat a + 2 ^ (i + 12)"
proof -
  from assms(1) have "aligned i a" by (rule aligned_mono) simp
  from this assms(2) show ?thesis
  proof (cases rule: buddy_cases)
    case upper
    then have "2 * 2 ^ (i + 12) dvd (2::nat) ^ (i + 12)"
      using assms(1) unfolding aligned_Suc by (metis dvd_add_right_iff)
    then show ?thesis by (simp add: nat_dvd_not_less)
  qed
qed

text \<open>Frames of a block and of its two halves.\<close>

lemma frames_nonempty: "pfn a \<in> frames i a"
  by (simp add: frames_def)

lemma pfn_of_sum: "unat b = unat a + 2 ^ (i + 12) \<Longrightarrow> pfn b = pfn a + 2 ^ i"
  by (simp add: pfn_def power_add)

lemma frames_halves:
  assumes "aligned (Suc i) a" and "i \<le> 19"
  shows "frames (Suc i) a = frames i a \<union> frames i (buddy_of i a)"
    and "frames i a \<inter> frames i (buddy_of i a) = {}"
  using pfn_of_sum [OF buddy_above [OF assms]] by (auto simp: frames_def)

lemma frames_merge:
  assumes "aligned i a" and "i \<le> 19"
  shows "aligned (Suc i) (min a (buddy_of i a))"
    and "frames (Suc i) (min a (buddy_of i a)) = frames i a \<union> frames i (buddy_of i a)"
proof -
  have "aligned (Suc i) (min a (buddy_of i a)) \<and>
    frames (Suc i) (min a (buddy_of i a)) = frames i a \<union> frames i (buddy_of i a)"
    using assms
  proof (cases rule: buddy_cases)
    case lower
    then have "a \<le> buddy_of i a" by (simp add: word_le_nat_alt)
    with lower frames_halves(1) [OF lower(1) assms(2)] show ?thesis by (simp add: min_absorb1)
  next
    case upper
    then have "buddy_of i a \<le> a" by (simp add: word_le_nat_alt)
    with upper frames_halves(1) [OF upper(1) assms(2)] show ?thesis
      by (simp add: min_absorb2 buddy_invol Un_commute)
  qed
  then show "aligned (Suc i) (min a (buddy_of i a))"
    and "frames (Suc i) (min a (buddy_of i a)) = frames i a \<union> frames i (buddy_of i a)" by auto
qed

lemma buddy_neq: "i \<le> 19 \<Longrightarrow> buddy_of i a \<noteq> a"
proof
  assume i: "i \<le> 19" and "buddy_of i a = a"
  then have "push_bit (i + 12) (1::u32) = 0" unfolding buddy_of_def by (metis xor.assoc xor_self_eq xor.left_neutral)
  moreover have "unat (push_bit (i + 12) 1 :: u32) = 2 ^ (i + 12)" using i by (intro unat_push_bit_1) simp
  ultimately show False using i by simp
qed

text \<open>
  Release computes the buddy from the page index relative to the base address. When the base is
  aligned to the largest block (order 11) this is the same block as the exclusive-or on the
  address that the splitting loop uses.
\<close>

lemma page_index:
  assumes "aligned i a" and "aligned 11 base" and "base \<le> a"
  shows "unat ((a - base) div 4096) = pfn a - pfn base" and "pfn base \<le> pfn a"
    and "a = base + (a - base) div 4096 * 4096"
proof -
  have sub: "unat (a - base) = 4096 * (pfn a - pfn base)"
    using assms(3) aligned_frame_start [OF assms(1)] aligned_frame_start [OF assms(2)]
    by (simp add: unat_sub diff_mult_distrib2)
  then show u: "unat ((a - base) div 4096) = pfn a - pfn base" by (simp add: unat_div)
  show "pfn base \<le> pfn a" using assms(3) by (simp add: pfn_def word_le_nat_alt div_le_mono)
  have "unat (a - base) < 2 ^ LENGTH(32)" by (rule unsigned_less)
  then have "unat ((a - base) div 4096) * unat (4096::u32) < 2 ^ LENGTH(32)"
    unfolding u unfolding sub by (simp add: mult.commute)
  then have "unat ((a - base) div 4096 * 4096) = unat (a - base)"
    unfolding sub by (subst unat_mult_no_wrap) (simp_all add: u)
  then have "(a - base) div 4096 * 4096 = a - base" by (rule unsigned_word_eqI)
  then show "a = base + (a - base) div 4096 * 4096" by simp
qed

lemma buddy_index_agrees:
  assumes "aligned i a" and "aligned 11 base" and "base \<le> a" and "i \<le> 10"
  shows "base + ((a - base) div 4096 XOR push_bit i 1) * 4096 = buddy_of i a"
proof -
  let ?idx = "(a - base) div 4096" and ?d = "pfn a - pfn base"
  note idx = page_index [OF assms(1-3)]
  obtain B where B: "pfn base = 2 ^ 11 * B" using aligned_pfn [OF assms(2)] by auto
  have e: "(2::nat) ^ 11 = 2 ^ i * (2 * 2 ^ (10 - i))" using assms(4) by (simp flip: power_add power_Suc)
  have "unat a div 2 ^ (i + 12) = pfn a div 2 ^ i"
    unfolding pfn_def by (simp add: power_add mult.commute flip: div_mult2_eq)
  also have "pfn a = 2 ^ i * (2 * 2 ^ (10 - i) * B) + ?d"
  proof -
    have "pfn base = 2 ^ i * (2 * 2 ^ (10 - i) * B)" unfolding B e by (simp only: mult.assoc)
    then show ?thesis using idx(2) by linarith
  qed
  also have "(2 ^ i * (2 * 2 ^ (10 - i) * B) + ?d) div 2 ^ i = 2 * 2 ^ (10 - i) * B + ?d div 2 ^ i"
    by simp
  finally have bits: "bit a (i + 12) \<longleftrightarrow> bit ?idx i"
    unfolding bit_word_odd idx(1) by (simp add: mult.assoc)
  have shift: "push_bit i 1 * 4096 = (push_bit (i + 12) 1 :: u32)"
    by (simp add: push_bit_eq_mult power_add)
  show ?thesis
  proof (cases "bit ?idx i")
    case True
    then have "base + (?idx XOR push_bit i 1) * 4096 = base + ?idx * 4096 - push_bit i 1 * 4096"
      unfolding xor_bit_set [OF True] by (simp add: algebra_simps)
    also have "\<dots> = a - push_bit (i + 12) 1" by (simp only: shift idx(3) [symmetric])
    also have "\<dots> = a XOR push_bit (i + 12) 1" using True bits by (intro xor_bit_set [symmetric]) simp
    finally show ?thesis unfolding buddy_of_def .
  next
    case False
    then have "base + (?idx XOR push_bit i 1) * 4096 = base + ?idx * 4096 + push_bit i 1 * 4096"
      unfolding xor_bit_clear [OF False] by (simp add: algebra_simps)
    also have "\<dots> = a + push_bit (i + 12) 1" by (simp only: shift idx(3) [symmetric])
    also have "\<dots> = a XOR push_bit (i + 12) 1" using False bits by (intro xor_bit_clear [symmetric]) simp
    finally show ?thesis unfolding buddy_of_def .
  qed
qed

lemma page_count_back:
  assumes "\<And>n. 20 \<le> n \<Longrightarrow> \<not> bit (x::u32) n"
  shows "x * 4096 div 4096 = x"
proof -
  have "x * 4096 = push_bit 12 x" by (simp add: push_bit_eq_mult)
  moreover have "(push_bit 12 x) div 4096 = drop_bit 12 (push_bit 12 x)" by (simp add: drop_bit_eq_div)
  moreover have "drop_bit 12 (push_bit 12 x) = x"
    by (rule bit_word_eqI) (use assms in \<open>auto simp: bit_simps\<close>, (meson linorder_not_le)?)
  ultimately show ?thesis by simp
qed

lemma buddy_index:
  assumes "aligned i a" and "aligned 11 base" and "base \<le> a" and "i \<le> 10"
  shows "(buddy_of i a - base) div 4096 = (a - base) div 4096 XOR push_bit i 1"
proof -
  let ?x = "(a - base) div 4096 XOR push_bit i 1"
  have "(a - base) div 4096 = drop_bit 12 (a - base)" by (simp add: drop_bit_eq_div)
  then have "\<not> bit ?x n" if "20 \<le> n" for n
    using that assms(4) bit_imp_le_length [of "a - base" "12 + n"] by (auto simp: bit_simps)
  then have "?x * 4096 div 4096 = ?x" by (rule page_count_back)
  moreover have "buddy_of i a - base = ?x * 4096"
    unfolding buddy_index_agrees [OF assms, symmetric] by simp
  ultimately show ?thesis by simp
qed

end
