(* ===== verification/Blocks.thy ===== *)
theory Blocks
  imports BuddyMath
begin

text \<open>
  The abstract specification of the buddy system: a set of free blocks (order and address). A
  good set of blocks is aligned, above the base address, pairwise disjoint, and holds no two
  buddies below the largest order. What a client sees is the set of free frames; a good set of
  blocks is determined by its frames, so the allocator has one representation of each.
\<close>

type_synonym block = "nat \<times> u32"

definition bframes :: "block \<Rightarrow> nat set" where
  "bframes x = frames (fst x) (snd x)"

definition free_frames :: "block set \<Rightarrow> nat set" where
  "free_frames B = (\<Union>x\<in>B. bframes x)"

definition good_block :: "u32 \<Rightarrow> block \<Rightarrow> bool" where
  "good_block base x \<longleftrightarrow> fst x \<le> 11 \<and> aligned (fst x) (snd x) \<and> base \<le> snd x"

definition good_blocks :: "u32 \<Rightarrow> block set \<Rightarrow> bool" where
  "good_blocks base B \<longleftrightarrow>
     (\<forall>x\<in>B. good_block base x) \<and>
     (\<forall>x\<in>B. \<forall>y\<in>B. x \<noteq> y \<longrightarrow> bframes x \<inter> bframes y = {}) \<and>
     (\<forall>(i, a)\<in>B. i < 11 \<longrightarrow> (i, buddy_of i a) \<notin> B)"

text \<open>A block that is handed out or on its way between lists: good, and none of its frames free.\<close>

definition held :: "u32 \<Rightarrow> block set \<Rightarrow> block \<Rightarrow> bool" where
  "held base B x \<longleftrightarrow> good_block base x \<and> bframes x \<inter> free_frames B = {}"

lemma bframes_pair [simp]: "bframes (i, a) = frames i a"
  by (simp add: bframes_def)

lemma bframes_start: "pfn (snd x) \<in> bframes x"
  by (simp add: bframes_def frames_nonempty)

lemma held_notin: "held base B x \<Longrightarrow> x \<notin> B"
  using bframes_start [of x] by (auto simp: held_def free_frames_def)

lemma free_framesI: "x \<in> B \<Longrightarrow> f \<in> bframes x \<Longrightarrow> f \<in> free_frames B"
  by (auto simp: free_frames_def)

lemma held_start_notin: "held base B (i, a) \<Longrightarrow> (j, a) \<notin> B"
proof
  assume "held base B (i, a)" and "(j, a) \<in> B"
  then show False
    using free_framesI [of "(j, a)" B "pfn a"] frames_nonempty [of a i] frames_nonempty [of a j]
    by (auto simp: held_def)
qed

lemma free_frames_insert [simp]: "free_frames (insert x B) = bframes x \<union> free_frames B"
  by (simp add: free_frames_def)

lemma good_blocks_good: "good_blocks base B \<Longrightarrow> x \<in> B \<Longrightarrow> good_block base x"
  by (simp add: good_blocks_def)

lemma good_blocks_disjoint:
  "good_blocks base B \<Longrightarrow> x \<in> B \<Longrightarrow> y \<in> B \<Longrightarrow> x \<noteq> y \<Longrightarrow> bframes x \<inter> bframes y = {}"
  by (simp add: good_blocks_def)

lemma good_blocks_no_buddy: "good_blocks base B \<Longrightarrow> (i, a) \<in> B \<Longrightarrow> i < 11 \<Longrightarrow> (i, buddy_of i a) \<notin> B"
  by (auto simp: good_blocks_def)

lemma good_blocks_take:
  assumes "good_blocks base B" and "x \<in> B"
  shows "good_blocks base (B - {x})" and "held base (B - {x}) x"
    and "free_frames (B - {x}) = free_frames B - bframes x"
proof -
  have disj: "bframes x \<inter> free_frames (B - {x}) = {}"
    using good_blocks_disjoint [OF assms(1,2)] by (auto simp: free_frames_def)
  show "good_blocks base (B - {x})" using assms by (fastforce simp: good_blocks_def)
  show "held base (B - {x}) x" using assms disj by (simp add: held_def good_blocks_good)
  have "free_frames B = bframes x \<union> free_frames (B - {x})"
    using assms(2) by (metis free_frames_insert insert_Diff)
  then show "free_frames (B - {x}) = free_frames B - bframes x" using disj by blast
qed

lemma good_blocks_put:
  assumes "good_blocks base B" and "held base B (i, a)" and "i < 11 \<Longrightarrow> (i, buddy_of i a) \<notin> B"
  shows "good_blocks base (insert (i, a) B)"
proof -
  have disj: "bframes y \<inter> frames i a = {}" if "y \<in> B" for y
    using assms(2) that by (auto simp: held_def free_frames_def)
  have nob: "(k, buddy_of k c) \<notin> insert (i, a) B" if "(k, c) \<in> insert (i, a) B" "k < 11" for k c
  proof (cases "(k, c) \<in> B")
    case True
    then have "(k, buddy_of k c) \<notin> B" using good_blocks_no_buddy [OF assms(1)] that(2) by simp
    moreover have "(k, buddy_of k c) \<noteq> (i, a)" using True assms(3) that(2) buddy_invol [of k c] by auto
    ultimately show ?thesis by simp
  next
    case False
    then have "k = i" "c = a" using that(1) by auto
    then show ?thesis using assms(3) that(2) buddy_neq [of i a] by simp
  qed
  show ?thesis
    unfolding good_blocks_def
  proof (intro conjI)
    show "\<forall>x\<in>insert (i, a) B. good_block base x"
      using assms(1,2) by (simp add: good_blocks_def held_def)
    show "\<forall>x\<in>insert (i, a) B. \<forall>y\<in>insert (i, a) B. x \<noteq> y \<longrightarrow> bframes x \<inter> bframes y = {}"
      using good_blocks_disjoint [OF assms(1)] disj by (simp add: Int_commute)
    show "\<forall>(k, c)\<in>insert (i, a) B. k < 11 \<longrightarrow> (k, buddy_of k c) \<notin> insert (i, a) B"
    proof
      fix x assume x: "x \<in> insert (i, a) B"
      obtain k c where kc: "x = (k, c)" by (cases x)
      from x have "k < 11 \<longrightarrow> (k, buddy_of k c) \<notin> insert (i, a) B" unfolding kc by (intro impI nob)
      then show "case x of (k, c) \<Rightarrow> k < 11 \<longrightarrow> (k, buddy_of k c) \<notin> insert (i, a) B"
        by (simp only: kc prod.case)
    qed
  qed
qed

text \<open>Splitting a held block: the upper half can be put down, the lower half stays held.\<close>

lemma held_split:
  assumes h: "held base B (Suc i, a)" and good: "good_blocks base B"
  shows "held base B (i, buddy_of i a)" and "(i, buddy_of i (buddy_of i a)) \<notin> B"
    and "held base (insert (i, buddy_of i a) B) (i, a)"
    and "frames (Suc i) a = frames i a \<union> frames i (buddy_of i a)"
    and "good_blocks base (insert (i, buddy_of i a) B)"
proof -
  have al: "aligned (Suc i) a" and i: "i \<le> 19" "Suc i \<le> 11" and base: "base \<le> a"
    using h by (auto simp: held_def good_block_def)
  note halves = frames_halves [OF al i(1)]
  show halves1: "frames (Suc i) a = frames i a \<union> frames i (buddy_of i a)" by (rule halves(1))
  have up: "a \<le> buddy_of i a" using buddy_above [OF al i(1)] by (simp add: word_le_nat_alt)
  have al': "aligned i a" using al by (rule aligned_mono) simp
  then show hb: "held base B (i, buddy_of i a)"
    using h halves1 i base up aligned_buddy [OF al' i(1)] by (auto simp: held_def good_block_def)
  have ha: "held base B (i, a)" using h halves1 i al' base by (auto simp: held_def good_block_def)
  then show nb: "(i, buddy_of i (buddy_of i a)) \<notin> B" unfolding buddy_invol by (rule held_notin)
  show "held base (insert (i, buddy_of i a) B) (i, a)"
    using ha halves(2) by (auto simp: held_def)
  show "good_blocks base (insert (i, buddy_of i a) B)"
    using good_blocks_put [OF good hb] nb by blast
qed

text \<open>Merging a held block with its free buddy gives a held block of the next order.\<close>

lemma held_merge:
  assumes h: "held base B (i, a)" and good: "good_blocks base B" and b: "(i, buddy_of i a) \<in> B"
    and i: "i < 11"
  shows "held base (B - {(i, buddy_of i a)}) (Suc i, min a (buddy_of i a))"
    and "frames (Suc i) (min a (buddy_of i a)) \<union> free_frames (B - {(i, buddy_of i a)}) =
      frames i a \<union> free_frames B"
proof -
  let ?b = "(i, buddy_of i a)"
  have al: "aligned i a" and base: "base \<le> a" using h by (auto simp: held_def good_block_def)
  have i': "i \<le> 19" using i by simp
  note m = frames_merge [OF al i'] and t = good_blocks_take [OF good b]
  have bb: "base \<le> buddy_of i a" using good_blocks_good [OF good b] by (simp add: good_block_def)
  have "frames i a \<inter> free_frames B = {}" using h by (simp add: held_def)
  then have "frames (Suc i) (min a (buddy_of i a)) \<inter> free_frames (B - {?b}) = {}"
    unfolding m(2) t(3) by auto
  then show "held base (B - {?b}) (Suc i, min a (buddy_of i a))"
    using m(1) i base bb by (simp add: held_def good_block_def min_def)
  have "frames i (buddy_of i a) \<subseteq> free_frames B" using b by (auto simp: free_frames_def)
  then show "frames (Suc i) (min a (buddy_of i a)) \<union> free_frames (B - {?b}) = frames i a \<union> free_frames B"
    unfolding m(2) t(3) by auto
qed

section \<open>The free frames determine the blocks\<close>

lemma frames_nested:
  assumes "aligned i a" and "aligned j b" and "i \<le> j" and "frames i a \<inter> frames j b \<noteq> {}"
  shows "frames i a \<subseteq> frames j b"
proof -
  obtain x where x: "pfn a = 2 ^ i * x" using aligned_pfn [OF assms(1)] by auto
  obtain y where y: "pfn b = 2 ^ j * y" using aligned_pfn [OF assms(2)] by auto
  define k where "k = (2::nat) ^ (j - i)"
  have j: "(2::nat) ^ j = 2 ^ i * k" using assms(3) by (simp add: k_def flip: power_add)
  obtain f where f: "2 ^ i * x \<le> f" "f < 2 ^ i * Suc x" "2 ^ i * (k * y) \<le> f" "f < 2 ^ i * (k * Suc y)"
    using assms(4) by (fastforce simp: frames_def x y j algebra_simps)
  have "2 ^ i * (k * y) < 2 ^ i * Suc x" "2 ^ i * x < 2 ^ i * (k * Suc y)" using f by linarith+
  then have "k * y < Suc x" "x < k * Suc y" by (simp_all only: mult_less_cancel1)
  then have "2 ^ i * (k * y) \<le> 2 ^ i * x" "2 ^ i * Suc x \<le> 2 ^ i * (k * Suc y)"
    by (intro mult_le_mono2; simp)+
  then show ?thesis by (auto simp: frames_def x y j algebra_simps)
qed

lemma frames_same:
  assumes "aligned i a" and "aligned i b" and "frames i a \<inter> frames i b \<noteq> {}"
  shows "a = b"
proof -
  have "frames i a = frames i b"
    using frames_nested [OF assms(1,2)] frames_nested [OF assms(2,1)] assms(3) by auto
  then have "pfn a = pfn b"
    using frames_nonempty [of a i] frames_nonempty [of b i] by (auto simp: frames_def)
  then show ?thesis using pfn_inj assms(1,2) by blast
qed

lemma covered_by_one:
  assumes good: "good_blocks base B"
  shows "aligned j b \<Longrightarrow> j \<le> 11 \<Longrightarrow> frames j b \<subseteq> free_frames B \<Longrightarrow>
    \<exists>(k, c)\<in>B. j \<le> k \<and> frames j b \<subseteq> frames k c"
proof (induction j arbitrary: b)
  case 0
  then obtain k c where kc: "(k, c) \<in> B" "pfn b \<in> frames k c"
    by (auto simp: free_frames_def frames_def)
  then have "frames 0 b \<subseteq> frames k c" by (auto simp: frames_def)
  with kc show ?case by auto
next
  case (Suc j)
  let ?b' = "buddy_of j b"
  have al: "aligned j b" using Suc.prems(1) by (rule aligned_mono) simp
  have j: "j \<le> 19" "j < 11" using Suc.prems(2) by auto
  note halves = frames_halves [OF Suc.prems(1) j(1)]
  have al': "aligned j ?b'" using al j(1) by (rule aligned_buddy)
  obtain k c where kc: "(k, c) \<in> B" "j \<le> k" "frames j b \<subseteq> frames k c"
    using Suc.IH [OF al] Suc.prems halves(1) by auto
  obtain k' c' where kc': "(k', c') \<in> B" "j \<le> k'" "frames j ?b' \<subseteq> frames k' c'"
    using Suc.IH [OF al'] Suc.prems halves(1) by auto
  have alc: "aligned k c" "aligned k' c'"
    using good_blocks_good [OF good kc(1)] good_blocks_good [OF good kc'(1)] by (auto simp: good_block_def)
  have big: "frames (Suc j) b \<subseteq> frames l d"
    if "aligned l d" "Suc j \<le> l" "frames (Suc j) b \<inter> frames l d \<noteq> {}" for l d
    using Suc.prems(1) that by (rule frames_nested)
  show ?case
  proof (cases "Suc j \<le> k \<or> Suc j \<le> k'")
    case True
    have "frames (Suc j) b \<inter> frames k c \<noteq> {}" "frames (Suc j) b \<inter> frames k' c' \<noteq> {}"
      using kc(3) kc'(3) halves(1) frames_nonempty [of b j] frames_nonempty [of ?b' j] by auto
    with True kc kc' alc big show ?thesis by (metis (no_types, lifting) case_prodI)
  next
    case False
    then have "k = j" "k' = j" using kc kc' by auto
    then have "c = b" "c' = ?b'"
      using frames_same [OF alc(1), of b] frames_same [OF alc(2), of ?b'] al al' kc(3) kc'(3)
        frames_nonempty [of b j] frames_nonempty [of ?b' j] by auto
    then have "(j, b) \<in> B" "(j, ?b') \<in> B" using kc(1) kc'(1) \<open>k = j\<close> \<open>k' = j\<close> by auto
    then show ?thesis using good_blocks_no_buddy [OF good] j(2) by blast
  qed
qed

lemma good_blocks_canonical_sub:
  assumes "good_blocks base B" and "good_blocks base C" and "free_frames B = free_frames C"
  shows "B \<subseteq> C"
proof (rule subrelI)
  fix i a assume ia: "(i, a) \<in> B"
  have g: "aligned i a" "i \<le> 11" using good_blocks_good [OF assms(1) ia] by (auto simp: good_block_def)
  have "frames i a \<subseteq> free_frames C" using ia assms(3) by (force simp: free_frames_def)
  then obtain k c where kc: "(k, c) \<in> C" "i \<le> k" "frames i a \<subseteq> frames k c"
    using covered_by_one [OF assms(2) g] by auto
  have gk: "aligned k c" "k \<le> 11" using good_blocks_good [OF assms(2) kc(1)] by (auto simp: good_block_def)
  have "frames k c \<subseteq> free_frames B" using kc(1) assms(3) by (force simp: free_frames_def)
  then obtain l d where ld: "(l, d) \<in> B" "k \<le> l" "frames k c \<subseteq> frames l d"
    using covered_by_one [OF assms(1) gk] by auto
  have "(l, d) = (i, a)"
    using good_blocks_disjoint [OF assms(1) ld(1) ia] kc(3) ld(3) frames_nonempty [of a i] by auto
  then have "k = i" using kc(2) ld(2) by simp
  moreover from this have "c = a"
    using frames_same [OF gk(1), of a] g(1) kc(3) frames_nonempty [of a i] by auto
  ultimately show "(i, a) \<in> C" using kc(1) by simp
qed

lemma good_blocks_canonical:
  "good_blocks base B \<Longrightarrow> good_blocks base C \<Longrightarrow> free_frames B = free_frames C \<Longrightarrow> B = C"
  using good_blocks_canonical_sub [of base B C] good_blocks_canonical_sub [of base C B] by auto

end
