(* ===== verification/Pmm.thy ===== *)
theory Pmm
  imports Klist Blocks
begin

text \<open>
  The buddy page allocator of \<open>kernel/mm/pmm.h\<close> and \<open>kernel/mm/pmm.c\<close>. The record
  \<open>buddy_system\<close> holds the fields of the C structure; the \<open>struct page\<close> at the start of each
  free block is split into its list node (in \<open>blinks\<close>) and its \<open>order\<close> member (\<open>pg_order\<close>), the
  bitmap is its bytes by index. Orders are natural numbers: they index the array
  \<open>free_area[MAX_ORDER + 1]\<close> and stay between 0 and 12 after the guard at the top of each
  operation; addresses, page indices and counts are 32-bit words. Log output is left out.
\<close>

section \<open>State\<close>

definition MAX_ORDER :: nat where
  [simp]: "MAX_ORDER = 11"

record buddy_system =
  bd_lock :: u32
  total_pages :: u32
  managed_pages :: u32
  base_addr :: u32
  nr_free :: "nat \<Rightarrow> u32"
  blinks :: links
  pg_order :: "u32 \<Rightarrow> u32"
  bitmap_addr :: u32
  bitmap :: "u32 \<Rightarrow> u8"

text \<open>The zero-initialised global \<open>buddy_sys\<close> of a kernel that has just been loaded.\<close>

definition buddy_bss :: buddy_system where
  "buddy_bss = \<lparr>bd_lock = 0, total_pages = 0, managed_pages = 0, base_addr = 0, nr_free = (\<lambda>_. 0),
     blinks = \<lparr>nxt = (\<lambda>_. Lnull), prv = (\<lambda>_. Lnull)\<rparr>, pg_order = (\<lambda>_. 0), bitmap_addr = 0,
     bitmap = (\<lambda>_. 0)\<rparr>"

definition bitmap_set :: "u32 \<Rightarrow> (u32 \<Rightarrow> u8) \<Rightarrow> (u32 \<Rightarrow> u8)" where
  "bitmap_set i bm = bm(i div 8 := bm (i div 8) OR push_bit (unat (i mod 8)) 1)"

definition bitmap_clear :: "u32 \<Rightarrow> (u32 \<Rightarrow> u8) \<Rightarrow> (u32 \<Rightarrow> u8)" where
  "bitmap_clear i bm = bm(i div 8 := bm (i div 8) AND NOT (push_bit (unat (i mod 8)) 1))"

definition mark_pages :: "u32 \<Rightarrow> nat \<Rightarrow> (u32 \<Rightarrow> u8) \<Rightarrow> (u32 \<Rightarrow> u8)" where
  "mark_pages page_idx n bm = fold (\<lambda>i. bitmap_set (page_idx + of_nat i)) [0..<n] bm"

definition unmark_pages :: "u32 \<Rightarrow> nat \<Rightarrow> (u32 \<Rightarrow> u8) \<Rightarrow> (u32 \<Rightarrow> u8)" where
  "unmark_pages page_idx n bm = fold (\<lambda>i. bitmap_clear (page_idx + of_nat i)) [0..<n] bm"

text \<open>Put a block on the free list of an order, or take it off (three statements each).\<close>

definition push_block :: "u32 \<Rightarrow> nat \<Rightarrow> buddy_system \<Rightarrow> buddy_system" where
  "push_block a i s =
     (let s = s\<lparr>pg_order := (pg_order s)(a := of_nat i)\<rparr>;
          s = s\<lparr>blinks := list_add (Lpage a) (Lhead i) (blinks s)\<rparr>
      in s\<lparr>nr_free := (nr_free s)(i := nr_free s i + 1)\<rparr>)"

definition drop_block :: "lnode \<Rightarrow> nat \<Rightarrow> buddy_system \<Rightarrow> buddy_system" where
  "drop_block e i s =
     (let s = s\<lparr>blinks := list_del e (blinks s)\<rparr>
      in s\<lparr>nr_free := (nr_free s)(i := nr_free s i - 1)\<rparr>)"

section \<open>Statistics\<close>

text \<open>
  The numbers \<open>pmm_stats\<close> prints: used pages, free pages and the usage in percent. The last is
  an unchecked division, which traps when no page is managed.
\<close>

definition total_free_pages :: "buddy_system \<Rightarrow> u32" where
  "total_free_pages s = fold (\<lambda>i t. t + nr_free s i * push_bit i 1) [0..<Suc MAX_ORDER] 0"

definition pmm_stats :: "buddy_system \<Rightarrow> ((u32 \<times> u32 \<times> u32) \<times> buddy_system) option" where
  "pmm_stats s = do {
     l \<leftarrow> spinlock_acquire (bd_lock s);
     let s = s\<lparr>bd_lock := l\<rparr>;
     let free_pages = total_free_pages s;
     let used_pages = managed_pages s - free_pages;
     if managed_pages s = 0 then None
     else Some ((used_pages, free_pages, (used_pages * 100) div managed_pages s),
            s\<lparr>bd_lock := spinlock_release (bd_lock s)\<rparr>)
   }"

section \<open>Initialisation\<close>

function pmm_init_blocks :: "u32 \<Rightarrow> u32 \<Rightarrow> u32 \<Rightarrow> buddy_system \<Rightarrow> buddy_system" where
  "pmm_init_blocks memory_start current_addr remaining_pages s =
     (let max_order_pages = push_bit MAX_ORDER 1 in
      if remaining_pages \<ge> max_order_pages then
        let s = push_block current_addr MAX_ORDER s;
            page_idx = (current_addr - memory_start) div PAGE_SIZE;
            s = s\<lparr>bitmap := mark_pages page_idx (unat max_order_pages) (bitmap s)\<rparr>
        in pmm_init_blocks memory_start (current_addr + max_order_pages * PAGE_SIZE)
             (remaining_pages - max_order_pages) s
      else s)"
  by pat_completeness auto
termination
  by (relation "measure (\<lambda>(_, _, r, _). unat r)")
    (auto simp: unat_sub word_le_nat_alt word_less_nat_alt)

declare pmm_init_blocks.simps [simp del]

definition init_free_areas :: "buddy_system \<Rightarrow> buddy_system" where
  "init_free_areas s =
     fold (\<lambda>i s. s\<lparr>blinks := list_init (Lhead i) (blinks s), nr_free := (nr_free s)(i := 0)\<rparr>)
       [0..<Suc MAX_ORDER] s"

definition first_block_addr :: "u32 \<Rightarrow> u32 \<Rightarrow> u32" where
  "first_block_addr memory_start bitmap_size =
     (let block_bytes = push_bit MAX_ORDER 1 * PAGE_SIZE
      in (memory_start + bitmap_size + (block_bytes - 1)) AND NOT (block_bytes - 1))"

definition pmm_init :: "u32 \<Rightarrow> u32 \<Rightarrow> buddy_system \<Rightarrow> buddy_system option" where
  "pmm_init memory_start memory_end s =
     (let total_memory = memory_end - memory_start;
          s = s\<lparr>total_pages := total_memory div PAGE_SIZE\<rparr>;
          s = s\<lparr>managed_pages := total_pages s\<rparr>;
          s = s\<lparr>base_addr := memory_start\<rparr>;
          s = s\<lparr>bd_lock := spinlock_init (bd_lock s)\<rparr>;
          s = init_free_areas s;
          bitmap_size = (total_pages s + 7) div 8;
          s = s\<lparr>bitmap_addr := memory_start\<rparr>;
          s = s\<lparr>bitmap := (\<lambda>i. if i < bitmap_size then 0 else bitmap s i)\<rparr>;
          s = pmm_init_blocks memory_start (first_block_addr memory_start bitmap_size)
                (total_pages s) s
      in map_option snd (pmm_stats s))"

section \<open>Allocation\<close>

function find_free_order :: "nat \<Rightarrow> links \<Rightarrow> nat" where
  "find_free_order current_order s =
     (if current_order \<le> MAX_ORDER then
        if \<not> list_empty (Lhead current_order) s then current_order
        else find_free_order (Suc current_order) s
      else current_order)"
  by pat_completeness auto
termination
  by (relation "measure (\<lambda>(i, _). Suc MAX_ORDER - i)") auto

declare find_free_order.simps [simp del]

text \<open>
  The splitting loop \<open>while (current_order > order)\<close>: the upper half of the block goes to the
  free list one order down.
\<close>

definition split_step :: "u32 \<Rightarrow> nat \<Rightarrow> buddy_system \<Rightarrow> buddy_system" where
  "split_step page_addr current_order s =
     (let buddy_addr = page_addr XOR push_bit (current_order + 12) 1;
          s = push_block buddy_addr current_order s;
          buddy_idx = (buddy_addr - base_addr s) div PAGE_SIZE
      in s\<lparr>bitmap := bitmap_set buddy_idx (bitmap s)\<rparr>)"

fun split_block :: "nat \<Rightarrow> u32 \<Rightarrow> nat \<Rightarrow> buddy_system \<Rightarrow> buddy_system" where
  "split_block order page_addr 0 s = s"
| "split_block order page_addr (Suc current_order) s =
     (if Suc current_order > order
      then split_block order page_addr current_order (split_step page_addr current_order s)
      else s)"

definition pmm_alloc_pages :: "u32 \<Rightarrow> buddy_system \<Rightarrow> (u32 \<times> buddy_system) option" where
  "pmm_alloc_pages order s =
     (if order > of_nat MAX_ORDER then Some (0, s)
      else do {
        l \<leftarrow> spinlock_acquire (bd_lock s);
        let s = s\<lparr>bd_lock := l\<rparr>;
        let current_order = find_free_order (unat order) (blinks s);
        if current_order > MAX_ORDER then Some (0, s\<lparr>bd_lock := spinlock_release (bd_lock s)\<rparr>)
        else
          let entry = nxt (blinks s) (Lhead current_order);
              s = drop_block entry current_order s
          in case entry of
               Lpage page_addr \<Rightarrow>
                 let s = split_block (unat order) page_addr current_order s;
                     s = s\<lparr>pg_order := (pg_order s)(page_addr := order)\<rparr>;
                     page_idx = (page_addr - base_addr s) div PAGE_SIZE;
                     pages_to_alloc = 2 ^ unat order;
                     s = s\<lparr>bitmap := mark_pages page_idx pages_to_alloc (bitmap s)\<rparr>
                 in Some (page_addr, s\<lparr>bd_lock := spinlock_release (bd_lock s)\<rparr>)
             | _ \<Rightarrow> None
      })"

section \<open>Release\<close>

definition find_buddy_pfn :: "u32 \<Rightarrow> nat \<Rightarrow> u32" where
  "find_buddy_pfn page_idx order = page_idx XOR push_bit order 1"

text \<open>
  The merging loop. \<open>None\<close>: the walk over a free list does not end. The result is the merged
  block's order and address, and the state with the merged buddies off their lists.
\<close>

function merge_buddies ::
  "nat \<Rightarrow> u32 \<Rightarrow> u32 \<Rightarrow> buddy_system \<Rightarrow> (nat \<times> u32 \<times> buddy_system) option" where
  "merge_buddies current_order page_idx current_addr s =
     (if current_order < MAX_ORDER then
        let buddy_idx = find_buddy_pfn page_idx current_order;
            buddy_addr = base_addr s + buddy_idx * PAGE_SIZE
        in case list_for_each_find (\<lambda>pos. pos = Lpage buddy_addr) (blinks s)
                  (Lhead current_order) (nxt (blinks s) (Lhead current_order)) of
             None \<Rightarrow> None
           | Some None \<Rightarrow> Some (current_order, current_addr, s)
           | Some (Some pos) \<Rightarrow>
               let s = drop_block pos current_order s in
               if current_addr > buddy_addr
               then merge_buddies (Suc current_order) buddy_idx buddy_addr s
               else merge_buddies (Suc current_order) page_idx current_addr s
      else Some (current_order, current_addr, s))"
  by pat_completeness auto
termination
  by (relation "measure (\<lambda>(i, _). MAX_ORDER - i)") auto

declare merge_buddies.simps [simp del]

definition pmm_free_pages :: "u32 \<Rightarrow> u32 \<Rightarrow> buddy_system \<Rightarrow> buddy_system option" where
  "pmm_free_pages page_addr order s =
     (if order > of_nat MAX_ORDER \<or> page_addr < base_addr s then Some s
      else do {
        l \<leftarrow> spinlock_acquire (bd_lock s);
        let s = s\<lparr>bd_lock := l\<rparr>;
        let page_idx = (page_addr - base_addr s) div PAGE_SIZE;
        let s = s\<lparr>bitmap := unmark_pages page_idx (2 ^ unat order) (bitmap s)\<rparr>;
        (current_order, current_addr, s) \<leftarrow> merge_buddies (unat order) page_idx page_addr s;
        let s = push_block current_addr current_order s;
        Some (s\<lparr>bd_lock := spinlock_release (bd_lock s)\<rparr>)
      })"

section \<open>From pointers to blocks\<close>

definition head_nodes :: "(nat \<Rightarrow> u32 list) \<Rightarrow> lnode \<Rightarrow> lnode list" where
  "head_nodes fl h = (case h of Lhead i \<Rightarrow> map Lpage (fl i) | _ \<Rightarrow> [])"

abbreviation heads :: "lnode set" where
  "heads \<equiv> Lhead ` {..11}"

definition free_lists :: "buddy_system \<Rightarrow> (nat \<Rightarrow> u32 list) \<Rightarrow> bool" where
  "free_lists s fl \<longleftrightarrow>
     list_family dll (blinks s) heads (head_nodes fl) \<and>
     (\<forall>i\<le>11. nr_free s i = of_nat (length (fl i)))"

definition blocks_of :: "(nat \<Rightarrow> u32 list) \<Rightarrow> block set" where
  "blocks_of fl = {(i, a). i \<le> 11 \<and> a \<in> set (fl i)}"

lemma blocks_of_iff [simp]: "(i, a) \<in> blocks_of fl \<longleftrightarrow> i \<le> 11 \<and> a \<in> set (fl i)"
  by (simp add: blocks_of_def)

lemma head_nodes_head [simp]: "head_nodes fl (Lhead i) = map Lpage (fl i)"
  by (simp add: head_nodes_def)

lemma head_nodes_upd: "(head_nodes fl)(Lhead i := map Lpage xs) = head_nodes (fl(i := xs))"
  by (rule ext) (simp add: head_nodes_def split: lnode.split)

lemma remove1_Lpage: "remove1 (Lpage a) (map Lpage xs) = map Lpage (remove1 a xs)"
  by (induction xs) auto

lemma find_Lpage:
  "List.find (\<lambda>p. p = Lpage b) (map Lpage xs) = (if b \<in> set xs then Some (Lpage b) else None)"
  by (induction xs) auto

lemma free_lists_distinct: "free_lists s fl \<Longrightarrow> i \<le> 11 \<Longrightarrow> distinct (fl i)"
  using kl.family_rep [of "blinks s" heads "head_nodes fl" "Lhead i"]
  by (auto simp: free_lists_def dll_def distinct_map)

text \<open>
  The invariant behind the operations: the pointers form the free lists of a good set of blocks,
  over a base address that is aligned to the largest block.
\<close>

definition buddy_blocks :: "buddy_system \<Rightarrow> block set \<Rightarrow> bool" where
  "buddy_blocks s B \<longleftrightarrow>
     (\<exists>fl. free_lists s fl \<and> B = blocks_of fl) \<and>
     base_addr s \<noteq> 0 \<and> aligned 11 (base_addr s) \<and> good_blocks (base_addr s) B"

lemma buddy_blocks_cong [c_state]:
  "buddy_blocks (s\<lparr>bitmap := bm\<rparr>) B = buddy_blocks s B"
  "buddy_blocks (s\<lparr>bd_lock := l\<rparr>) B = buddy_blocks s B"
  "buddy_blocks (s\<lparr>pg_order := po\<rparr>) B = buddy_blocks s B"
  by (simp_all add: buddy_blocks_def free_lists_def)

lemma push_drop_frame [simp]:
  "base_addr (push_block a i s) = base_addr s" "bd_lock (push_block a i s) = bd_lock s"
  "base_addr (drop_block e i s) = base_addr s" "bd_lock (drop_block e i s) = bd_lock s"
  by (simp_all add: push_block_def drop_block_def)

lemma buddy_blocks_good [c_rep]: "buddy_blocks s B \<Longrightarrow> good_blocks (base_addr s) B"
  by (simp add: buddy_blocks_def)

lemma buddy_blocks_push:
  assumes "buddy_blocks s B" and "held (base_addr s) B (i, a)"
    and "i < 11 \<Longrightarrow> (i, buddy_of i a) \<notin> B"
  shows "buddy_blocks (push_block a i s) (insert (i, a) B)"
proof -
  obtain fl where fl: "free_lists s fl" and B: "B = blocks_of fl"
    using assms(1) by (auto simp: buddy_blocks_def)
  have i: "i \<le> 11" using assms(2) by (simp add: held_def good_block_def)
  have new: "Lpage a \<notin> set (k # head_nodes fl k)" if "k \<in> heads" for k
    using that held_start_notin [OF assms(2)] by (auto simp: B)
  have "free_lists (push_block a i s) (fl(i := a # fl i))"
    using kl.family_add [of "blinks s" heads "head_nodes fl" "Lhead i" "Lpage a"] fl i new
      head_nodes_upd [of fl i "a # fl i"]
    by (simp add: free_lists_def push_block_def)
  moreover have "insert (i, a) B = blocks_of (fl(i := a # fl i))"
    using i by (auto simp: B blocks_of_def split: if_splits)
  moreover have "good_blocks (base_addr s) (insert (i, a) B)"
    using assms by (intro good_blocks_put) (auto simp: buddy_blocks_def)
  ultimately show ?thesis using assms(1) by (auto simp: buddy_blocks_def)
qed

lemma buddy_blocks_drop:
  assumes "buddy_blocks s B" and "(i, a) \<in> B"
  shows "buddy_blocks (drop_block (Lpage a) i s) (B - {(i, a)})"
proof -
  obtain fl where fl: "free_lists s fl" and B: "B = blocks_of fl"
    using assms(1) by (auto simp: buddy_blocks_def)
  have i: "i \<le> 11" and a: "a \<in> set (fl i)" using assms(2) by (auto simp: B)
  have len: "length (fl i) = Suc (length (remove1 a (fl i)))" using a length_pos_if_in_set [OF a] by (simp add: length_remove1)
  have "free_lists (drop_block (Lpage a) i s) (fl(i := remove1 a (fl i)))"
    using kl.family_del [of "blinks s" heads "head_nodes fl" "Lhead i" "Lpage a"] fl i a len
      head_nodes_upd [of fl i "remove1 a (fl i)"]
    by (simp add: free_lists_def drop_block_def remove1_Lpage)
  moreover have "B - {(i, a)} = blocks_of (fl(i := remove1 a (fl i)))"
    using i free_lists_distinct [OF fl i] by (auto simp: B blocks_of_def split: if_splits)
  moreover have "good_blocks (base_addr s) (B - {(i, a)})"
    using assms by (intro good_blocks_take) (auto simp: buddy_blocks_def)
  ultimately show ?thesis using assms(1) by (auto simp: buddy_blocks_def)
qed

lemma buddy_blocks_find:
  assumes "buddy_blocks s B" and "i \<le> 11"
  shows "list_for_each_find (\<lambda>p. p = Lpage b) (blinks s) (Lhead i) (nxt (blinks s) (Lhead i)) =
    Some (if (i, b) \<in> B then Some (Lpage b) else None)"
  using assms kl.family_find [of "blinks s" heads _ "Lhead i" "\<lambda>p. p = Lpage b"]
  by (auto simp: buddy_blocks_def free_lists_def find_Lpage)

lemma buddy_blocks_empty:
  assumes "buddy_blocks s B" and "i \<le> 11"
  shows "list_empty (Lhead i) (blinks s) \<longleftrightarrow> (\<forall>a. (i, a) \<notin> B)"
proof -
  obtain fl where fl: "free_lists s fl" and B: "B = blocks_of fl"
    using assms(1) by (auto simp: buddy_blocks_def)
  then show ?thesis
    using kl.family_empty [of "blinks s" heads "head_nodes fl" "Lhead i"] assms(2)
    by (cases "fl i") (auto simp: free_lists_def)
qed

lemma buddy_blocks_first:
  assumes "buddy_blocks s B" and "i \<le> 11" and "\<not> list_empty (Lhead i) (blinks s)"
  obtains a where "nxt (blinks s) (Lhead i) = Lpage a" and "(i, a) \<in> B"
proof -
  obtain fl where fl: "free_lists s fl" and B: "B = blocks_of fl"
    using assms(1) by (auto simp: buddy_blocks_def)
  obtain a xs where a: "fl i = a # xs"
    using buddy_blocks_empty [OF assms(1,2)] assms(3) by (cases "fl i") (auto simp: B)
  then have "nxt (blinks s) (Lhead i) = Lpage a"
    using kl.family_first [of "blinks s" heads "head_nodes fl" "Lhead i"] fl assms(2)
    by (simp add: free_lists_def)
  with a assms(2) show thesis by (intro that) (auto simp: B)
qed

section \<open>The loops\<close>

lemma find_free_order_le: "i \<le> Suc MAX_ORDER \<Longrightarrow> find_free_order i s \<le> Suc MAX_ORDER"
  by (induction i s rule: find_free_order.induct) (subst find_free_order.simps, simp)

lemma find_free_order_found:
  assumes "i \<le> Suc MAX_ORDER" and "find_free_order i s \<le> MAX_ORDER"
  shows "i \<le> find_free_order i s" and "\<not> list_empty (Lhead (find_free_order i s)) s"
proof -
  have "i \<le> find_free_order i s \<and> \<not> list_empty (Lhead (find_free_order i s)) s"
    using assms
  proof (induction i s rule: find_free_order.induct)
    case (1 i s)
    then show ?case
      by (subst (1 2) find_free_order.simps) (use find_free_order.simps [of i s] in \<open>auto split: if_splits\<close>)
  qed
  then show "i \<le> find_free_order i s" and "\<not> list_empty (Lhead (find_free_order i s)) s" by auto
qed

lemma find_free_order_none:
  assumes "find_free_order i s > MAX_ORDER" and "i \<le> j" and "j \<le> MAX_ORDER"
  shows "list_empty (Lhead j) s"
  using assms
proof (induction i s rule: find_free_order.induct)
  case (1 i s)
  then show ?case
    using find_free_order.simps [of i s] by (cases "i = j") (auto split: if_splits)
qed

lemma split_step_spec:
  assumes bb: "buddy_blocks s B" and h: "held (base_addr s) B (Suc i, a)"
  shows "buddy_blocks (split_step a i s) (insert (i, buddy_of i a) B)"
    and "held (base_addr s) (insert (i, buddy_of i a) B) (i, a)"
    and "base_addr (split_step a i s) = base_addr s" and "bd_lock (split_step a i s) = bd_lock s"
proof -
  note sp = held_split [OF h buddy_blocks_good [OF bb]]
  show "buddy_blocks (split_step a i s) (insert (i, buddy_of i a) B)"
    unfolding split_step_def Let_def buddy_of_def [symmetric] c_state
    using bb sp(1,2) by (intro buddy_blocks_push)
  show "held (base_addr s) (insert (i, buddy_of i a) B) (i, a)" by (rule sp(3))
  show "base_addr (split_step a i s) = base_addr s" "bd_lock (split_step a i s) = bd_lock s"
    by (simp_all add: split_step_def Let_def)
qed

lemma split_block_spec:
  "buddy_blocks s B \<Longrightarrow> held (base_addr s) B (i, a) \<Longrightarrow> target \<le> i \<Longrightarrow>
   \<exists>B'. buddy_blocks (split_block target a i s) B' \<and>
     base_addr (split_block target a i s) = base_addr s \<and>
     bd_lock (split_block target a i s) = bd_lock s \<and>
     held (base_addr s) B' (target, a) \<and>
     frames target a \<union> free_frames B' = frames i a \<union> free_frames B"
proof (induction i arbitrary: s B)
  case 0
  then show ?case by auto
next
  case (Suc i)
  show ?case
  proof (cases "Suc i > target")
    case True
    note st = split_step_spec [OF Suc.prems(1,2)]
    note halves = held_split(4) [OF Suc.prems(2) buddy_blocks_good [OF Suc.prems(1)]]
    from Suc.IH [OF st(1)] st(2-4) True obtain B' where
      "buddy_blocks (split_block target a i (split_step a i s)) B'"
      "base_addr (split_block target a i (split_step a i s)) = base_addr s"
      "bd_lock (split_block target a i (split_step a i s)) = bd_lock s"
      "held (base_addr s) B' (target, a)"
      "frames target a \<union> free_frames B' = frames i a \<union> free_frames (insert (i, buddy_of i a) B)"
      by auto
    then show ?thesis using True halves by (intro exI [of _ B']) (simp add: Un_assoc)
  next
    case False
    then show ?thesis using Suc.prems by auto
  qed
qed

lemma merge_buddies_spec:
  "buddy_blocks s B \<Longrightarrow> held (base_addr s) B (i, a) \<Longrightarrow> idx = (a - base_addr s) div 4096 \<Longrightarrow>
   \<exists>j b t B'. merge_buddies i idx a s = Some (j, b, t) \<and> buddy_blocks t B' \<and>
     base_addr t = base_addr s \<and> bd_lock t = bd_lock s \<and> held (base_addr s) B' (j, b) \<and>
     (j < 11 \<longrightarrow> (j, buddy_of j b) \<notin> B') \<and>
     frames j b \<union> free_frames B' = frames i a \<union> free_frames B"
proof (induction "11 - i" arbitrary: i idx a s B rule: less_induct)
  case less
  have good: "i \<le> 11" "aligned i a" "base_addr s \<le> a" "aligned 11 (base_addr s)"
    using less.prems(1,2) by (auto simp: held_def good_block_def buddy_blocks_def)
  show ?case
  proof (cases "i < 11")
    case False
    then show ?thesis using less.prems by (subst merge_buddies.simps) auto
  next
    case True
    then have i: "i \<le> 10" by simp
    have buddy: "base_addr s + find_buddy_pfn idx i * PAGE_SIZE = buddy_of i a"
      using buddy_index_agrees [OF good(2,4,3) i] less.prems(3) by (simp add: find_buddy_pfn_def)
    have bidx: "find_buddy_pfn idx i = (buddy_of i a - base_addr s) div 4096"
      using buddy_index [OF good(2,4,3) i] less.prems(3) by (simp add: find_buddy_pfn_def)
    note find = buddy_blocks_find [OF less.prems(1) good(1), of "buddy_of i a"]
    show ?thesis
    proof (cases "(i, buddy_of i a) \<in> B")
      case False
      then show ?thesis
        using True less.prems(1,2) find by (subst merge_buddies.simps) (auto simp: buddy [unfolded PAGE_SIZE_def])
    next
      case mem: True
      let ?s = "drop_block (Lpage (buddy_of i a)) i s" and ?B = "B - {(i, buddy_of i a)}"
      note mg = held_merge [OF less.prems(2) buddy_blocks_good [OF less.prems(1)] mem True]
      have bb: "buddy_blocks ?s ?B" using less.prems(1) mem by (rule buddy_blocks_drop)
      show ?thesis
      proof (cases "a > buddy_of i a")
        case gt: True
        then have "min a (buddy_of i a) = buddy_of i a" by simp
        with mg have h: "held (base_addr ?s) ?B (Suc i, buddy_of i a)"
          and fr: "frames (Suc i) (buddy_of i a) \<union> free_frames ?B = frames i a \<union> free_frames B" by simp_all
        have "merge_buddies i idx a s = merge_buddies (Suc i) (find_buddy_pfn idx i) (buddy_of i a) ?s"
          using True gt find mem by (subst merge_buddies.simps) (simp add: Let_def buddy [unfolded PAGE_SIZE_def])
        then show ?thesis
          using less.hyps [of "Suc i" ?s ?B "buddy_of i a" "find_buddy_pfn idx i"] True bb h fr bidx
          by simp
      next
        case le: False
        then have "min a (buddy_of i a) = a" by (simp add: min_absorb1 linorder_not_less)
        with mg have h: "held (base_addr ?s) ?B (Suc i, a)"
          and fr: "frames (Suc i) a \<union> free_frames ?B = frames i a \<union> free_frames B" by simp_all
        have "merge_buddies i idx a s = merge_buddies (Suc i) idx a ?s"
          using True le find mem by (subst merge_buddies.simps) (simp add: Let_def buddy [unfolded PAGE_SIZE_def])
        then show ?thesis
          using less.hyps [of "Suc i" ?s ?B a idx] True bb h fr less.prems(3) by simp
      qed
    qed
  qed
qed

section \<open>Correctness of allocation and release\<close>

text \<open>The invariant between operations: lock free, and the free lists hold the blocks \<open>B\<close>.\<close>

definition buddy_inv :: "buddy_system \<Rightarrow> block set \<Rightarrow> bool" where
  "buddy_inv s B \<longleftrightarrow> bd_lock s = 0 \<and> buddy_blocks s B"

lemma pmm_alloc_none_left:
  assumes "buddy_inv s B" and "unat order \<le> 11" and "\<forall>(i, a)\<in>B. i < unat order"
  shows "pmm_alloc_pages order s = Some (0, s)"
proof -
  have bb: "buddy_blocks s B" and l: "bd_lock s = 0" using assms(1) by (auto simp: buddy_inv_def)
  let ?r = "find_free_order (unat order) (blinks s)"
  have "?r > MAX_ORDER"
  proof (rule ccontr)
    assume "\<not> ?r > MAX_ORDER"
    then have r: "unat order \<le> ?r" "\<not> list_empty (Lhead ?r) (blinks s)" "?r \<le> 11"
      using find_free_order_found [of "unat order" "blinks s"] assms(2) by auto
    then obtain a where "(?r, a) \<in> B" using buddy_blocks_empty [OF bb r(3)] by auto
    with r(1) assms(3) show False by auto
  qed
  moreover have "\<not> order > of_nat MAX_ORDER" using assms(2) by (simp add: word_less_nat_alt)
  ultimately show ?thesis using l by (simp add: pmm_alloc_pages_def)
qed

lemma pmm_alloc_some_left:
  assumes "buddy_inv s B" and "unat order \<le> 11" and "(j, c) \<in> B" and "unat order \<le> j"
  obtains a s' B' where "pmm_alloc_pages order s = Some (a, s')" and "buddy_inv s' B'"
    and "base_addr s' = base_addr s" and "held (base_addr s) B' (unat order, a)" and "a \<noteq> 0"
    and "frames (unat order) a \<union> free_frames B' = free_frames B"
proof -
  have bb: "buddy_blocks s B" and l: "bd_lock s = 0" using assms(1) by (auto simp: buddy_inv_def)
  let ?r = "find_free_order (unat order) (blinks s)"
  have j: "j \<le> 11" using good_blocks_good [OF buddy_blocks_good [OF bb] assms(3)] by (simp add: good_block_def)
  have r: "?r \<le> 11"
  proof (rule ccontr)
    assume "\<not> ?r \<le> 11"
    then have "list_empty (Lhead j) (blinks s)"
      using find_free_order_none [of "unat order" "blinks s" j] assms(4) j by simp
    then show False using buddy_blocks_empty [OF bb j] assms(3) by auto
  qed
  then have le: "unat order \<le> ?r" and ne: "\<not> list_empty (Lhead ?r) (blinks s)"
    using find_free_order_found [of "unat order" "blinks s"] assms(2) by auto
  obtain a where e: "nxt (blinks s) (Lhead ?r) = Lpage a" and a: "(?r, a) \<in> B"
    using buddy_blocks_first [OF bb r ne] .
  let ?s1 = "(drop_block (Lpage a) ?r s)\<lparr>bd_lock := 1\<rparr>"
  note take = good_blocks_take [OF buddy_blocks_good [OF bb] a]
  have "buddy_blocks ?s1 (B - {(?r, a)})"
    using buddy_blocks_drop [OF bb a] by (simp only: c_state)
  from split_block_spec [OF this _ le] take(2) obtain B' where
    B': "buddy_blocks (split_block (unat order) a ?r ?s1) B'"
      "base_addr (split_block (unat order) a ?r ?s1) = base_addr s"
      "held (base_addr s) B' (unat order, a)"
      "frames (unat order) a \<union> free_frames B' = frames ?r a \<union> free_frames (B - {(?r, a)})"
    by auto
  let ?t = "split_block (unat order) a ?r ?s1"
  let ?s' = "?t\<lparr>pg_order := (pg_order ?t)(a := order),
    bitmap := mark_pages ((a - base_addr ?t) div PAGE_SIZE) (2 ^ unat order) (bitmap ?t), bd_lock := 0\<rparr>"
  have eq: "drop_block (Lpage a) ?r (s\<lparr>bd_lock := 1\<rparr>) = ?s1" by (simp add: drop_block_def)
  have "\<not> order > of_nat MAX_ORDER" using assms(2) by (simp add: word_less_nat_alt)
  then have "pmm_alloc_pages order s = Some (a, ?s')"
    using r e l by (simp add: pmm_alloc_pages_def Let_def eq)
  moreover have "buddy_inv ?s' B'" using B'(1) by (simp add: buddy_inv_def c_state)
  moreover have "a \<noteq> 0"
    using bb B'(3) by (auto simp: held_def good_block_def buddy_blocks_def)
  moreover have "frames ?r a \<subseteq> free_frames B" using a by (auto simp: free_frames_def intro!: bexI [of _ "(?r, a)"])
  then have "frames (unat order) a \<union> free_frames B' = free_frames B"
    unfolding B'(4) take(3) by auto
  ultimately show thesis using that [of a ?s' B'] B'(2,3) by simp
qed

lemma pmm_free_held:
  assumes "buddy_inv s B" and "unat order \<le> 11" and "held (base_addr s) B (unat order, a)"
  obtains s' B' where "pmm_free_pages a order s = Some s'" and "buddy_inv s' B'"
    and "base_addr s' = base_addr s"
    and "free_frames B' = frames (unat order) a \<union> free_frames B"
proof -
  have bb: "buddy_blocks s B" and l: "bd_lock s = 0" using assms(1) by (auto simp: buddy_inv_def)
  let ?idx = "(a - base_addr s) div PAGE_SIZE"
  let ?s1 = "s\<lparr>bd_lock := 1, bitmap := unmark_pages ?idx (2 ^ unat order) (bitmap s)\<rparr>"
  have bb1: "buddy_blocks ?s1 B" using bb by (simp add: c_state)
  obtain j b t B' where m: "merge_buddies (unat order) ?idx a ?s1 = Some (j, b, t)"
    "buddy_blocks t B'" "base_addr t = base_addr s" "held (base_addr s) B' (j, b)"
    "j < 11 \<longrightarrow> (j, buddy_of j b) \<notin> B'"
    "frames j b \<union> free_frames B' = frames (unat order) a \<union> free_frames B"
    using merge_buddies_spec [OF bb1, of "unat order" a ?idx] assms(3) by auto
  let ?s' = "(push_block b j t)\<lparr>bd_lock := 0\<rparr>"
  have "\<not> order > of_nat MAX_ORDER" "\<not> a < base_addr s"
    using assms(2,3) by (simp_all add: word_less_nat_alt word_le_nat_alt held_def good_block_def)
  then have "pmm_free_pages a order s = Some ?s'"
    using l m(1) by (simp add: pmm_free_pages_def Let_def)
  moreover have "buddy_inv ?s' (insert (j, b) B')"
    using buddy_blocks_push [OF m(2)] m(3-5) by (simp add: buddy_inv_def c_state)
  moreover have "free_frames (insert (j, b) B') = frames (unat order) a \<union> free_frames B"
    using m(6) by simp
  ultimately show thesis using that [of ?s' "insert (j, b) B'"] m(3) by simp
qed

section \<open>The page-allocator interface\<close>

text \<open>
  What the heap, the virtual-memory code and the process manager rely on, in terms of the set \<open>F\<close>
  of free frames: an allocation returns, and is either the null address with nothing changed, or
  a block of free frames that are free no longer; releasing a block that is not free returns and
  makes its frames free.
\<close>

locale page_allocator =
  fixes alloc :: "u32 \<Rightarrow> 's \<Rightarrow> (u32 \<times> 's) option"
    and release :: "u32 \<Rightarrow> u32 \<Rightarrow> 's \<Rightarrow> 's option"
    and inv :: "u32 \<Rightarrow> nat set \<Rightarrow> 's \<Rightarrow> bool"
    and valid :: "u32 \<Rightarrow> u32 \<Rightarrow> u32 \<Rightarrow> bool"
  assumes alloc_total: "inv b F s \<Longrightarrow> \<exists>a s'. alloc order s = Some (a, s')"
    and alloc_null: "inv b F s \<Longrightarrow> alloc order s = Some (0, s') \<Longrightarrow> s' = s"
    and alloc_block: "inv b F s \<Longrightarrow> alloc order s = Some (a, s') \<Longrightarrow> a \<noteq> 0 \<Longrightarrow>
      valid b order a \<and> frames (unat order) a \<subseteq> F \<and> inv b (F - frames (unat order) a) s'"
    and release_block: "inv b F s \<Longrightarrow> valid b order a \<Longrightarrow> frames (unat order) a \<inter> F = {} \<Longrightarrow>
      \<exists>s'. release a order s = Some s' \<and> inv b (F \<union> frames (unat order) a) s'"
begin

lemma alloc_disjoint:
  assumes "inv b F s" and "alloc o1 s = Some (a1, s1)" and "a1 \<noteq> 0"
    and "alloc o2 s1 = Some (a2, s2)" and "a2 \<noteq> 0"
  shows "frames (unat o1) a1 \<inter> frames (unat o2) a2 = {}"
  using alloc_block [OF assms(1-3)] alloc_block [OF _ assms(4,5), of b "F - frames (unat o1) a1"] by auto

lemma alloc_release:
  assumes "inv b F s" and "alloc order s = Some (a, s1)" and "a \<noteq> 0"
  obtains s2 where "release a order s1 = Some s2" and "inv b F s2"
proof -
  note blk = alloc_block [OF assms]
  obtain s2 where "release a order s1 = Some s2"
    "inv b (F - frames (unat order) a \<union> frames (unat order) a) s2"
    using release_block [of b "F - frames (unat order) a" s1 order a] blk by auto
  moreover have "F - frames (unat order) a \<union> frames (unat order) a = F" using blk by auto
  ultimately show thesis using that by auto
qed

text \<open>Two blocks taken and given back in the order they were taken.\<close>

lemma alloc_two_release:
  assumes "inv b F s" and "alloc o1 s = Some (a1, s1)" and "a1 \<noteq> 0"
    and "alloc o2 s1 = Some (a2, s2)" and "a2 \<noteq> 0"
  obtains s3 s4 where "release a1 o1 s2 = Some s3" and "release a2 o2 s3 = Some s4" and "inv b F s4"
proof -
  let ?f1 = "frames (unat o1) a1" and ?f2 = "frames (unat o2) a2"
  note b1 = alloc_block [OF assms(1-3)]
  note b2 = alloc_block [OF conjunct2 [OF conjunct2 [OF b1]] assms(4,5)]
  have disj: "?f1 \<inter> ?f2 = {}" by (rule alloc_disjoint [OF assms])
  obtain s3 where s3: "release a1 o1 s2 = Some s3" "inv b (F - ?f1 - ?f2 \<union> ?f1) s3"
    using release_block [of b "F - ?f1 - ?f2" s2 o1 a1] b1 b2 by auto
  obtain s4 where s4: "release a2 o2 s3 = Some s4" "inv b (F - ?f1 - ?f2 \<union> ?f1 \<union> ?f2) s4"
    using release_block [OF s3(2), of o2 a2] b2 disj by auto
  have "F - ?f1 - ?f2 \<union> ?f1 \<union> ?f2 = F" using b1 b2 by auto
  with s3 s4 that show thesis by auto
qed

text \<open>The same in the opposite order.\<close>

lemma alloc_two_release_rev:
  assumes "inv b F s" and "alloc o1 s = Some (a1, s1)" and "a1 \<noteq> 0"
    and "alloc o2 s1 = Some (a2, s2)" and "a2 \<noteq> 0"
  obtains s3 s4 where "release a2 o2 s2 = Some s3" and "release a1 o1 s3 = Some s4" and "inv b F s4"
proof -
  let ?f1 = "frames (unat o1) a1"
  note b1 = alloc_block [OF assms(1-3)]
  have "inv b (F - ?f1) s1" using b1 by simp
  from alloc_release [OF this assms(4,5)] obtain s3 where
    s3: "release a2 o2 s2 = Some s3" "inv b (F - ?f1) s3" .
  obtain s4 where "release a1 o1 s3 = Some s4" "inv b (F - ?f1 \<union> ?f1) s4"
    using release_block [OF s3(2), of o1 a1] b1 by auto
  moreover have "F - ?f1 \<union> ?f1 = F" using b1 by auto
  ultimately show thesis using s3 that by auto
qed

end

definition pmm_ok :: "u32 \<Rightarrow> nat set \<Rightarrow> buddy_system \<Rightarrow> bool" where
  "pmm_ok b F s \<longleftrightarrow> base_addr s = b \<and> (\<exists>B. buddy_inv s B \<and> free_frames B = F)"

definition pmm_valid :: "u32 \<Rightarrow> u32 \<Rightarrow> u32 \<Rightarrow> bool" where
  "pmm_valid b order a \<longleftrightarrow> good_block b (unat order, a)"

lemma pmm_alloc_bad_order: "11 < order \<Longrightarrow> pmm_alloc_pages order s = Some (0, s)"
  by (simp add: pmm_alloc_pages_def)

lemma pmm_alloc_cases:
  assumes "pmm_ok b F s"
  obtains (none) "pmm_alloc_pages order s = Some (0, s)"
  | (block) a s' where "pmm_alloc_pages order s = Some (a, s')" and "a \<noteq> 0"
      and "pmm_valid b order a" and "frames (unat order) a \<subseteq> F"
      and "pmm_ok b (F - frames (unat order) a) s'"
proof -
  obtain B where B: "buddy_inv s B" "free_frames B = F" "base_addr s = b"
    using assms by (auto simp: pmm_ok_def)
  show thesis
  proof (cases "unat order \<le> 11 \<and> (\<exists>(j, c)\<in>B. unat order \<le> j)")
    case True
    then obtain j c where "(j, c) \<in> B" "unat order \<le> j" by auto
    from pmm_alloc_some_left [OF B(1) _ this] True obtain a s' B' where
      r: "pmm_alloc_pages order s = Some (a, s')" "buddy_inv s' B'" "base_addr s' = base_addr s"
        "held (base_addr s) B' (unat order, a)" "a \<noteq> 0"
        "frames (unat order) a \<union> free_frames B' = free_frames B"
      by auto
    then have "free_frames B' = F - frames (unat order) a"
      using B(2) by (auto simp: held_def)
    then show thesis
      using r B block [of a s'] by (auto simp: pmm_ok_def pmm_valid_def held_def)
  next
    case False
    show thesis
    proof (cases "unat order \<le> 11")
      case True
      with False have "\<forall>(i, a)\<in>B. i < unat order" by (auto simp: not_le)
      then show thesis using pmm_alloc_none_left [OF B(1) True] none by simp
    next
      case False
      then have "11 < order" by (simp add: word_less_nat_alt)
      then show thesis using pmm_alloc_bad_order none by simp
    qed
  qed
qed

lemma pmm_release_block:
  assumes "pmm_ok b F s" and "pmm_valid b order a" and "frames (unat order) a \<inter> F = {}"
  shows "\<exists>s'. pmm_free_pages a order s = Some s' \<and> pmm_ok b (F \<union> frames (unat order) a) s'"
proof -
  obtain B where B: "buddy_inv s B" "free_frames B = F" "base_addr s = b"
    using assms(1) by (auto simp: pmm_ok_def)
  then have "held (base_addr s) B (unat order, a)" "unat order \<le> 11"
    using assms(2,3) by (auto simp: held_def pmm_valid_def good_block_def)
  from pmm_free_held [OF B(1) this(2,1)] show ?thesis
    using B by (metis pmm_ok_def Un_commute)
qed

interpretation pa: page_allocator pmm_alloc_pages pmm_free_pages pmm_ok pmm_valid
proof
  fix b F s order a s'
  assume inv: "pmm_ok b F s"
  show "\<exists>a s'. pmm_alloc_pages order s = Some (a, s')"
    using inv by (cases rule: pmm_alloc_cases [where order = order]) auto
  show "s' = s" if "pmm_alloc_pages order s = Some (0, s')"
    using inv that by (cases rule: pmm_alloc_cases [where order = order]) auto
  show "pmm_valid b order a \<and> frames (unat order) a \<subseteq> F \<and> pmm_ok b (F - frames (unat order) a) s'"
    if "pmm_alloc_pages order s = Some (a, s')" and "a \<noteq> 0"
    using inv that by (cases rule: pmm_alloc_cases [where order = order]) auto
  show "\<exists>s'. pmm_free_pages a order s = Some s' \<and> pmm_ok b (F \<union> frames (unat order) a) s'"
    if "pmm_valid b order a" and "frames (unat order) a \<inter> F = {}"
    using inv that by (rule pmm_release_block)
qed

text \<open>Two states with the same base and the same free frames hold the same blocks.\<close>

lemma pmm_ok_same_blocks:
  assumes "buddy_inv s B" and "pmm_ok (base_addr s) (free_frames B) t"
  shows "buddy_inv t B"
proof -
  obtain C where C: "buddy_inv t C" "free_frames C = free_frames B" "base_addr t = base_addr s"
    using assms(2) by (auto simp: pmm_ok_def)
  have "good_blocks (base_addr s) B" "good_blocks (base_addr s) C"
    using assms(1) C by (auto simp: buddy_inv_def dest: buddy_blocks_good)
  then have "C = B" using C(2) by (metis good_blocks_canonical)
  with C(1) show ?thesis by simp
qed

end
