(* ===== verification/PmmInit.thy ===== *)
theory PmmInit
  imports Pmm
begin

text \<open>
  Initialisation and statistics of the page allocator: what \<open>pmm_init\<close> puts on the free lists,
  what the numbers of \<open>pmm_stats\<close> count, and the properties of \<open>kernel/mm/pmm.c\<close> as theorems.
\<close>

section \<open>Empty free lists\<close>

definition init_area :: "nat \<Rightarrow> buddy_system \<Rightarrow> buddy_system" where
  "init_area i s = s\<lparr>blinks := list_init (Lhead i) (blinks s), nr_free := (nr_free s)(i := 0)\<rparr>"

lemma init_area_simps [simp]:
  "blinks (init_area i s) = list_init (Lhead i) (blinks s)"
  "nr_free (init_area i s) = (nr_free s)(i := 0)"
  by (simp_all add: init_area_def)

lemma init_free_areas_eq: "init_free_areas s = fold init_area [0..<12] s"
  by (simp add: init_free_areas_def init_area_def [abs_def])

lemma head_nodes_nil: "head_nodes (\<lambda>_. []) = (\<lambda>_. [])"
  by (rule ext) (simp add: head_nodes_def split: lnode.split)

lemma init_areas_upto:
  "list_family dll (blinks (fold init_area [0..<n] s)) (Lhead ` {..<n}) (\<lambda>_. []) \<and>
   (\<forall>i<n. nr_free (fold init_area [0..<n] s) i = 0)"
proof (induction n)
  case 0
  then show ?case by (simp add: list_family_def)
next
  case (Suc n)
  have "list_family dll (blinks (init_area n (fold init_area [0..<n] s)))
      (insert (Lhead n) (Lhead ` {..<n})) ((\<lambda>_. [])(Lhead n := []))"
    using Suc by (auto intro: kl.family_init)
  moreover have "((\<lambda>_. [])(Lhead n := [])) = (\<lambda>_. [] :: lnode list)" by auto
  ultimately show ?case using Suc
    by (simp add: lessThan_Suc less_Suc_eq)
qed

lemma init_free_areas_rest [simp]:
  "base_addr (init_free_areas s) = base_addr s" "total_pages (init_free_areas s) = total_pages s"
  "managed_pages (init_free_areas s) = managed_pages s" "bd_lock (init_free_areas s) = bd_lock s"
proof -
  have "base_addr (fold init_area xs s) = base_addr s \<and> total_pages (fold init_area xs s) = total_pages s \<and>
    managed_pages (fold init_area xs s) = managed_pages s \<and> bd_lock (fold init_area xs s) = bd_lock s" for xs
    by (induction xs arbitrary: s) (simp_all add: init_area_def)
  then show "base_addr (init_free_areas s) = base_addr s" "total_pages (init_free_areas s) = total_pages s"
    "managed_pages (init_free_areas s) = managed_pages s" "bd_lock (init_free_areas s) = bd_lock s"
    by (simp_all add: init_free_areas_eq)
qed

lemma init_free_areas_blocks:
  assumes "aligned 11 (base_addr s)" and "base_addr s \<noteq> 0"
  shows "buddy_blocks (init_free_areas s) {}"
proof -
  have "{..<12} = {..11::nat}" by auto
  then have "free_lists (init_free_areas s) (\<lambda>_. [])"
    using init_areas_upto [of 12 s]
    by (simp add: free_lists_def init_free_areas_eq head_nodes_nil less_Suc_eq_le [symmetric])
  moreover have "{} = blocks_of (\<lambda>_. [])" by (auto simp: blocks_of_def)
  ultimately show ?thesis using assms by (auto simp: buddy_blocks_def good_blocks_def)
qed

section \<open>The initial blocks\<close>

definition block_at :: "u32 \<Rightarrow> nat \<Rightarrow> block" where
  "block_at a k = (11, a + of_nat (k * 0x800000))"

definition init_blocks :: "u32 \<Rightarrow> nat \<Rightarrow> block set" where
  "init_blocks a n = block_at a ` {..<n}"

lemma init_blocks_Suc: "init_blocks a (Suc n) = insert (11, a) (init_blocks (a + 0x800000) n)"
proof -
  have "block_at a (Suc k) = block_at (a + 0x800000) k" for k
    by (simp add: block_at_def algebra_simps)
  then have "init_blocks a (Suc n) = insert (block_at a 0) (init_blocks (a + 0x800000) n)"
    unfolding init_blocks_def lessThan_Suc_eq_insert_0 image_insert image_image by simp
  then show ?thesis by (simp add: block_at_def)
qed

lemma init_blocks_0 [simp]: "init_blocks a 0 = {}"
  by (simp add: init_blocks_def)

lemma pfn_next_block: "unat a + 0x800000 < 2 ^ 32 \<Longrightarrow> pfn (a + 0x800000) = pfn a + 2048"
  by (simp add: pfn_def unat_word_ariths)

lemma aligned_next_block: "aligned 11 a \<Longrightarrow> aligned 11 (a + 0x800000)"
proof -
  have "(8388608::nat) dvd 2 ^ 32" by (simp add: dvd_def)
  moreover assume "aligned 11 a"
  ultimately have "8388608 dvd (unat a + 8388608) mod 2 ^ 32"
    by (simp add: aligned_def dvd_mod)
  then show ?thesis by (simp add: aligned_def unat_word_ariths)
qed

text \<open>One round of the loop of \<open>pmm_init\<close>.\<close>

definition init_one :: "u32 \<Rightarrow> u32 \<Rightarrow> buddy_system \<Rightarrow> buddy_system" where
  "init_one ms a s =
     (push_block a 11 s)\<lparr>bitmap := mark_pages ((a - ms) div 4096) 2048 (bitmap (push_block a 11 s))\<rparr>"

lemma init_one_rest [simp]:
  "base_addr (init_one ms a s) = base_addr s" "bd_lock (init_one ms a s) = bd_lock s"
  "total_pages (init_one ms a s) = total_pages s" "managed_pages (init_one ms a s) = managed_pages s"
  by (simp_all add: init_one_def push_block_def)

lemma pmm_init_blocks_step:
  assumes "unat r div 2048 = Suc n"
  shows "pmm_init_blocks ms a r s = pmm_init_blocks ms (a + 0x800000) (r - 2048) (init_one ms a s)"
    and "unat (r - 2048) div 2048 = n"
proof -
  have le: "2048 \<le> r" using assms by (auto simp: word_le_nat_alt)
  then show "pmm_init_blocks ms a r s = pmm_init_blocks ms (a + 0x800000) (r - 2048) (init_one ms a s)"
    by (subst pmm_init_blocks.simps) (simp add: Let_def init_one_def)
  show "unat (r - 2048) div 2048 = n" using assms le by (simp add: unat_sub word_le_nat_alt le_div_geq)
qed

lemma pmm_init_blocks_end: "unat r div 2048 = 0 \<Longrightarrow> pmm_init_blocks ms a r s = s"
  by (subst pmm_init_blocks.simps) (simp add: word_le_nat_alt div_eq_0_iff)

lemma pmm_init_blocks_rest:
  "base_addr (pmm_init_blocks ms a r s) = base_addr s \<and> bd_lock (pmm_init_blocks ms a r s) = bd_lock s \<and>
   total_pages (pmm_init_blocks ms a r s) = total_pages s \<and>
   managed_pages (pmm_init_blocks ms a r s) = managed_pages s"
proof (induction "unat r div 2048" arbitrary: a r s)
  case 0
  then show ?case by (simp add: pmm_init_blocks_end)
next
  case (Suc n)
  from Suc.hyps(1) [OF pmm_init_blocks_step(2) [OF Suc.hyps(2) [symmetric], symmetric]]
  show ?case by (simp add: pmm_init_blocks_step(1) [OF Suc.hyps(2) [symmetric]])
qed

lemma pmm_init_blocks_spec:
  "unat r div 2048 = n \<Longrightarrow> buddy_blocks s B \<Longrightarrow> aligned 11 a \<Longrightarrow> base_addr s \<le> a \<Longrightarrow>
   free_frames B \<subseteq> {..<pfn a} \<Longrightarrow> unat a + 0x800000 * n \<le> 2 ^ 32 \<Longrightarrow>
   buddy_blocks (pmm_init_blocks ms a r s) (B \<union> init_blocks a n) \<and>
   free_frames (B \<union> init_blocks a n) = free_frames B \<union> {pfn a ..< pfn a + 2048 * n}"
proof (induction n arbitrary: a r s B)
  case 0
  then show ?case by (simp add: pmm_init_blocks_end)
next
  case (Suc n)
  note step = pmm_init_blocks_step [OF Suc.prems(1)]
  have h: "held (base_addr s) B (11, a)"
    using Suc.prems(3-5) by (fastforce simp: held_def good_block_def frames_def)
  have bb: "buddy_blocks (init_one ms a s) (insert (11, a) B)"
    using buddy_blocks_push [OF Suc.prems(2) h] by (simp add: init_one_def c_state)
  have fr: "free_frames (insert (11, a) B) = free_frames B \<union> {pfn a ..< pfn a + 2048}"
    by (auto simp: frames_def)
  show ?case
  proof (cases "n = 0")
    case True
    then show ?thesis using bb fr step by (simp add: pmm_init_blocks_end init_blocks_Suc)
  next
    case False
    then have lt: "unat a + 0x800000 < 2 ^ 32" using Suc.prems(6) by simp
    then have ua: "unat (a + 0x800000) = unat a + 0x800000" by (simp add: unat_word_ariths)
    have le: "base_addr (init_one ms a s) \<le> a + 0x800000"
      using Suc.prems(4) ua by (simp add: word_le_nat_alt)
    have sub: "free_frames (insert (11, a) B) \<subseteq> {..<pfn (a + 0x800000)}"
      unfolding fr pfn_next_block [OF lt] using Suc.prems(5) by fastforce
    have room: "unat (a + 0x800000) + 0x800000 * n \<le> 2 ^ 32" using ua Suc.prems(6) by simp
    note IH = Suc.IH [OF step(2) bb aligned_next_block [OF Suc.prems(3)] le sub room]
    have "B \<union> init_blocks a (Suc n) = insert (11, a) B \<union> init_blocks (a + 0x800000) n"
      by (simp add: init_blocks_Suc)
    moreover have "free_frames B \<union> {pfn a..<pfn a + 2048} \<union> {pfn a + 2048..<pfn a + 2048 + 2048 * n} =
        free_frames B \<union> {pfn a..<pfn a + 2048 * Suc n}"
      by auto
    ultimately show ?thesis
      using IH unfolding fr pfn_next_block [OF lt] step(1) by simp
  qed
qed

lemma align_down_23: "(x::u32) AND NOT 0x7FFFFF = x div 0x800000 * 0x800000"
proof -
  have m: "(0x7FFFFF :: u32) = mask 23" by (simp add: mask_eq_exp_minus_1)
  have "x AND NOT (mask 23) = push_bit 23 (drop_bit 23 x)"
    by (rule bit_word_eqI) (auto simp: bit_simps)
  then show ?thesis unfolding m by (simp add: push_bit_eq_mult drop_bit_eq_div)
qed

lemma first_block_addr_eq:
  assumes "aligned 11 ms" and "0 < unat bs" and "unat bs \<le> 0x20000" and "unat ms + 0x1000000 \<le> 2 ^ 32"
  shows "first_block_addr ms bs = ms + 0x800000"
proof -
  obtain q where q: "unat ms = 0x800000 * q" using assms(1) by (auto simp: aligned_def)
  have lt: "unat ms + (unat bs + 0x7FFFFF) < 2 ^ 32" using assms(3,4) by simp
  then have "unat (ms + bs + 0x7FFFFF) = 0x800000 * q + (unat bs + 0x7FFFFF)"
    by (simp add: unat_word_ariths q)
  moreover have "(0x800000 * q + (unat bs + 0x7FFFFF)) div 0x800000 = Suc q"
    using assms(2,3) by (intro div_nat_eqI) simp_all
  ultimately have "unat ((ms + bs + 0x7FFFFF) div 0x800000) = Suc q" by (simp add: unat_div)
  moreover have "0x800000 * Suc q < 2 ^ 32" using assms(4) q by simp
  ultimately have "unat ((ms + bs + 0x7FFFFF) div 0x800000 * 0x800000) = unat ms + 0x800000"
    by (simp add: unat_word_ariths q)
  moreover have "unat (ms + 0x800000) = unat ms + 0x800000"
    using assms(4) by (simp add: unat_word_ariths)
  ultimately have "(ms + bs + 0x7FFFFF) div 0x800000 * 0x800000 = ms + 0x800000"
    by (metis unsigned_word_eqI)
  then show ?thesis
    using align_down_23 [of "ms + bs + 0x7FFFFF"] by (simp add: first_block_addr_def Let_def)
qed

lemma pmm_stats_state:
  "bd_lock s = 0 \<Longrightarrow> managed_pages s \<noteq> 0 \<Longrightarrow>
   map_option snd (pmm_stats s) = Some (s\<lparr>bd_lock := 0\<rparr>)"
  by (simp add: pmm_stats_def Let_def)

text \<open>
  The general case: a range that starts at an 8 MB boundary and holds \<open>n\<close> times 2048 pages, with
  room for one more block above it in the address space.
\<close>

lemma pmm_init_general:
  assumes start: "aligned 11 ms" "ms \<noteq> 0" and n: "unat ((me - ms) div 4096) div 2048 = n" "0 < n"
    and room: "unat ms + 0x800000 * Suc n \<le> 2 ^ 32"
  shows "\<exists>s'. pmm_init ms me s = Some s' \<and> base_addr s' = ms \<and> managed_pages s' = (me - ms) div 4096 \<and>
    buddy_inv s' (init_blocks (ms + 0x800000) n) \<and>
    free_frames (init_blocks (ms + 0x800000) n) = {pfn ms + 2048 ..< pfn ms + 2048 * Suc n}"
proof -
  let ?total = "(me - ms) div 4096"
  let ?bs = "(?total + 7) div 8"
  have "unat (me - ms) < 2 ^ LENGTH(32)" by (rule unsigned_less)
  then have total: "2048 \<le> unat ?total" "unat ?total < 2 ^ 20"
    using n by (auto simp: unat_div)
  then have bs: "unat ?bs = (unat ?total + 7) div 8" by (simp add: unat_div unat_word_ariths)
  then have "0 < unat ?bs" "unat ?bs \<le> 0x20000" using total by auto
  then have fb: "first_block_addr ms ?bs = ms + 0x800000"
    using start room n(2) by (intro first_block_addr_eq) auto
  define s0 where "s0 = init_free_areas (s\<lparr>total_pages := ?total, managed_pages := ?total, base_addr := ms, bd_lock := 0\<rparr>)"
  define s1 where "s1 = s0\<lparr>bitmap_addr := ms, bitmap := (\<lambda>i. if i < ?bs then 0 else bitmap s0 i)\<rparr>"
  define s2 where "s2 = pmm_init_blocks ms (ms + 0x800000) ?total s1"
  have rest: "base_addr s2 = ms" "bd_lock s2 = 0" "managed_pages s2 = ?total"
    using pmm_init_blocks_rest [of ms "ms + 0x800000" ?total s1] by (simp_all add: s2_def s1_def s0_def)
  have "buddy_blocks s0 {}" unfolding s0_def using start by (intro init_free_areas_blocks) simp_all
  then have bb: "buddy_blocks s1 {}" by (simp add: s1_def buddy_blocks_def free_lists_def)
  have base1: "base_addr s1 = ms" by (simp add: s1_def s0_def)
  have up: "unat (ms + 0x800000) = unat ms + 0x800000" using room n(2) by (simp add: unat_word_ariths)
  have "buddy_blocks s2 ({} \<union> init_blocks (ms + 0x800000) n) \<and>
    free_frames ({} \<union> init_blocks (ms + 0x800000) n) =
      free_frames {} \<union> {pfn (ms + 0x800000) ..< pfn (ms + 0x800000) + 2048 * n}"
    unfolding s2_def
    using room by (intro pmm_init_blocks_spec [OF n(1) bb aligned_next_block [OF start(1)]])
      (simp_all add: base1 word_le_nat_alt up free_frames_def)
  moreover have "pfn (ms + 0x800000) = pfn ms + 2048"
    using room n(2) by (intro pfn_next_block) simp
  ultimately have "buddy_blocks s2 (init_blocks (ms + 0x800000) n)"
    and fr: "free_frames (init_blocks (ms + 0x800000) n) = {pfn ms + 2048 ..< pfn ms + 2048 * Suc n}"
    by (simp_all add: free_frames_def add.assoc)
  then have inv: "buddy_inv (s2\<lparr>bd_lock := 0\<rparr>) (init_blocks (ms + 0x800000) n)"
    by (simp add: buddy_inv_def c_state)
  have "?total \<noteq> 0" using total by auto
  then have "map_option snd (pmm_stats s2) = Some (s2\<lparr>bd_lock := 0\<rparr>)"
    using rest by (intro pmm_stats_state) simp_all
  moreover have "pmm_init ms me s = map_option snd (pmm_stats s2)"
    using fb by (simp add: pmm_init_def Let_def s2_def s1_def s0_def cong: if_cong)
  ultimately have "pmm_init ms me s = Some (s2\<lparr>bd_lock := 0\<rparr>)" by simp
  with inv fr rest show ?thesis by auto
qed

section \<open>Counting free pages\<close>

lemma card_frames [simp]: "card (frames i a) = 2 ^ i"
  by (simp add: frames_def)

lemma finite_frames [simp]: "finite (frames i a)"
  by (simp add: frames_def)

lemma finite_blocks_of: "finite (blocks_of fl)"
proof -
  have "blocks_of fl \<subseteq> {..11} \<times> (\<Union>i\<le>11. set (fl i))" by (auto simp: blocks_of_def)
  then show ?thesis by (rule finite_subset) auto
qed

lemma card_free_frames:
  assumes "good_blocks base B" and "finite B"
  shows "card (free_frames B) = (\<Sum>x\<in>B. 2 ^ fst x)"
  unfolding free_frames_def
proof (subst card_UN_disjoint)
  show "\<forall>i\<in>B. \<forall>j\<in>B. i \<noteq> j \<longrightarrow> bframes i \<inter> bframes j = {}"
    using good_blocks_disjoint [OF assms(1)] by blast
qed (use assms in \<open>auto simp: bframes_def\<close>)

lemma sum_blocks_of:
  assumes "\<And>i. i \<le> 11 \<Longrightarrow> distinct (fl i)"
  shows "(\<Sum>x\<in>blocks_of fl. 2 ^ fst x) = (\<Sum>i\<le>11. length (fl i) * (2::nat) ^ i)"
proof -
  have "blocks_of fl = (SIGMA i:{..11}. set (fl i))" by (auto simp: blocks_of_def)
  then have "(\<Sum>x\<in>blocks_of fl. (2::nat) ^ fst x) = (\<Sum>i\<le>11. \<Sum>a\<in>set (fl i). 2 ^ i)"
    using sum.Sigma [of "{..11}" "\<lambda>i. set (fl i)" "\<lambda>i a. (2::nat) ^ i"]
    by (simp add: split_def)
  also have "\<dots> = (\<Sum>i\<le>11. length (fl i) * 2 ^ i)"
    by (rule sum.cong) (use assms in \<open>auto simp: distinct_card\<close>)
  finally show ?thesis .
qed

lemma fold_counts:
  "fold (\<lambda>i t. t + f i * push_bit i 1) [0..<n] (0::u32) = (\<Sum>i<n. f i * 2 ^ i)"
  by (induction n) (simp_all add: push_bit_eq_mult)

lemma total_free_pages_card:
  assumes "buddy_blocks s B"
  shows "total_free_pages s = of_nat (card (free_frames B))"
proof -
  obtain fl where fl: "free_lists s fl" and B: "B = blocks_of fl" and good: "good_blocks (base_addr s) B"
    using assms by (auto simp: buddy_blocks_def)
  have "total_free_pages s = (\<Sum>i<12. nr_free s i * 2 ^ i)"
    unfolding total_free_pages_def fold_counts by simp
  also have "\<dots> = (\<Sum>i\<le>11. of_nat (length (fl i) * 2 ^ i))"
    using fl by (intro sum.cong) (auto simp: free_lists_def)
  also have "\<dots> = of_nat (card (free_frames B))"
    using card_free_frames [OF good] finite_blocks_of [of fl] sum_blocks_of [of fl]
      free_lists_distinct [OF fl] by (simp add: B)
  finally show ?thesis .
qed

section \<open>The last block of the range comes first\<close>

lemma pmm_init_blocks_first:
  "unat r div 2048 = Suc n \<Longrightarrow>
   nxt (blinks (pmm_init_blocks ms a r s)) (Lhead 11) = Lpage (a + of_nat (n * 0x800000))"
proof (induction n arbitrary: a r s)
  case 0
  from pmm_init_blocks_step [OF 0] show ?case
    by (simp add: pmm_init_blocks_end init_one_def push_block_def list_add_def Let_def)
next
  case (Suc n)
  from pmm_init_blocks_step [OF Suc.prems] Suc.IH show ?case by (simp add: add.assoc)
qed

lemma pmm_alloc_is_first:
  assumes "pmm_alloc_pages order s = Some (a, s')" and "a \<noteq> 0"
  shows "nxt (blinks s) (Lhead (find_free_order (unat order) (blinks s))) = Lpage a"
proof -
  have "bd_lock s = 0"
    using assms by (cases "bd_lock s = 0") (auto simp: pmm_alloc_pages_def split: if_splits)
  then show ?thesis
    using assms by (auto simp: pmm_alloc_pages_def Let_def split: if_splits lnode.splits)
qed

lemma pmm_init_first:
  assumes "pmm_init ms me s = Some s'" and "unat ((me - ms) div 4096) div 2048 = Suc n"
    and "first_block_addr ms (((me - ms) div 4096 + 7) div 8) = ms + 0x800000"
  shows "nxt (blinks s') (Lhead 11) = Lpage (ms + of_nat (Suc n * 0x800000))"
proof -
  let ?total = "(me - ms) div 4096"
  obtain s1 where "pmm_init ms me s = map_option snd (pmm_stats (pmm_init_blocks ms (ms + 0x800000) ?total s1))"
    using assms(3) by (simp add: pmm_init_def Let_def)
  then have "blinks s' = blinks (pmm_init_blocks ms (ms + 0x800000) ?total s1)"
    using assms(1) by (cases "bd_lock (pmm_init_blocks ms (ms + 0x800000) ?total s1) = 0")
      (auto simp: pmm_stats_def Let_def split: if_splits)
  then show ?thesis using pmm_init_blocks_first [OF assms(2), of ms "ms + 0x800000" s1]
    by (simp add: add.assoc)
qed

section \<open>Properties\<close>

text \<open>
  C1: In every consistent buddy state pmm_alloc_pages of a valid order returns: if some free block is
  large enough it hands out an aligned, non-null block of exactly 2^order frames that were free, and
  the state stays consistent with exactly these frames removed from the free ones; otherwise it
  returns 0 and changes nothing.
\<close>

theorem pmm_alloc_spec:
  assumes "buddy_inv s B" and "unat order \<le> 11"
  shows "case pmm_alloc_pages order s of
     None \<Rightarrow> False
   | Some (a, s') \<Rightarrow>
       if \<exists>x\<in>B. unat order \<le> fst x
       then good_block (base_addr s) (unat order, a) \<and> a \<noteq> 0 \<and>
         frames (unat order) a \<subseteq> free_frames B \<and> base_addr s' = base_addr s \<and>
         (\<exists>B'. buddy_inv s' B' \<and> free_frames B' = free_frames B - frames (unat order) a)
       else a = 0 \<and> s' = s"
proof (cases "\<exists>x\<in>B. unat order \<le> fst x")
  case True
  then obtain j c where jc: "(j, c) \<in> B" "unat order \<le> j" by (metis prod.collapse)
  obtain a s' B' where r: "pmm_alloc_pages order s = Some (a, s')" "buddy_inv s' B'"
    "base_addr s' = base_addr s" "held (base_addr s) B' (unat order, a)" "a \<noteq> 0"
    "frames (unat order) a \<union> free_frames B' = free_frames B"
    using pmm_alloc_some_left [OF assms jc] .
  then have "free_frames B' = free_frames B - frames (unat order) a" by (auto simp: held_def)
  with r True show ?thesis by (auto simp: held_def)
next
  case False
  then have "\<forall>(i, a)\<in>B. i < unat order" by (auto simp: not_le)
  with assms False show ?thesis by (simp add: pmm_alloc_none_left)
qed

lemma boot_blocks:
  obtains s where "pmm_init 0x01000000 0x02000000 buddy_bss = Some s"
    and "buddy_inv s (init_blocks 0x01800000 2)" and "base_addr s = 0x01000000"
    and "free_frames (init_blocks 0x01800000 2) = {0x1800..<0x2800}" and "managed_pages s = 4096"
proof -
  have "\<exists>s'. pmm_init 0x01000000 0x02000000 buddy_bss = Some s' \<and> base_addr s' = 0x01000000 \<and>
    managed_pages s' = (0x02000000 - 0x01000000) div 4096 \<and>
    buddy_inv s' (init_blocks (0x01000000 + 0x800000) 2) \<and>
    free_frames (init_blocks (0x01000000 + 0x800000) 2) =
      {pfn 0x01000000 + 2048 ..< pfn 0x01000000 + 2048 * Suc 2}"
    by (rule pmm_init_general) (simp_all add: aligned_def)
  then show thesis using that by (auto simp: pfn_def)
qed

lemma init_blocks_orders: "x \<in> init_blocks a n \<Longrightarrow> fst x = 11"
  by (auto simp: init_blocks_def block_at_def)

lemma init_blocks_first: "0 < n \<Longrightarrow> (11, a) \<in> init_blocks a n"
  by (force simp: init_blocks_def block_at_def)

lemma boot_first: "(11, 0x01800000) \<in> init_blocks 0x01800000 2"
  by (rule init_blocks_first) simp

lemma boot_alloc:
  assumes "buddy_inv s (init_blocks 0x01800000 2)" and "unat order \<le> 11"
  shows "\<exists>a s' B'. pmm_alloc_pages order s = Some (a, s') \<and> buddy_inv s' B' \<and>
    base_addr s' = base_addr s \<and> held (base_addr s) B' (unat order, a) \<and> a \<noteq> 0 \<and>
    frames (unat order) a \<union> free_frames B' = free_frames (init_blocks 0x01800000 2)"
  by (rule pmm_alloc_some_left [OF assms boot_first]) (use assms in auto)

theorem pmm_alloc_spec_witness:
  "\<exists>s a s'. pmm_init 0x01000000 0x02000000 buddy_bss = Some s \<and>
     pmm_alloc_pages 0 s = Some (a, s') \<and> a \<noteq> 0 \<and> frames 0 a \<subseteq> {0x1800..<0x2800}"
proof -
  obtain s where s: "pmm_init 0x01000000 0x02000000 buddy_bss = Some s"
    "buddy_inv s (init_blocks 0x01800000 2)" "base_addr s = 0x01000000"
    "free_frames (init_blocks 0x01800000 2) = {0x1800..<0x2800}" using boot_blocks .
  have ex: "\<exists>x\<in>init_blocks 0x01800000 2. unat (0::u32) \<le> fst x"
    using boot_first by auto
  have "unat (0::u32) \<le> 11" by simp
  from pmm_alloc_spec [OF s(2) this, unfolded if_P [OF ex] s(4)] s(1) show ?thesis
    by (auto split: option.splits prod.splits)
qed

text \<open>
  C2: Freeing a block that is held (aligned, inside the range, disjoint from the free blocks) returns,
  keeps the free lists consistent - counters, links, alignment, no two free buddies - and the free
  frames afterwards are the old ones together with those of the block.
\<close>

theorem pmm_free_spec:
  assumes "buddy_inv s B" and "unat order \<le> 11" and "held (base_addr s) B (unat order, a)"
  shows "case pmm_free_pages a order s of
     None \<Rightarrow> False
   | Some s' \<Rightarrow> base_addr s' = base_addr s \<and>
       (\<exists>B'. buddy_inv s' B' \<and> free_frames B' = free_frames B \<union> frames (unat order) a)"
  by (rule pmm_free_held [OF assms]) (auto simp: Un_commute)

theorem pmm_free_spec_witness:
  "\<exists>s a s1 s2 B. pmm_init 0x01000000 0x02000000 buddy_bss = Some s \<and>
     pmm_alloc_pages 3 s = Some (a, s1) \<and> pmm_free_pages a 3 s1 = Some s2 \<and>
     buddy_inv s2 B \<and> free_frames B = {0x1800..<0x2800}"
proof -
  obtain s where s: "pmm_init 0x01000000 0x02000000 buddy_bss = Some s"
    "buddy_inv s (init_blocks 0x01800000 2)" "base_addr s = 0x01000000"
    "free_frames (init_blocks 0x01800000 2) = {0x1800..<0x2800}" using boot_blocks .
  obtain a s1 B1 where a: "pmm_alloc_pages 3 s = Some (a, s1)" "buddy_inv s1 B1"
    "base_addr s1 = base_addr s" "held (base_addr s) B1 (unat (3::u32), a)"
    "frames (unat (3::u32)) a \<union> free_frames B1 = {0x1800..<0x2800}"
    using boot_alloc [where order = 3, OF s(2)] s(4) by auto
  have "case pmm_free_pages a 3 s1 of None \<Rightarrow> False
    | Some s' \<Rightarrow> base_addr s' = base_addr s1 \<and>
       (\<exists>B'. buddy_inv s' B' \<and> free_frames B' = free_frames B1 \<union> frames (unat (3::u32)) a)"
    by (rule pmm_free_spec [OF a(2)]) (use a(3,4) in simp_all)
  with a s(1) show ?thesis by (auto split: option.splits simp: Un_commute)
qed

text \<open>
  C14: Allocating pages and freeing them again restores the very same set of free blocks, however many
  splits the allocation made: the merge loop undoes the split loop.
\<close>

theorem pmm_alloc_free_same_blocks:
  assumes "buddy_inv s B" and "pmm_alloc_pages order s = Some (a, s1)" and "a \<noteq> 0"
  shows "\<exists>s2. pmm_free_pages a order s1 = Some s2 \<and> buddy_inv s2 B"
proof -
  have "pmm_ok (base_addr s) (free_frames B) s" using assms(1) by (auto simp: pmm_ok_def)
  from pa.alloc_release [OF this assms(2,3)] obtain s2 where
    "pmm_free_pages a order s1 = Some s2" "pmm_ok (base_addr s) (free_frames B) s2" .
  with pmm_ok_same_blocks [OF assms(1)] show ?thesis by blast
qed

theorem pmm_alloc_free_same_blocks_witness:
  "\<exists>s a s1 s2. buddy_inv s (init_blocks 0x01800000 2) \<and> pmm_alloc_pages 5 s = Some (a, s1) \<and>
     a \<noteq> 0 \<and> pmm_free_pages a 5 s1 = Some s2 \<and> buddy_inv s2 (init_blocks 0x01800000 2)"
proof -
  obtain s where s: "buddy_inv s (init_blocks 0x01800000 2)" using boot_blocks .
  obtain a s1 where a: "pmm_alloc_pages 5 s = Some (a, s1)" "a \<noteq> 0"
    using boot_alloc [where order = 5, OF s] by auto
  with pmm_alloc_free_same_blocks [OF s a] s show ?thesis by blast
qed

theorem pmm_free_order_irrelevant:
  assumes "buddy_inv s B" and "pmm_alloc_pages o1 s = Some (a1, s1)" and "a1 \<noteq> 0"
    and "pmm_alloc_pages o2 s1 = Some (a2, s2)" and "a2 \<noteq> 0"
  shows "frames (unat o1) a1 \<inter> frames (unat o2) a2 = {} \<and>
    (\<exists>s3 s4 t3 t4.
       pmm_free_pages a1 o1 s2 = Some s3 \<and> pmm_free_pages a2 o2 s3 = Some s4 \<and> buddy_inv s4 B \<and>
       pmm_free_pages a2 o2 s2 = Some t3 \<and> pmm_free_pages a1 o1 t3 = Some t4 \<and> buddy_inv t4 B)"
proof -
  have ok: "pmm_ok (base_addr s) (free_frames B) s" using assms(1) by (auto simp: pmm_ok_def)
  note allocs = this assms(2-5)
  obtain s3 s4 where 1: "pmm_free_pages a1 o1 s2 = Some s3" "pmm_free_pages a2 o2 s3 = Some s4"
    "pmm_ok (base_addr s) (free_frames B) s4" using pa.alloc_two_release [OF allocs] .
  obtain t3 t4 where 2: "pmm_free_pages a2 o2 s2 = Some t3" "pmm_free_pages a1 o1 t3 = Some t4"
    "pmm_ok (base_addr s) (free_frames B) t4" using pa.alloc_two_release_rev [OF allocs] .
  show ?thesis
    using 1 2 pa.alloc_disjoint [OF allocs] pmm_ok_same_blocks [OF assms(1)] by blast
qed

theorem pmm_free_order_irrelevant_witness:
  "\<exists>s a1 s1 a2 s2 s3 s4. buddy_inv s (init_blocks 0x01800000 2) \<and>
     pmm_alloc_pages 0 s = Some (a1, s1) \<and> pmm_alloc_pages 11 s1 = Some (a2, s2) \<and>
     a1 \<noteq> 0 \<and> a2 \<noteq> 0 \<and> pmm_free_pages a1 0 s2 = Some s3 \<and> pmm_free_pages a2 11 s3 = Some s4 \<and>
     buddy_inv s4 (init_blocks 0x01800000 2)"
proof -
  obtain s where s: "buddy_inv s (init_blocks 0x01800000 2)" "base_addr s = 0x01000000"
    "free_frames (init_blocks 0x01800000 2) = {0x1800..<0x2800}" using boot_blocks .
  obtain a1 s1 B1 where a1: "pmm_alloc_pages 0 s = Some (a1, s1)" "buddy_inv s1 B1" "a1 \<noteq> 0"
    "held (base_addr s) B1 (0, a1)" "base_addr s1 = base_addr s"
    "frames 0 a1 \<union> free_frames B1 = {0x1800..<0x2800}"
    using boot_alloc [where order = 0, OF s(1)] s(3) by auto
  have "\<exists>x\<in>B1. 11 \<le> fst x"
  proof -
    let ?lo = "{0x1800..<0x2000::nat}" and ?hi = "{0x2000..<0x2800::nat}"
    have al: "aligned 11 0x01800000" "aligned 11 0x02000000" by (simp_all add: aligned_def)
    have fr: "frames 11 0x01800000 = ?lo" "frames 11 0x02000000 = ?hi" by (simp_all add: frames_def pfn_def)
    have "frames 0 a1 = {pfn a1}" by (simp add: frames_def)
    then have all: "insert (pfn a1) (free_frames B1) = {0x1800..<0x2800}" using a1(6) by simp
    have "?lo \<subseteq> free_frames B1 \<or> ?hi \<subseteq> free_frames B1"
    proof (cases "pfn a1 < 0x2000")
      case True
      then have "?hi \<subseteq> insert (pfn a1) (free_frames B1) - {pfn a1}" unfolding all by auto
      then show ?thesis by blast
    next
      case False
      then have "?lo \<subseteq> insert (pfn a1) (free_frames B1) - {pfn a1}" unfolding all by auto
      then show ?thesis by blast
    qed
    then obtain b where b: "aligned 11 b" "frames 11 b \<subseteq> free_frames B1" using al fr by blast
    have "good_blocks (base_addr s1) B1" using a1(2) by (simp add: buddy_inv_def buddy_blocks_good)
    from covered_by_one [OF this b(1) _ b(2)] show ?thesis by force
  qed
  then obtain j c where "(j, c) \<in> B1" "unat (11::u32) \<le> j" by auto
  then obtain a2 s2 where a2: "pmm_alloc_pages 11 s1 = Some (a2, s2)" "a2 \<noteq> 0"
    by (auto intro: pmm_alloc_some_left [OF a1(2), of 11 j c])
  show ?thesis using pmm_free_order_irrelevant [OF s(1) a1(1,3) a2] s(1) a1(1,3) a2 by blast
qed

lemma first_page_is_memory_end:
  assumes "aligned 11 memory_start" and "memory_start \<noteq> 0" and "0 < n"
    and "memory_end = memory_start + of_nat (n * 0x800000)"
    and "unat memory_start + 0x800000 * Suc n \<le> 2 ^ 32" and "unat order \<le> 11"
  shows "\<exists>s1 s2. pmm_init memory_start memory_end s = Some s1 \<and>
    pmm_alloc_pages order s1 = Some (memory_end, s2)"
proof -
  have n: "n < 512" using assms(5) by simp
  obtain m where m: "n = Suc m" using assms(3) by (cases n) auto
  have total: "unat ((memory_end - memory_start) div 4096) = n * 2048"
  proof -
    have "unat (of_nat (n * 0x800000) :: u32) = n * 0x800000" using n by (intro unat_of_nat_small) simp
    then show ?thesis unfolding assms(4) by (simp add: unat_div)
  qed
  then have tn: "unat ((memory_end - memory_start) div 4096) div 2048 = n" by simp
  obtain s1 where s1: "pmm_init memory_start memory_end s = Some s1"
    "base_addr s1 = memory_start" "buddy_inv s1 (init_blocks (memory_start + 0x800000) n)"
    using pmm_init_general [OF assms(1,2) tn assms(3,5)] by blast
  have "unat (((memory_end - memory_start) div 4096 + 7) div 8) = (n * 2048 + 7) div 8"
    using n total by (simp add: unat_div unat_word_ariths)
  then have "first_block_addr memory_start (((memory_end - memory_start) div 4096 + 7) div 8) =
      memory_start + 0x800000"
    using assms(1,5) n m by (intro first_block_addr_eq) auto
  then have first: "nxt (blinks s1) (Lhead 11) = Lpage memory_end"
    using pmm_init_first [OF s1(1)] tn m assms(4) by simp
  obtain a s2 where a: "pmm_alloc_pages order s1 = Some (a, s2)" "a \<noteq> 0"
    using pmm_alloc_some_left [OF s1(3) assms(6) init_blocks_first [OF assms(3)] assms(6)] .
  let ?r = "find_free_order (unat order) (blinks s1)"
  have bb: "buddy_blocks s1 (init_blocks (memory_start + 0x800000) n)" using s1(3) by (simp add: buddy_inv_def)
  have "?r = 11"
  proof (rule ccontr)
    assume "?r \<noteq> 11"
    moreover have "?r \<le> 12" using find_free_order_le [of "unat order"] assms(6) by simp
    moreover have "\<not> list_empty (Lhead 11) (blinks s1)" using first by (simp add: list_empty_def)
    then have "\<not> ?r > MAX_ORDER" using find_free_order_none [of "unat order" "blinks s1" 11] assms(6) by auto
    ultimately have lt: "?r < 11" by simp
    then have "\<not> list_empty (Lhead ?r) (blinks s1)"
      using find_free_order_found [of "unat order" "blinks s1"] assms(6) by simp
    then obtain c where "(?r, c) \<in> init_blocks (memory_start + 0x800000) n"
      using buddy_blocks_empty [OF bb, of ?r] lt by auto
    then show False using lt init_blocks_orders by force
  qed
  then have "a = memory_end" using pmm_alloc_is_first [OF a] first by simp
  with s1 a show ?thesis by blast
qed

text \<open>
  C31: For a range whose start is 8 MiB aligned and whose size is a multiple of 8 MiB, as in the
  kernel's own configuration, the first allocation after pmm_init, of any order, returns the block
  that starts at memory_end, so the allocator hands out memory behind the range it was given.
\<close>

theorem pmm_first_page_is_memory_end:
  assumes "aligned 11 memory_start" and "memory_start \<noteq> 0" and "0 < n"
    and "memory_end = memory_start + of_nat (n * 0x800000)"
    and "unat memory_start + 0x800000 * Suc n \<le> 2 ^ 32" and "unat order \<le> 11"
  shows "\<exists>s1 s2. pmm_init memory_start memory_end s = Some s1 \<and>
    pmm_alloc_pages order s1 = Some (memory_end, s2)"
  using assms by (rule first_page_is_memory_end)

theorem pmm_first_page_is_memory_end_witness:
  "\<exists>s1 s2. pmm_init 0x01000000 0x02000000 buddy_bss = Some s1 \<and>
     pmm_alloc_pages 8 s1 = Some (0x02000000, s2)"
  by (rule pmm_first_page_is_memory_end [where n = 2]) (simp_all add: aligned_def)

lemma total_free_pages_lock [simp]: "total_free_pages (s\<lparr>bd_lock := l\<rparr>) = total_free_pages s"
  by (simp add: total_free_pages_def)

theorem pmm_stats_counts:
  assumes "buddy_inv s B" and "managed_pages s \<noteq> 0"
  shows "pmm_stats s =
    (let free = of_nat (card (free_frames B)); used = managed_pages s - free
     in Some ((used, free, used * 100 div managed_pages s), s))"
  using assms total_free_pages_card [of s B]
  by (simp add: pmm_stats_def Let_def buddy_inv_def)

theorem pmm_stats_counts_witness:
  "\<exists>s. managed_pages s = 4096 \<and> buddy_inv s (init_blocks 0x01800000 2) \<and>
     pmm_stats s = Some ((0, 4096, 0), s)"
proof -
  obtain s where s: "buddy_inv s (init_blocks 0x01800000 2)" "managed_pages s = 4096"
    "free_frames (init_blocks 0x01800000 2) = {0x1800..<0x2800}" using boot_blocks .
  then have "pmm_stats s = Some ((0, 4096, 0), s)"
    using pmm_stats_counts [OF s(1)] by (simp add: Let_def)
  with s show ?thesis by blast
qed

end
