(* ===== verification/TempMap.thy ===== *)
theory TempMap
  imports Paging PmmInit
begin

text \<open>
  The temporary mappings of \<open>kernel/mm/temp_mapping.c\<close>: four slots below \<open>0xC03FF000\<close> through which
  the kernel reaches any physical page, and the functions that write page-table entries. The state
  is the machine's (\<open>cr3\<close> and physical memory), the page allocator's and the slot manager's; the
  page allocator's list nodes, which it keeps in free pages, are part of its own record. Log output
  is left out.
\<close>

section \<open>State\<close>

definition TEMP_MAPPING_ADDR :: u32 where [simp]: "TEMP_MAPPING_ADDR = 0xC03FF000"
definition TEMP_MAPPING_COUNT :: nat where [simp]: "TEMP_MAPPING_COUNT = 4"

record vm_state =
  cr3 :: u32
  pmem :: mem
  buddy :: buddy_system
  temp_lock :: u32
  available_slots :: u32
  ref_count :: "nat \<Rightarrow> u32"

definition temp_mapping_init :: "vm_state \<Rightarrow> vm_state" where
  "temp_mapping_init s =
     (let s = s\<lparr>temp_lock := spinlock_init (temp_lock s)\<rparr>;
          s = s\<lparr>available_slots := push_bit TEMP_MAPPING_COUNT 1 - 1\<rparr>
      in fold (\<lambda>i s. s\<lparr>ref_count := (ref_count s)(i := 0)\<rparr>) [0..<TEMP_MAPPING_COUNT] s)"

section \<open>Accesses of the kernel\<close>

definition kread :: "u32 \<Rightarrow> vm_state \<Rightarrow> u32 option" where
  "kread va s = vread32 (cr3 s) va (pmem s)"

definition kwrite :: "u32 \<Rightarrow> u32 \<Rightarrow> vm_state \<Rightarrow> vm_state option" where
  "kwrite va v s = do { m \<leftarrow> vwrite32 (cr3 s) va v (pmem s); Some (s\<lparr>pmem := m\<rparr>) }"

definition kmemset :: "u32 \<Rightarrow> u8 \<Rightarrow> u32 \<Rightarrow> vm_state \<Rightarrow> vm_state option" where
  "kmemset ptr v n s = do { m \<leftarrow> vmemset (cr3 s) ptr v (unat n) (pmem s); Some (s\<lparr>pmem := m\<rparr>) }"

definition kmemcpy :: "u32 \<Rightarrow> u32 \<Rightarrow> u32 \<Rightarrow> vm_state \<Rightarrow> vm_state option" where
  "kmemcpy d sr n s = do { m \<leftarrow> vmemcpy (cr3 s) d sr (unat n) (pmem s); Some (s\<lparr>pmem := m\<rparr>) }"

section \<open>Operations\<close>

definition unmap_page :: "u32 \<Rightarrow> vm_state \<Rightarrow> vm_state option" where
  "unmap_page virtual_addr s =
     (let page_dir_index = drop_bit 22 virtual_addr;
          page_tab_index = drop_bit 12 virtual_addr AND 0x3FF;
          page_table = 0xFFC00000 OR push_bit 12 page_dir_index
      in kwrite (page_table + 4 * page_tab_index) 0 s)"

definition temp_unmap_page :: "u32 \<Rightarrow> vm_state \<Rightarrow> vm_state option" where
  "temp_unmap_page virtual_addr s =
     (if virtual_addr < TEMP_MAPPING_ADDR - (of_nat TEMP_MAPPING_COUNT - 1) * PAGE_SIZE \<or>
         virtual_addr > TEMP_MAPPING_ADDR then Some s
      else do {
        l \<leftarrow> spinlock_acquire (temp_lock s);
        let s = s\<lparr>temp_lock := l\<rparr>;
        let slot = (TEMP_MAPPING_ADDR - virtual_addr) div PAGE_SIZE;
        if sint slot < 0 \<or> sint slot \<ge> int TEMP_MAPPING_COUNT then
          Some (s\<lparr>temp_lock := spinlock_release (temp_lock s)\<rparr>)
        else if ref_count s (unat slot) = 0 then
          Some (s\<lparr>temp_lock := spinlock_release (temp_lock s)\<rparr>)
        else do {
          let s = s\<lparr>ref_count := (ref_count s)(unat slot := ref_count s (unat slot) - 1)\<rparr>;
          s \<leftarrow> (if ref_count s (unat slot) = 0 then do {
                 s \<leftarrow> unmap_page virtual_addr s;
                 Some (s\<lparr>available_slots := available_slots s OR push_bit (unat slot) 1\<rparr>)
               } else Some s);
          Some (s\<lparr>temp_lock := spinlock_release (temp_lock s)\<rparr>)
        }
      })"

text \<open>The search for a free slot.\<close>

definition find_slot :: "u32 \<Rightarrow> nat option" where
  "find_slot slots = List.find (\<lambda>i. slots AND push_bit i 1 \<noteq> 0) [0..<TEMP_MAPPING_COUNT]"

text \<open>
  \<open>temp_map_page\<close> and \<open>map_page\<close> call each other: the one recursive definition takes the call as its
  argument. The result of a \<open>map_page\<close> call is not used. \<open>None\<close> is a page fault or a lock that is
  never released.
\<close>

datatype tm_call = Temp_map u32 | Map_page u32 u32 u32

partial_function (option) map_call :: "tm_call \<Rightarrow> vm_state \<Rightarrow> (u32 \<times> vm_state) option" where
  "map_call call s =
     (case call of
        Temp_map physical_addr \<Rightarrow>
          if physical_addr AND 0xFFF \<noteq> 0 then Some (0, s)
          else do {
            l \<leftarrow> spinlock_acquire (temp_lock s);
            let s = s\<lparr>temp_lock := l\<rparr>;
            case find_slot (available_slots s) of
              None \<Rightarrow> Some (0, s\<lparr>temp_lock := spinlock_release (temp_lock s)\<rparr>)
            | Some slot \<Rightarrow> do {
                let virtual_addr = TEMP_MAPPING_ADDR - of_nat slot * PAGE_SIZE;
                (_, s) \<leftarrow> map_call (Map_page virtual_addr physical_addr 0x03) s;
                let s = s\<lparr>available_slots := available_slots s AND NOT (push_bit slot 1)\<rparr>;
                let s = s\<lparr>ref_count := (ref_count s)(slot := ref_count s slot + 1)\<rparr>;
                Some (virtual_addr, s\<lparr>temp_lock := spinlock_release (temp_lock s)\<rparr>)
              }
          }
      | Map_page virtual_addr physical_addr flags \<Rightarrow> do {
          let page_dir_index = drop_bit 22 virtual_addr;
          let page_tab_index = drop_bit 12 virtual_addr AND 0x3FF;
          let page_dir = 0xFFFFF000;
          pde \<leftarrow> kread (page_dir + 4 * page_dir_index) s;
          s \<leftarrow> (if pde AND 1 = 0 then do {
                 (new_page_table, b) \<leftarrow> pmm_alloc_pages 0 (buddy s);
                 (temp_mapping, s) \<leftarrow> map_call (Temp_map new_page_table) (s\<lparr>buddy := b\<rparr>);
                 s \<leftarrow> kmemset temp_mapping 0 PAGE_SIZE s;
                 s \<leftarrow> kwrite (page_dir + 4 * page_dir_index) (new_page_table OR flags) s;
                 temp_unmap_page temp_mapping s
               } else Some s);
          let page_table = 0xFFC00000 OR push_bit 12 page_dir_index;
          s \<leftarrow> kwrite (page_table + 4 * page_tab_index) (physical_addr OR flags) s;
          Some (0, s)
        })"

definition temp_map_page :: "u32 \<Rightarrow> vm_state \<Rightarrow> (u32 \<times> vm_state) option" where
  "temp_map_page physical_addr s = map_call (Temp_map physical_addr) s"

definition map_page :: "u32 \<Rightarrow> u32 \<Rightarrow> u32 \<Rightarrow> vm_state \<Rightarrow> vm_state option" where
  "map_page virtual_addr physical_addr flags s =
     map_option snd (map_call (Map_page virtual_addr physical_addr flags) s)"

definition temp_get_mapping :: "u32 \<Rightarrow> vm_state \<Rightarrow> (u32 \<times> vm_state) option" where
  "temp_get_mapping physical_addr s = do {
     (virtual_addr, s) \<leftarrow> temp_map_page physical_addr s;
     Some (virtual_addr, s)
   }"

section \<open>Entries through the recursive mapping\<close>

lemma kwrite_pte:
  assumes "self_mapped (cr3 s) (pmem s)" and "pde_of (cr3 s) (pmem s) va AND 1 \<noteq> 0"
  shows "kwrite ((0xFFC00000 OR push_bit 12 (drop_bit 22 va)) + 4 * (drop_bit 12 va AND 0x3FF)) v s =
    Some (s\<lparr>pmem := store32 (pte_addr (cr3 s) (pmem s) va) v (pmem s)\<rparr>)"
proof -
  have "translate (cr3 s) (pmem s) ((0xFFC00000 OR push_bit 12 (pdx va)) + 4 * ptx va) =
      Some (pte_addr (cr3 s) (pmem s) va)"
    using walk_table [OF assms(1) pdx_lt ptx_lt, of va va] assms(2)
    by (simp add: pde_of_def pte_addr_def entry_pdx entry_ptx)
  then show ?thesis by (simp add: kwrite_def vwrite32_def pdx_def ptx_def)
qed

lemma kread_pde:
  assumes "self_mapped (cr3 s) (pmem s)"
  shows "kread (0xFFFFF000 + 4 * drop_bit 22 va) s = Some (pde_of (cr3 s) (pmem s) va)"
proof -
  have "translate (cr3 s) (pmem s) (0xFFFFF000 + 4 * pdx va) = Some (entry (cr3 s) (unat (pdx va)))"
    using walk_directory [OF assms pdx_lt, of va] by simp
  then show ?thesis by (simp add: kread_def vread32_def pdx_def pde_of_def entry_def)
qed

lemma map_page_present:
  assumes "self_mapped (cr3 s) (pmem s)" and "pde_of (cr3 s) (pmem s) va AND 1 \<noteq> 0"
  shows "map_call (Map_page va pa fl) s = Some (0, s\<lparr>pmem := store32 (pte_addr (cr3 s) (pmem s) va) (pa OR fl) (pmem s)\<rparr>)"
  using kread_pde [OF assms(1), of va] kwrite_pte [OF assms, of "pa OR fl"] assms(2)
  by (subst map_call.simps) (simp add: Let_def)

lemma unmap_page_present:
  assumes "self_mapped (cr3 s) (pmem s)" and "pde_of (cr3 s) (pmem s) va AND 1 \<noteq> 0"
  shows "unmap_page va s = Some (s\<lparr>pmem := store32 (pte_addr (cr3 s) (pmem s) va) 0 (pmem s)\<rparr>)"
  using kwrite_pte [OF assms, of 0] by (simp add: unmap_page_def Let_def)

text \<open>How one page-table entry changes translation.\<close>

lemma translate_store_pte:
  assumes "page_aligned dir" and "frame (pde_of dir m va) \<noteq> dir" and "pde_of dir m va AND 1 \<noteq> 0"
  shows "translate dir (store32 (pte_addr dir m va) v m) va' =
    (if pde_of dir m va' AND 1 \<noteq> 0 \<and> pte_addr dir m va' = pte_addr dir m va
     then if v AND 1 = 0 then None else Some (frame v + (va' AND 0xFFF))
     else translate dir m va')"
proof -
  let ?m = "store32 (pte_addr dir m va) v m"
  have same: "same_frame dir m ?m"
    unfolding pte_addr_def entry_ptx using assms(2) by (intro store_entry_same_frame ptx_lt) simp_all
  have pde: "pde_of dir ?m w = pde_of dir m w" for w
    using load_entry_cong [OF same assms(1) pdx_lt] by (simp add: pde_of_def entry_pdx)
  then have pa: "pte_addr dir ?m w = pte_addr dir m w" for w by (simp add: pte_addr_def)
  have word: "word_addr (pte_addr dir m w)" for w
    by (simp add: pte_addr_def entry_ptx ptx_lt)
  show ?thesis
    using load32_store32_other [OF word word] by (auto simp: translate_def pde pa Let_def)
qed

section \<open>The window of a slot\<close>

definition slot_va :: "nat \<Rightarrow> u32" where
  "slot_va k = TEMP_MAPPING_ADDR - of_nat k * PAGE_SIZE"

lemma slot_va_unat: "k < 4 \<Longrightarrow> unat off < 4096 \<Longrightarrow> unat (slot_va k + off) = 3225415680 - 4096 * k + unat off"
proof -
  assume k: "k < 4" and off: "unat off < 4096"
  have kn: "unat (of_nat k :: u32) = k" using k by (intro unat_of_nat_small) simp
  then have m: "unat (of_nat k * 4096 :: u32) = 4096 * k" using k by (subst unat_mult_no_wrap) simp_all
  then have "unat (slot_va k) = 3225415680 - 4096 * k"
    using k by (simp add: slot_va_def unat_sub_if')
  then show ?thesis using off k by (subst unat_add_no_wrap) simp_all
qed

lemma slot_va_index:
  assumes "k < 4" and "unat off < 4096"
  shows "unat (pdx (slot_va k + off)) = 768" and "unat (ptx (slot_va k + off)) = 1023 - k"
    and "(slot_va k + off) AND 0xFFF = off"
proof -
  have "k = 0 \<or> k = 1 \<or> k = 2 \<or> k = 3" using assms(1) by auto
  then obtain c where c: "unat (slot_va k + off) = 3225415680 - 4096 * k + unat off"
    "3225415680 - 4096 * k = 4096 * c" "c = 787455 - k"
    using slot_va_unat [OF assms] by auto
  have d: "unat (slot_va k + off) div 4096 = c" "unat (slot_va k + off) mod 4096 = unat off"
    using assms(2) unfolding c(1,2) by simp_all
  have "unat (slot_va k + off) div 4194304 = unat (slot_va k + off) div 4096 div 1024"
    by (simp add: div_mult2_eq [symmetric])
  then have "unat (slot_va k + off) div 4194304 = c div 1024" by (simp only: d(1))
  also have "\<dots> = 768" using \<open>k = 0 \<or> _\<close> c(3) by auto
  finally show "unat (pdx (slot_va k + off)) = 768" by (simp add: pdx_unat)
  have "c mod 1024 = 1023 - k" using \<open>k = 0 \<or> _\<close> c(3) by auto
  then show "unat (ptx (slot_va k + off)) = 1023 - k" using d(1) by (simp add: ptx_unat)
  have "unat ((slot_va k + off) AND 0xFFF) = unat off" using d(2) by (simp add: and_mask_unat)
  then show "(slot_va k + off) AND 0xFFF = off" by (rule unsigned_word_eqI)
qed

text \<open>
  The kernel's tables: the recursive entry and the table that entry 768 of the directory names, the
  one with the slots.
\<close>

definition kernel_tables :: "u32 \<Rightarrow> u32 \<Rightarrow> mem \<Rightarrow> bool" where
  "kernel_tables dir T m \<longleftrightarrow> self_mapped dir m \<and> frame (load32 m (entry dir 768)) = T \<and>
     load32 m (entry dir 768) AND 1 \<noteq> 0 \<and> T \<noteq> dir"

lemma kernel_tables_aligned: "kernel_tables dir T m \<Longrightarrow> page_aligned dir \<and> page_aligned T"
  by (auto simp: kernel_tables_def self_mapped_def)

lemma kernel_tables_cong:
  assumes "kernel_tables dir T m" and "same_frame dir m m'"
  shows "kernel_tables dir T m'"
  using assms load_entry_cong [OF assms(2)] kernel_tables_aligned [OF assms(1)]
  by (simp add: kernel_tables_def self_mapped_def)

lemma slot_pde:
  assumes "kernel_tables dir T m" and "k < 4" and "unat off < 4096"
  shows "pde_of dir m (slot_va k + off) AND 1 \<noteq> 0" and "pte_addr dir m (slot_va k + off) = entry T (1023 - k)"
  using assms slot_va_index [OF assms(2,3)]
  by (simp_all add: pde_of_def pte_addr_def entry_pdx entry_ptx kernel_tables_def)

text \<open>The slots in use, and the frame each of them shows.\<close>

definition temp_inv :: "u32 \<Rightarrow> u32 \<Rightarrow> (nat \<Rightarrow> u32 option) \<Rightarrow> vm_state \<Rightarrow> bool" where
  "temp_inv dir T A s \<longleftrightarrow> cr3 s = dir \<and> kernel_tables dir T (pmem s) \<and> temp_lock s = 0 \<and>
     (\<forall>k<4. (available_slots s AND push_bit k 1 = 0 \<longleftrightarrow> A k \<noteq> None) \<and> ref_count s k = (if A k = None then 0 else 1)) \<and>
     (\<forall>k<4. \<forall>f. A k = Some f \<longrightarrow> page_aligned f \<and> load32 (pmem s) (entry T (1023 - k)) = f OR 3)"

lemma temp_invD:
  assumes "temp_inv dir T A s"
  shows "cr3 s = dir" and "kernel_tables dir T (pmem s)" and "temp_lock s = 0"
    and "page_aligned dir" and "page_aligned T" and "T \<noteq> dir"
    and "\<And>k f. k < 4 \<Longrightarrow> A k = Some f \<Longrightarrow> page_aligned f \<and> load32 (pmem s) (entry T (1023 - k)) = f OR 3"
  using assms kernel_tables_aligned [of dir T "pmem s"] by (auto simp: temp_inv_def kernel_tables_def)

lemma window_translate:
  assumes "temp_inv dir T A s" and "k < 4" and "A k = Some f" and "unat off < 4096"
  shows "translate dir (pmem s) (slot_va k + off) = Some (f + off)"
proof -
  have f: "page_aligned f" "load32 (pmem s) (entry T (1023 - k)) = f OR 3" using temp_invD(7) [OF assms(1-3)] by auto
  have "(f OR 3) AND 1 \<noteq> 0" using or_present [of f 3] by auto
  then show ?thesis
    using slot_pde [OF temp_invD(2) [OF assms(1)] assms(2,4)] f slot_va_index(3) [OF assms(2,4)]
    by (simp add: translate_def or_flags_frame)
qed

text \<open>Memory outside the directory and the slots' table may change.\<close>

lemma temp_inv_mem:
  assumes "temp_inv dir T A s" and "same_frame dir (pmem s) m" and "same_frame T (pmem s) m"
  shows "temp_inv dir T A (s\<lparr>pmem := m\<rparr>)"
  using assms kernel_tables_cong [OF temp_invD(2) [OF assms(1)] assms(2)]
    load_entry_cong [OF assms(3) temp_invD(5) [OF assms(1)]]
  by (simp add: temp_inv_def)

section \<open>Mapping and unmapping a slot\<close>

lemma slot_bit: "slots AND 2 ^ k = 0 \<longleftrightarrow> \<not> bit (slots :: u32) k"
  using bit_iff_and_push_bit_not_eq_0 [of slots k] by (simp add: push_bit_eq_mult)

lemma clear_slot_bit: "k < 4 \<Longrightarrow> bit ((slots :: u32) AND NOT (2 ^ k)) j \<longleftrightarrow> bit slots j \<and> j \<noteq> k"
  by (auto simp: bit_simps dest: bit_imp_le_length)

lemma set_slot_bit: "k < 4 \<Longrightarrow> bit ((slots :: u32) OR 2 ^ k) j \<longleftrightarrow> bit slots j \<or> j = k"
  by (auto simp: bit_simps)

definition first_slot :: "(nat \<Rightarrow> u32 option) \<Rightarrow> nat option" where
  "first_slot A = List.find (\<lambda>k. A k = None) [0..<4]"

lemma first_slotD: "first_slot A = Some k \<Longrightarrow> k < 4 \<and> A k = None"
  by (auto simp: first_slot_def find_Some_iff)

lemma find_slot_inv: "temp_inv dir T A s \<Longrightarrow> find_slot (available_slots s) = first_slot A"
  unfolding find_slot_def first_slot_def by (intro find_cong) (auto simp: temp_inv_def)

lemma temp_map_none: "temp_inv dir T A s \<Longrightarrow> page_aligned f \<Longrightarrow> first_slot A = None \<Longrightarrow> temp_map_page f s = Some (0, s)"
  unfolding temp_map_page_def
  by (subst map_call.simps) (simp add: page_aligned_def temp_invD(3) find_slot_inv)

lemma temp_map_unaligned: "\<not> page_aligned f \<Longrightarrow> temp_map_page f s = Some (0, s)"
  unfolding temp_map_page_def by (subst map_call.simps) (simp add: page_aligned_def)

lemma temp_map_ok:
  assumes inv: "temp_inv dir T A s" and f: "page_aligned f" and k: "first_slot A = Some k"
  obtains s' where "temp_map_page f s = Some (slot_va k, s')" and "temp_inv dir T (A(k \<mapsto> f)) s'"
    and "pmem s' = store32 (entry T (1023 - k)) (f OR 3) (pmem s)" and "buddy s' = buddy s"
    and "available_slots s' = available_slots s AND NOT (push_bit k 1)"
    and "ref_count s' = (ref_count s)(k := 1)"
proof -
  let ?m = "store32 (entry T (1023 - k)) (f OR 3) (pmem s)"
  let ?s' = "s\<lparr>pmem := ?m, available_slots := available_slots s AND NOT (push_bit k 1), ref_count := (ref_count s)(k := 1)\<rparr>"
  have k4: "k < 4" "A k = None" using first_slotD [OF k] by auto
  note d = temp_invD [OF inv]
  note pde = slot_pde [OF d(2) k4(1), of 0, simplified]
  have "self_mapped dir (pmem s)" using d(2) by (simp add: kernel_tables_def)
  with map_page_present [of "s\<lparr>temp_lock := 1\<rparr>" "slot_va k" f 3] pde d(1)
  have map: "map_call (Map_page (slot_va k) f 3) (s\<lparr>temp_lock := 1\<rparr>) = Some (0, s\<lparr>temp_lock := 1, pmem := ?m\<rparr>)"
    by simp
  have rc: "ref_count s k = 0" using inv k4 by (simp add: temp_inv_def)
  have result: "temp_map_page f s = Some (slot_va k, ?s')"
    using f d(3) map rc unfolding temp_map_page_def
    by (subst map_call.simps) (simp add: page_aligned_def find_slot_inv [OF inv] k slot_va_def)
  have dir: "same_frame dir (pmem s) ?m" using d(5,6) by (intro store_entry_same_frame) simp_all
  have "load32 ?m (entry T (1023 - j)) = (if j = k then f OR 3 else load32 (pmem s) (entry T (1023 - j)))" if "j < 4" for j
    using load_entry_store [OF d(5) d(5), of "1023 - k" "1023 - j"] that k4(1) by auto
  then have "temp_inv dir T (A(k \<mapsto> f)) ?s'"
    using inv f k4(1) kernel_tables_cong [OF d(2) dir]
    by (auto simp: temp_inv_def slot_bit clear_slot_bit)
  with result show thesis using that by simp
qed

lemma slot_of_va: "k < 4 \<Longrightarrow> (TEMP_MAPPING_ADDR - slot_va k) div PAGE_SIZE = of_nat k"
  and slot_va_range: "k < 4 \<Longrightarrow> \<not> (slot_va k < TEMP_MAPPING_ADDR - (of_nat TEMP_MAPPING_COUNT - 1) * PAGE_SIZE \<or> slot_va k > TEMP_MAPPING_ADDR)"
proof -
  assume "k < 4"
  then have k: "k = 0 \<or> k = 1 \<or> k = 2 \<or> k = 3" by auto
  then show "(TEMP_MAPPING_ADDR - slot_va k) div PAGE_SIZE = of_nat k" by (auto simp: slot_va_def)
  show "\<not> (slot_va k < TEMP_MAPPING_ADDR - (of_nat TEMP_MAPPING_COUNT - 1) * PAGE_SIZE \<or> slot_va k > TEMP_MAPPING_ADDR)"
    using k by (auto simp: slot_va_def)
qed

lemma sint_slot: "k < 4 \<Longrightarrow> sint (of_nat k :: u32) = int k"
proof -
  assume "k < 4"
  then have "k = 0 \<or> k = 1 \<or> k = 2 \<or> k = 3" by auto
  then show ?thesis by auto
qed

lemma temp_unmap_ok:
  assumes inv: "temp_inv dir T A s" and k: "k < 4" "A k = Some f"
  obtains s' where "temp_unmap_page (slot_va k) s = Some s'" and "temp_inv dir T (A(k := None)) s'"
    and "pmem s' = store32 (entry T (1023 - k)) 0 (pmem s)" and "buddy s' = buddy s"
    and "available_slots s' = available_slots s OR push_bit k 1" and "ref_count s' = (ref_count s)(k := 0)"
proof -
  let ?m = "store32 (entry T (1023 - k)) 0 (pmem s)"
  let ?s' = "s\<lparr>pmem := ?m, available_slots := available_slots s OR push_bit k 1, ref_count := (ref_count s)(k := 0)\<rparr>"
  note d = temp_invD [OF inv]
  note pde = slot_pde [OF d(2) k(1), of 0, simplified]
  have self: "self_mapped dir (pmem s)" using d(2) by (simp add: kernel_tables_def)
  have rc: "ref_count s k = 1" using inv k by (simp add: temp_inv_def)
  have un: "unat (of_nat k :: u32) = k" using k(1) by (intro unat_of_nat_small) simp
  have unmap: "unmap_page (slot_va k) t = Some (t\<lparr>pmem := ?m\<rparr>)" if "cr3 t = dir" "pmem t = pmem s" for t
    using unmap_page_present [of t "slot_va k"] self pde that by simp
  have result: "temp_unmap_page (slot_va k) s = Some ?s'"
    unfolding temp_unmap_page_def if_not_P [OF slot_va_range [OF k(1)]]
    using k(1) d(1,3) rc un by (simp add: Let_def slot_of_va sint_slot unmap del: TEMP_MAPPING_ADDR_def PAGE_SIZE_def)
  have dir: "same_frame dir (pmem s) ?m" using d(5,6) by (intro store_entry_same_frame) simp_all
  have "load32 ?m (entry T (1023 - j)) = load32 (pmem s) (entry T (1023 - j))" if "j < 4" "j \<noteq> k" for j
    using load_entry_store [OF d(5) d(5), of "1023 - k" "1023 - j"] that k(1) by auto
  then have "temp_inv dir T (A(k := None)) ?s'"
    using inv kernel_tables_cong [OF d(2) dir] k
    by (auto simp: temp_inv_def slot_bit set_slot_bit)
  with result show thesis using that by simp
qed

section \<open>Pages seen through a window\<close>

text \<open>The virtual page at \<open>va\<close> shows frame \<open>f\<close>, also after changes outside the two table frames.\<close>

definition shows_frame :: "u32 \<Rightarrow> u32 \<Rightarrow> u32 \<Rightarrow> u32 \<Rightarrow> mem \<Rightarrow> bool" where
  "shows_frame dir T va f m \<longleftrightarrow>
     (\<forall>m'. same_frame dir m m' \<and> same_frame T m m' \<longrightarrow>
       (\<forall>off. unat off < 4096 \<longrightarrow> translate dir m' (va + off) = Some (f + off)))"

lemma shows_frameD: "shows_frame dir T va f m \<Longrightarrow> unat off < 4096 \<Longrightarrow> translate dir m (va + off) = Some (f + off)"
  by (auto simp: shows_frame_def)

lemma shows_frame_mono:
  "shows_frame dir T va f m \<Longrightarrow> same_frame dir m m' \<Longrightarrow> same_frame T m m' \<Longrightarrow> shows_frame dir T va f m'"
  unfolding shows_frame_def using same_frame_trans by blast

lemma slot_shows_frame:
  assumes "temp_inv dir T A s" and "k < 4" and "A k = Some f"
  shows "shows_frame dir T (slot_va k) f (pmem s)"
  using window_translate [OF temp_inv_mem [OF assms(1)] assms(2,3)] by (simp add: shows_frame_def)

lemma byte_same_frame: "frame a \<noteq> f \<Longrightarrow> same_frame f m (m(a := v))"
  by (auto simp: same_frame_def)

lemma of_nat_offset: "i < 4096 \<Longrightarrow> unat (of_nat i :: u32) = i"
  by (intro unat_of_nat_small) simp

definition fill_frame :: "u32 \<Rightarrow> nat \<Rightarrow> nat \<Rightarrow> (nat \<Rightarrow> u8) \<Rightarrow> mem \<Rightarrow> mem" where
  "fill_frame f i n c m = (\<lambda>a. if frame a = f \<and> i \<le> unat (a AND 0xFFF) \<and> unat (a AND 0xFFF) < i + n
     then c (unat (a AND 0xFFF)) else m a)"

lemma fill_frame_0: "fill_frame f i 0 c m = m"
  by (rule ext) (auto simp: fill_frame_def)

lemma fill_frame_Suc:
  assumes "page_aligned f" and "i < 4096"
  shows "fill_frame f (Suc i) n c (m(f + of_nat i := c i)) = fill_frame f i (Suc n) c m"
proof
  fix a
  have "a = f + of_nat i \<longleftrightarrow> frame a = f \<and> unat (a AND 0xFFF) = i"
  proof -
    have "a AND 0xFFF = of_nat i \<longleftrightarrow> unat (a AND 0xFFF) = i"
      using of_nat_offset [OF assms(2)] by (metis unsigned_word_eqI)
    then show ?thesis using address_iff [OF assms(1), of "of_nat i" a] assms(2) by (simp add: of_nat_offset)
  qed
  then show "fill_frame f (Suc i) n c (m(f + of_nat i := c i)) a = fill_frame f i (Suc n) c m a"
    by (auto simp: fill_frame_def)
qed

lemma fill_same_frame: "g \<noteq> f \<Longrightarrow> same_frame g m (fill_frame f i n c m)"
  by (auto simp: same_frame_def fill_frame_def)

lemma vmemset_window:
  "shows_frame dir T va f m \<Longrightarrow> page_aligned f \<Longrightarrow> f \<noteq> dir \<Longrightarrow> f \<noteq> T \<Longrightarrow> i + n \<le> 4096 \<Longrightarrow>
   vmemset dir (va + of_nat i) v n m = Some (fill_frame f i n (\<lambda>_. v) m)"
proof (induction n arbitrary: i m)
  case (Suc n)
  have i: "i < 4096" using Suc.prems by simp
  let ?m = "m(f + of_nat i := v)"
  have fr: "frame (f + of_nat i) = f"
    using Suc.prems(2) i by (intro frame_of_aligned) (simp_all add: of_nat_offset)
  have w: "vwrite8 dir (va + of_nat i) v m = Some ?m"
    using shows_frameD [OF Suc.prems(1), of "of_nat i"] i by (simp add: vwrite8_def of_nat_offset)
  have "vmemset dir (va + of_nat (Suc i)) v n ?m = Some (fill_frame f (Suc i) n (\<lambda>_. v) ?m)"
    using Suc.prems fr
    by (intro Suc.IH shows_frame_mono [OF Suc.prems(1)] byte_same_frame) simp_all
  then show ?case using w fill_frame_Suc [OF Suc.prems(2) i, of n "\<lambda>_. v" m] by (simp add: add.commute add.left_commute)
qed (simp add: fill_frame_0)

lemma vmemcpy_window:
  "shows_frame dir T d f m \<Longrightarrow> shows_frame dir T sr g m \<Longrightarrow> page_aligned f \<Longrightarrow> page_aligned g \<Longrightarrow> f \<noteq> dir \<Longrightarrow> f \<noteq> T \<Longrightarrow> f \<noteq> g \<Longrightarrow>
   i + n \<le> 4096 \<Longrightarrow> (\<And>j. j < 4096 \<Longrightarrow> m (g + of_nat j) = c j) \<Longrightarrow>
   vmemcpy dir (d + of_nat i) (sr + of_nat i) n m = Some (fill_frame f i n c m)"
proof (induction n arbitrary: i m)
  case (Suc n)
  have i: "i < 4096" using Suc.prems by simp
  let ?m = "m(f + of_nat i := c i)"
  have fr: "frame (f + of_nat j) = f" "frame (g + of_nat j) = g" if "j < 4096" for j
    using Suc.prems(3,4) that by (simp_all add: frame_of_aligned of_nat_offset)
  have r: "vread8 dir (sr + of_nat i) m = Some (c i)"
    using shows_frameD [OF Suc.prems(2), of "of_nat i"] i Suc.prems(9) by (simp add: vread8_def of_nat_offset)
  have w: "vwrite8 dir (d + of_nat i) (c i) m = Some ?m"
    using shows_frameD [OF Suc.prems(1), of "of_nat i"] i by (simp add: vwrite8_def of_nat_offset)
  have "?m (g + of_nat j) = c j" if "j < 4096" for j
    using Suc.prems(7,9) that fr [OF that] fr [OF i] by auto
  then have "vmemcpy dir (d + of_nat (Suc i)) (sr + of_nat (Suc i)) n ?m = Some (fill_frame f (Suc i) n c ?m)"
    using Suc.prems fr [OF i]
    by (intro Suc.IH shows_frame_mono [OF Suc.prems(1)] shows_frame_mono [OF Suc.prems(2)] byte_same_frame) simp_all
  then show ?case using r w fill_frame_Suc [OF Suc.prems(3) i, of n c m] by (simp add: add.commute add.left_commute)
qed (simp add: fill_frame_0)

text \<open>The same on the state, for the accesses that the kernel makes.\<close>

lemma window_clear:
  assumes inv: "temp_inv dir T A s" and "k < 4" and "A k = Some f" and "f \<noteq> dir" and "f \<noteq> T"
  obtains s' where "kmemset (slot_va k) 0 PAGE_SIZE s = Some s'" and "temp_inv dir T A s'"
    and "s' = s\<lparr>pmem := fill_frame f 0 4096 (\<lambda>_. 0) (pmem s)\<rparr>"
proof -
  have "page_aligned f" using temp_invD(7) [OF inv assms(2,3)] by simp
  with vmemset_window [OF slot_shows_frame [OF inv assms(2,3)], of 0 4096 0] assms(4,5) temp_invD(1) [OF inv]
  have "kmemset (slot_va k) 0 PAGE_SIZE s = Some (s\<lparr>pmem := fill_frame f 0 4096 (\<lambda>_. 0) (pmem s)\<rparr>)"
    by (simp add: kmemset_def)
  moreover have "temp_inv dir T A (s\<lparr>pmem := fill_frame f 0 4096 (\<lambda>_. 0) (pmem s)\<rparr>)"
    using assms(4,5) by (intro temp_inv_mem [OF inv] fill_same_frame) simp_all
  ultimately show thesis using that by blast
qed

lemma window_write:
  assumes inv: "temp_inv dir T A s" and "k < 4" and "A k = Some f" and "f \<noteq> dir" and "f \<noteq> T" and "i < 1024"
  obtains s' where "kwrite (slot_va k + 4 * of_nat i) v s = Some s'" and "temp_inv dir T A s'"
    and "s' = s\<lparr>pmem := store32 (entry f i) v (pmem s)\<rparr>"
proof -
  have f: "page_aligned f" using temp_invD(7) [OF inv assms(2,3)] by simp
  have "translate dir (pmem s) (slot_va k + 4 * of_nat i) = Some (entry f i)"
    using window_translate [OF inv assms(2,3), of "4 * of_nat i"] unat_four [OF assms(6)] assms(6)
    by (simp add: entry_def)
  then have "kwrite (slot_va k + 4 * of_nat i) v s = Some (s\<lparr>pmem := store32 (entry f i) v (pmem s)\<rparr>)"
    using temp_invD(1) [OF inv] by (simp add: kwrite_def vwrite32_def)
  moreover have "temp_inv dir T A (s\<lparr>pmem := store32 (entry f i) v (pmem s)\<rparr>)"
    using assms(4-6) f by (intro temp_inv_mem [OF inv] store_entry_same_frame) simp_all
  ultimately show thesis using that by blast
qed

lemma window_read:
  assumes inv: "temp_inv dir T A s" and "k < 4" and "A k = Some f" and "i < 1024"
  shows "kread (slot_va k + 4 * of_nat i) s = Some (load32 (pmem s) (entry f i))"
  using window_translate [OF inv assms(2,3), of "4 * of_nat i"] unat_four [OF assms(4)] assms(4) temp_invD(1) [OF inv]
  by (simp add: entry_def kread_def vread32_def)

lemma directory_read:
  assumes inv: "temp_inv dir T A s" and "i < 1024"
  shows "kread (0xFFFFF000 + 4 * of_nat i) s = Some (load32 (pmem s) (entry dir i))"
  using walk_directory [of dir "pmem s" i] temp_invD(1,2) [OF inv] assms(2)
  by (simp add: kernel_tables_def kread_def vread32_def)

lemma window_copy:
  assumes inv: "temp_inv dir T A s" and "k < 4" and "A k = Some f" and "l < 4" and "A l = Some g"
    and "f \<noteq> dir" and "f \<noteq> T" and "f \<noteq> g" and "unat n \<le> 4096"
  obtains s' where "kmemcpy (slot_va k) (slot_va l) n s = Some s'" and "temp_inv dir T A s'"
    and "s' = s\<lparr>pmem := fill_frame f 0 (unat n) (\<lambda>i. pmem s (g + of_nat i)) (pmem s)\<rparr>"
proof -
  let ?m = "fill_frame f 0 (unat n) (\<lambda>i. pmem s (g + of_nat i)) (pmem s)"
  have "page_aligned f" "page_aligned g"
    using temp_invD(7) [OF inv assms(2,3)] temp_invD(7) [OF inv assms(4,5)] by simp_all
  with vmemcpy_window [OF slot_shows_frame [OF inv assms(2,3)] slot_shows_frame [OF inv assms(4,5)],
      of 0 "unat n" "\<lambda>i. pmem s (g + of_nat i)"] assms(6-9) temp_invD(1) [OF inv]
  have "kmemcpy (slot_va k) (slot_va l) n s = Some (s\<lparr>pmem := ?m\<rparr>)" by (simp add: kmemcpy_def)
  moreover have "temp_inv dir T A (s\<lparr>pmem := ?m\<rparr>)"
    using assms(6,7) by (intro temp_inv_mem [OF inv] fill_same_frame) simp_all
  ultimately show thesis using that by blast
qed

section \<open>A concrete start\<close>

text \<open>A directory at \<open>0x1000\<close> whose entry 768 names a table at \<open>0x2000\<close>.\<close>

definition boot_tables :: mem where
  "boot_tables = store32 (entry 0x1000 1023) 0x1003 (store32 (entry 0x1000 768) 0x2003 (\<lambda>_. 0))"

definition boot_vm :: "buddy_system \<Rightarrow> vm_state" where
  "boot_vm b = temp_mapping_init \<lparr>cr3 = 0x1000, pmem = boot_tables, buddy = b, temp_lock = 0,
     available_slots = 0, ref_count = (\<lambda>_. 0)\<rparr>"

lemma boot_tables_entries:
  "load32 boot_tables (entry 0x1000 1023) = 0x1003" "load32 boot_tables (entry 0x1000 768) = 0x2003"
proof -
  have a: "page_aligned 0x1000" by (simp add: page_aligned_def)
  show "load32 boot_tables (entry 0x1000 1023) = 0x1003" by (simp add: boot_tables_def)
  show "load32 boot_tables (entry 0x1000 768) = 0x2003"
    unfolding boot_tables_def using load_entry_store [OF a a, of 1023 768] by simp
qed

lemma boot_kernel_tables: "kernel_tables 0x1000 0x2000 boot_tables"
  by (simp add: kernel_tables_def self_mapped_def boot_tables_entries page_aligned_def FRAME_MASK_def)

lemma boot_vm_inv: "temp_inv 0x1000 0x2000 (\<lambda>_. None) (boot_vm b)"
proof -
  have "k = 0 \<or> k = 1 \<or> k = 2 \<or> k = 3" if "k < 4" for k :: nat using that by auto
  then have "(15 :: u32) AND 2 ^ k \<noteq> 0" if "k < 4" for k using that by fastforce
  then show ?thesis using boot_kernel_tables
    by (simp add: temp_inv_def boot_vm_def temp_mapping_init_def Let_def upt_conv_Cons)
qed

lemma boot_vm_simps [simp]: "cr3 (boot_vm b) = 0x1000" "pmem (boot_vm b) = boot_tables" "buddy (boot_vm b) = b"
  by (simp_all add: boot_vm_def temp_mapping_init_def Let_def upt_conv_Cons)

lemma boot_slot_pde: "k < 4 \<Longrightarrow> pde_of 0x1000 boot_tables (slot_va k) = 0x2003"
  using slot_va_index [of k 0] by (simp add: pde_of_def entry_pdx boot_tables_entries)

section \<open>Properties\<close>

theorem map_page_translates:
  assumes "self_mapped (cr3 s) (pmem s)" and "pde_of (cr3 s) (pmem s) va AND 1 \<noteq> 0"
    and "frame (pde_of (cr3 s) (pmem s) va) \<noteq> cr3 s" and "page_aligned pa" and "unat fl < 4096" and "fl AND 1 \<noteq> 0"
  shows "\<exists>s'. map_page va pa fl s = Some s' \<and> cr3 s' = cr3 s \<and>
    (\<forall>va'. translate (cr3 s) (pmem s') va' =
      (if pde_of (cr3 s) (pmem s) va' AND 1 \<noteq> 0 \<and> pte_addr (cr3 s) (pmem s) va' = pte_addr (cr3 s) (pmem s) va
       then Some (pa + (va' AND 0xFFF)) else translate (cr3 s) (pmem s) va')) \<and>
    (\<exists>s''. unmap_page va s' = Some s'' \<and> translate (cr3 s) (pmem s'') va = None)"
proof -
  let ?d = "cr3 s" and ?m = "store32 (pte_addr (cr3 s) (pmem s) va) (pa OR fl) (pmem s)"
  have dir: "page_aligned ?d" using assms(1) by (simp add: self_mapped_def)
  note tr = translate_store_pte [OF dir assms(3,2)]
  have pres: "(pa OR fl) AND 1 \<noteq> 0" using or_present assms(6) by blast
  have map: "map_page va pa fl s = Some (s\<lparr>pmem := ?m\<rparr>)"
    using map_page_present [OF assms(1,2)] by (simp add: map_page_def)
  have same: "same_frame ?d (pmem s) ?m"
    unfolding pte_addr_def entry_ptx using assms(3) by (intro store_entry_same_frame ptx_lt) simp_all
  have pde: "pde_of ?d ?m va = pde_of ?d (pmem s) va"
    using load_entry_cong [OF same dir pdx_lt] by (simp add: pde_of_def entry_pdx)
  have "self_mapped ?d ?m" using assms(1) load_entry_cong [OF same dir] by (simp add: self_mapped_def)
  then have "unmap_page va (s\<lparr>pmem := ?m\<rparr>) = Some (s\<lparr>pmem := store32 (pte_addr ?d ?m va) 0 ?m\<rparr>)"
    using unmap_page_present [of "s\<lparr>pmem := ?m\<rparr>" va] pde assms(2) by simp
  moreover have "translate ?d (store32 (pte_addr ?d ?m va) 0 ?m) va = None"
    using translate_store_pte [OF dir, of ?m va 0 va] pde assms(2,3) by simp
  ultimately show ?thesis
    using map tr [of "pa OR fl"] pres or_flags_frame [OF assms(4,5)] by auto
qed

theorem map_page_translates_witness:
  "\<exists>s'. map_page 0xC03FF000 0x5000 3 (boot_vm buddy_bss) = Some s' \<and>
     translate 0x1000 (pmem s') 0xC03FF000 = Some 0x5000"
proof -
  let ?s = "boot_vm buddy_bss"
  have va: "slot_va 0 = 0xC03FF000" by (simp add: slot_va_def)
  have pde: "pde_of 0x1000 boot_tables 0xC03FF000 = 0x2003" using boot_slot_pde [of 0] va by simp
  have "self_mapped (cr3 ?s) (pmem ?s)" using boot_kernel_tables by (simp add: kernel_tables_def)
  from map_page_translates [OF this, of "0xC03FF000" "0x5000" 3] pde show ?thesis
    by (auto simp: page_aligned_def FRAME_MASK_def)
qed

text \<open>
  C26: temp_map_page of an aligned page takes the first free slot and returns its window, through
  which the whole page is reached; temp_unmap_page of the window gives the slot back, with the same
  bookkeeping as before and the window unmapped; when all four slots are in use it returns 0 and
  changes nothing.
\<close>

theorem temp_map_window:
  assumes "temp_inv dir T A s" and "page_aligned f"
  shows "case first_slot A of
      None \<Rightarrow> temp_map_page f s = Some (0, s)
    | Some k \<Rightarrow> \<exists>s1 s2. temp_map_page f s = Some (slot_va k, s1) \<and> temp_inv dir T (A(k \<mapsto> f)) s1 \<and>
        (\<forall>off. unat off < 4096 \<longrightarrow> translate dir (pmem s1) (slot_va k + off) = Some (f + off)) \<and>
        temp_unmap_page (slot_va k) s1 = Some s2 \<and> temp_inv dir T A s2 \<and>
        available_slots s2 = available_slots s \<and> ref_count s2 = ref_count s \<and>
        translate dir (pmem s2) (slot_va k) = None"
proof (cases "first_slot A")
  case None
  then show ?thesis using temp_map_none [OF assms None] by simp
next
  case (Some k)
  have k: "k < 4" "A k = None" using first_slotD [OF Some] by auto
  obtain s1 where s1: "temp_map_page f s = Some (slot_va k, s1)" "temp_inv dir T (A(k \<mapsto> f)) s1"
    "available_slots s1 = available_slots s AND NOT (push_bit k 1)" "ref_count s1 = (ref_count s)(k := 1)"
    using temp_map_ok [OF assms Some] .
  obtain s2 where s2: "temp_unmap_page (slot_va k) s1 = Some s2" "temp_inv dir T ((A(k \<mapsto> f))(k := None)) s2"
    "pmem s2 = store32 (entry T (1023 - k)) 0 (pmem s1)"
    "available_slots s2 = available_slots s1 OR push_bit k 1" "ref_count s2 = (ref_count s1)(k := 0)"
    using temp_unmap_ok [OF s1(2) k(1), of f] by auto
  have A: "(A(k \<mapsto> f))(k := None) = A" using k(2) by auto
  have zero: "ref_count s k = 0" "bit (available_slots s) k"
    using assms(1) k by (auto simp: temp_inv_def slot_bit)
  have rc: "ref_count s2 = ref_count s" using zero(1) s1(4) s2(5) by auto
  have av: "available_slots s2 = available_slots s"
    using zero(2) s1(3) s2(4) k(1)
    by (intro bit_word_eqI) (auto simp: set_slot_bit clear_slot_bit)
  note d = temp_invD [OF s2(2) [unfolded A]]
  have "translate dir (pmem s2) (slot_va k) = None"
    using slot_pde [OF d(2) k(1), of 0] s2(3) by (simp add: translate_def)
  with Some s1(1,2) s2(1,2) A rc av window_translate [OF s1(2) k(1), of f] show ?thesis by auto
qed

theorem temp_map_window_witness:
  "\<exists>s1. temp_map_page 0x5000 (boot_vm buddy_bss) = Some (0xC03FF000, s1) \<and>
     translate 0x1000 (pmem s1) 0xC03FF123 = Some 0x5123"
proof -
  have first: "first_slot (\<lambda>_. None) = Some 0" by (simp add: first_slot_def upt_conv_Cons)
  have al: "page_aligned 0x5000" by (simp add: page_aligned_def)
  from temp_map_window [OF boot_vm_inv al, unfolded first] obtain s1 where
    "temp_map_page 0x5000 (boot_vm buddy_bss) = Some (slot_va 0, s1)"
    "\<And>off. unat off < 4096 \<longrightarrow> translate 0x1000 (pmem s1) (slot_va 0 + off) = Some (0x5000 + off)" by auto
  moreover from this(2) [of "0x123"] have "translate 0x1000 (pmem s1) (slot_va 0 + 0x123) = Some (0x5000 + 0x123)"
    by simp
  ultimately show ?thesis by (simp add: slot_va_def)
qed

text \<open>
  C33: When the page table of the slots is not present, temp_map_page never returns: map_page, called
  with the lock held, calls temp_map_page again, which waits for that lock (unless no page is left,
  when address 0 is mapped and the same happens).
\<close>

theorem temp_map_deadlocks:
  assumes "self_mapped (cr3 s) (pmem s)" and "load32 (pmem s) (entry (cr3 s) 768) AND 1 = 0"
    and "temp_lock s = 0" and "find_slot (available_slots s) \<noteq> None"
    and "buddy_inv (buddy s) B" and "page_aligned f"
  shows "temp_map_page f s = None"
proof -
  obtain k where k: "find_slot (available_slots s) = Some k" using assms(4) by auto
  then have k4: "k < 4" by (auto simp: find_slot_def find_Some_iff)
  obtain a b where a: "pmm_alloc_pages 0 (buddy s) = Some (a, b)" "page_aligned a"
  proof (cases "\<exists>x\<in>B. unat (0::u32) \<le> fst x")
    case True
    then obtain j c where jc: "(j, c) \<in> B" "unat (0::u32) \<le> j" by auto
    have "unat (0 :: u32) \<le> 11" by simp
    then obtain a b B' where "pmm_alloc_pages 0 (buddy s) = Some (a, b)" "held (base_addr (buddy s)) B' (unat (0::u32), a)"
      by (rule pmm_alloc_some_left [OF assms(5) _ jc])
    then have "aligned 0 a" by (simp add: held_def good_block_def)
    then show thesis using that \<open>pmm_alloc_pages 0 (buddy s) = Some (a, b)\<close> by (simp add: aligned_def page_aligned_unat)
  next
    case False
    then have "\<forall>(i, a)\<in>B. i < unat (0 :: u32)" by auto
    then show thesis using that [of 0] pmm_alloc_none_left [OF assms(5)] by (simp add: page_aligned_def)
  qed
  let ?s = "s\<lparr>temp_lock := 1\<rparr>"
  have "map_call (Temp_map a) (?s\<lparr>buddy := b\<rparr>) = None"
    using a(2) by (subst map_call.simps) (simp add: page_aligned_def)
  moreover have "kread (0xFFFFF000 + 4 * drop_bit 22 (slot_va k)) ?s = Some (load32 (pmem s) (entry (cr3 s) 768))"
    using kread_pde [of ?s "slot_va k"] assms(1) slot_va_index(1) [OF k4, of 0]
    by (simp add: pde_of_def entry_pdx)
  ultimately have "map_call (Map_page (slot_va k) f 3) ?s = None"
    using a(1) assms(2) by (subst map_call.simps) (simp add: Let_def)
  then show ?thesis using assms(3,6) k unfolding temp_map_page_def
    by (subst map_call.simps) (simp add: page_aligned_def slot_va_def)
qed

theorem temp_map_deadlocks_witness:
  "\<exists>b. temp_map_page 0x5000 ((boot_vm b)\<lparr>pmem := store32 (entry 0x1000 768) 0 boot_tables\<rparr>) = None"
proof -
  obtain b where b: "buddy_inv b (init_blocks 0x01800000 2)" using boot_blocks .
  let ?s = "(boot_vm b)\<lparr>pmem := store32 (entry 0x1000 768) 0 boot_tables\<rparr>"
  have a: "page_aligned 0x1000" by (simp add: page_aligned_def)
  have "self_mapped (cr3 ?s) (pmem ?s)"
    using boot_kernel_tables load_entry_store [OF a a, of 768 1023 0 boot_tables]
    by (simp add: self_mapped_def kernel_tables_def)
  moreover have "find_slot (available_slots ?s) \<noteq> None"
    by (simp add: boot_vm_def temp_mapping_init_def Let_def find_slot_def upt_conv_Cons)
  moreover have "temp_lock ?s = 0" by (simp add: boot_vm_def temp_mapping_init_def Let_def upt_conv_Cons)
  ultimately show ?thesis
    using temp_map_deadlocks [of ?s "init_blocks 0x01800000 2" "0x5000"] b
    by (intro exI [of _ b]) (simp add: page_aligned_def)
qed

end
