(* ===== verification/Vmm.thy ===== *)
theory Vmm
  imports TempMap
begin

text \<open>
  User address spaces of \<open>kernel/mm/vmm.c\<close>: a new page directory with the kernel's entries, loading
  a program into it, giving it back. Page-table entries are written through the temporary mappings.
  Log output is left out.
\<close>

section \<open>Operations\<close>

text \<open>The page allocator on the whole state.\<close>

definition alloc_page :: "vm_state \<Rightarrow> (u32 \<times> vm_state) option" where
  "alloc_page s = do { (p, b) \<leftarrow> pmm_alloc_pages 0 (buddy s); Some (p, s\<lparr>buddy := b\<rparr>) }"

definition free_page :: "u32 \<Rightarrow> vm_state \<Rightarrow> vm_state option" where
  "free_page p s = do { b \<leftarrow> pmm_free_pages p 0 (buddy s); Some (s\<lparr>buddy := b\<rparr>) }"

text \<open>The loop that copies directory entries \<open>i\<close>, \<open>i + 1\<close>, ... (\<open>n\<close> of them).\<close>

fun copy_kernel_entries :: "u32 \<Rightarrow> nat \<Rightarrow> nat \<Rightarrow> vm_state \<Rightarrow> vm_state option" where
  "copy_kernel_entries page_dir i 0 s = Some s"
| "copy_kernel_entries page_dir i (Suc n) s = do {
     let kernel_page_dir = 0xFFFFF000;
     v \<leftarrow> kread (kernel_page_dir + 4 * of_nat i) s;
     s \<leftarrow> kwrite (page_dir + 4 * of_nat i) v s;
     copy_kernel_entries page_dir (Suc i) n s
   }"

definition vmm_create_user_space :: "vm_state \<Rightarrow> (u32 \<times> vm_state) option" where
  "vmm_create_user_space s = do {
     (user_page_dir, s) \<leftarrow> alloc_page s;
     if user_page_dir = 0 then Some (0, s)
     else do {
       (temp_mapping, s) \<leftarrow> temp_map_page user_page_dir s;
       s \<leftarrow> kmemset temp_mapping 0 PAGE_SIZE s;
       s \<leftarrow> copy_kernel_entries temp_mapping 768 (1024 - 768) s;
       s \<leftarrow> temp_unmap_page temp_mapping s;
       Some (user_page_dir, s)
     }
   }"

definition vmm_destroy_user_space :: "u32 \<Rightarrow> vm_state \<Rightarrow> vm_state option" where
  "vmm_destroy_user_space page_dir s = (if page_dir = 0 then Some s else free_page page_dir s)"

text \<open>
  One user mapping: entry \<open>di\<close> of the directory names the new table \<open>table\<close>, which is cleared and gets
  the page as its entry \<open>ti\<close>. The code has these steps twice, for code and stack.
\<close>

definition install_page :: "u32 \<Rightarrow> nat \<Rightarrow> u32 \<Rightarrow> nat \<Rightarrow> u32 \<Rightarrow> vm_state \<Rightarrow> vm_state option" where
  "install_page page_dir_ptr di table ti page s = do {
     s \<leftarrow> kwrite (page_dir_ptr + 4 * of_nat di) (table OR 0x07) s;
     (temp_table, s) \<leftarrow> temp_map_page table s;
     s \<leftarrow> kmemset temp_table 0 PAGE_SIZE s;
     s \<leftarrow> kwrite (temp_table + 4 * of_nat ti) (page OR 0x07) s;
     temp_unmap_page temp_table s
   }"

text \<open>The last part: the program is copied to the code page.\<close>

definition copy_program :: "u32 \<Rightarrow> u32 \<Rightarrow> u32 \<Rightarrow> vm_state \<Rightarrow> vm_state option" where
  "copy_program binary_phys user_code_page sz s = do {
     (temp_src, s) \<leftarrow> temp_map_page binary_phys s;
     (temp_dst, s) \<leftarrow> temp_map_page user_code_page s;
     s \<leftarrow> kmemcpy temp_dst temp_src sz s;
     s \<leftarrow> temp_unmap_page temp_src s;
     temp_unmap_page temp_dst s
   }"

definition vmm_load_user_program :: "u32 \<Rightarrow> u32 \<Rightarrow> u32 \<Rightarrow> vm_state \<Rightarrow> (u32 \<times> vm_state) option" where
  "vmm_load_user_program page_dir binary_phys sz s = do {
     (user_code_page, s) \<leftarrow> alloc_page s;
     if user_code_page = 0 then Some (0, s)
     else do {
       (user_stack_page, s) \<leftarrow> alloc_page s;
       if user_stack_page = 0 then do {
         s \<leftarrow> free_page user_code_page s;
         Some (0, s)
       }
       else do {
         (temp_page_dir, s) \<leftarrow> temp_map_page page_dir s;
         (code_page_table, s) \<leftarrow> alloc_page s;
         if code_page_table = 0 then do {
           s \<leftarrow> temp_unmap_page temp_page_dir s;
           s \<leftarrow> free_page user_code_page s;
           s \<leftarrow> free_page user_stack_page s;
           Some (0, s)
         }
         else do {
           (stack_page_table, s) \<leftarrow> alloc_page s;
           if stack_page_table = 0 then do {
             s \<leftarrow> temp_unmap_page temp_page_dir s;
             s \<leftarrow> free_page user_code_page s;
             s \<leftarrow> free_page user_stack_page s;
             s \<leftarrow> free_page code_page_table s;
             Some (0, s)
           }
           else do {
             s \<leftarrow> install_page temp_page_dir 0 code_page_table 0 user_code_page s;
             s \<leftarrow> install_page temp_page_dir 0x3FE stack_page_table 0x3FF user_stack_page s;
             s \<leftarrow> temp_unmap_page temp_page_dir s;
             s \<leftarrow> copy_program binary_phys user_code_page sz s;
             Some (1, s)
           }
         }
       }
     }
   }"

section \<open>The state of memory management\<close>

text \<open>The slots in use, the free frames, and the two table frames that are not free.\<close>

definition vm_ok :: "u32 \<Rightarrow> u32 \<Rightarrow> (nat \<Rightarrow> u32 option) \<Rightarrow> u32 \<Rightarrow> nat set \<Rightarrow> vm_state \<Rightarrow> bool" where
  "vm_ok dir T A b F s \<longleftrightarrow> temp_inv dir T A s \<and> pmm_ok b F (buddy s) \<and> pfn dir \<notin> F \<and> pfn T \<notin> F"

lemma vm_ok_finite: "vm_ok dir T A b F s \<Longrightarrow> finite F"
  by (auto simp: vm_ok_def pmm_ok_def buddy_inv_def buddy_blocks_def free_frames_def bframes_def
      intro!: finite_blocks_of)

lemma frames_one: "frames (unat (0 :: u32)) a = {pfn a}"
  by (simp add: frames_def)

lemma frames_zero [simp]: "frames 0 a = {pfn a}"
  by (simp add: frames_def)

lemma pmm_one_left:
  assumes "pmm_ok b F s" and "pmm_alloc_pages 0 s = Some (0, s)"
  shows "F = {}"
proof (rule ccontr)
  assume "F \<noteq> {}"
  moreover obtain B where B: "buddy_inv s B" "free_frames B = F" using assms(1) by (auto simp: pmm_ok_def)
  ultimately obtain j c where jc: "(j, c) \<in> B" by (auto simp: free_frames_def)
  have "unat (0 :: u32) \<le> 11" "unat (0 :: u32) \<le> j" by simp_all
  then obtain a s' where "pmm_alloc_pages 0 s = Some (a, s')" "a \<noteq> 0"
    by (rule pmm_alloc_some_left [OF B(1) _ jc])
  then show False using assms(2) by simp
qed

lemma valid_page: "pmm_valid b 0 a \<Longrightarrow> page_aligned a"
  by (simp add: pmm_valid_def good_block_def aligned_def page_aligned_unat)

lemma page_pfn_eq: "page_aligned a \<Longrightarrow> page_aligned c \<Longrightarrow> pfn a = pfn c \<longleftrightarrow> a = c"
proof
  assume "page_aligned a" "page_aligned c" "pfn a = pfn c"
  then have "unat a = unat c" by (metis dvd_div_mult_self page_aligned_unat pfn_def)
  then show "a = c" by (rule unsigned_word_eqI)
qed simp

lemma alloc_page_cases:
  assumes ok: "vm_ok dir T A b F s"
  obtains (none) "alloc_page s = Some (0, s)" and "F = {}"
  | (page) a s' where "alloc_page s = Some (a, s')" and "a \<noteq> 0" and "page_aligned a" and "pmm_valid b 0 a"
      and "pfn a \<in> F" and "a \<noteq> dir" and "a \<noteq> T" and "vm_ok dir T A b (F - {pfn a}) s'"
      and "pmem s' = pmem s"
proof -
  have inv: "temp_inv dir T A s" and pmm: "pmm_ok b F (buddy s)" using ok by (simp_all add: vm_ok_def)
  show thesis
  proof (cases rule: pmm_alloc_cases [OF pmm, where order = 0])
    case 1
    then show thesis using that(1) pmm_one_left [OF pmm 1] by (simp add: alloc_page_def)
  next
    case block: (2 a c)
    have "pfn a \<in> F" using block(4) by (simp add: frames_one)
    moreover have "a \<noteq> dir" "a \<noteq> T" using calculation ok by (auto simp: vm_ok_def)
    moreover have "vm_ok dir T A b (F - {pfn a}) (s\<lparr>buddy := c\<rparr>)"
      using ok block(5) by (simp add: vm_ok_def frames_one temp_inv_def)
    ultimately show thesis
      using that(2) [of a "s\<lparr>buddy := c\<rparr>"] block valid_page by (simp add: alloc_page_def)
  qed
qed

lemma free_page_ok:
  assumes ok: "vm_ok dir T A b F s" and "pmm_valid b 0 a" and "pfn a \<notin> F" and "a \<noteq> dir" and "a \<noteq> T"
  obtains s' where "free_page a s = Some s'" and "vm_ok dir T A b (insert (pfn a) F) s'" and "pmem s' = pmem s"
proof -
  have inv: "temp_inv dir T A s" and pmm: "pmm_ok b F (buddy s)" using ok by (simp_all add: vm_ok_def)
  obtain c where c: "pmm_free_pages a 0 (buddy s) = Some c" "pmm_ok b (F \<union> frames (unat (0 :: u32)) a) c"
    using pa.release_block [OF pmm assms(2)] assms(3) frames_one [of a] by auto
  have "pfn a \<noteq> pfn dir" "pfn a \<noteq> pfn T"
    using page_pfn_eq [OF valid_page [OF assms(2)]] temp_invD(4,5) [OF inv] assms(4,5) by auto
  then have "vm_ok dir T A b (insert (pfn a) F) (s\<lparr>buddy := c\<rparr>)"
    using ok c(2) by (simp add: vm_ok_def frames_one temp_inv_def)
  then show thesis using that [of "s\<lparr>buddy := c\<rparr>"] c(1) by (simp add: free_page_def)
qed

section \<open>Memory outside given frames\<close>

definition only_frames :: "u32 set \<Rightarrow> mem \<Rightarrow> mem \<Rightarrow> bool" where
  "only_frames S m m' \<longleftrightarrow> (\<forall>f. f \<notin> S \<longrightarrow> same_frame f m m')"

lemma only_frames_refl [simp]: "only_frames S m m"
  by (simp add: only_frames_def)

lemma only_frames_trans: "only_frames S m m' \<Longrightarrow> only_frames S' m' m'' \<Longrightarrow> only_frames (S \<union> S') m m''"
  by (auto simp: only_frames_def intro: same_frame_trans)

lemma only_frames_mono: "only_frames S m m' \<Longrightarrow> S \<subseteq> S' \<Longrightarrow> only_frames S' m m'"
  by (auto simp: only_frames_def)

lemma only_frames_store: "page_aligned f \<Longrightarrow> i < 1024 \<Longrightarrow> only_frames {f} m (store32 (entry f i) v m)"
  by (auto simp: only_frames_def intro: store_entry_same_frame)

lemma only_frames_fill: "only_frames {f} m (fill_frame f i n c m)"
  by (auto simp: only_frames_def intro: fill_same_frame)

lemma only_frames_entry:
  "only_frames S m m' \<Longrightarrow> f \<notin> S \<Longrightarrow> page_aligned f \<Longrightarrow> j < 1024 \<Longrightarrow> load32 m' (entry f j) = load32 m (entry f j)"
  by (rule load_entry_cong) (auto simp: only_frames_def)

lemma only_frames_byte:
  assumes "only_frames S m m'" and "f \<notin> S" and "page_aligned f" and "i < 4096"
  shows "m' (f + of_nat i) = m (f + of_nat i)"
proof -
  have "frame (f + of_nat i) = f" using assms(3,4) by (intro frame_of_aligned) (simp_all add: of_nat_offset)
  then show ?thesis using assms(1,2) by (auto simp: only_frames_def same_frame_def)
qed

lemma load_entry_zeroed:
  assumes "page_aligned f" and "j < 1024"
  shows "load32 (fill_frame f 0 4096 (\<lambda>_. 0) m) (entry f j) = 0"
proof -
  have "fill_frame f 0 4096 (\<lambda>_. 0) m (entry f j + i) = 0" if "unat i < 4" for i
    using frame_entry_byte [OF assms that] by (simp add: fill_frame_def and_mask_unat)
  from this [of 0] this [of 1] this [of 2] this [of 3] show ?thesis by (simp add: load32_def)
qed

section \<open>A new address space\<close>

lemma copy_kernel_entries_ok:
  assumes "temp_inv dir T A s" and "k < 4" and "A k = Some f" and "f \<noteq> dir" and "f \<noteq> T"
    and "i + n \<le> 1024"
  obtains s' where "copy_kernel_entries (slot_va k) i n s = Some s'" and "temp_inv dir T A s'"
    and "buddy s' = buddy s" and "only_frames {f} (pmem s) (pmem s')"
    and "\<And>j. j < 1024 \<Longrightarrow> load32 (pmem s') (entry f j) =
        (if i \<le> j \<and> j < i + n then load32 (pmem s) (entry dir j) else load32 (pmem s) (entry f j))"
  using assms
proof (induction n arbitrary: i s thesis)
  case 0
  show ?case by (rule "0.prems"(1) [of s]) (use "0.prems"(2) in auto)
next
  case (Suc n)
  have i: "i < 1024" and f: "page_aligned f" and d: "page_aligned dir"
    using Suc.prems(7) temp_invD(4,7) [OF Suc.prems(2)] Suc.prems(3,4) by auto
  obtain s1 where s1: "kwrite (slot_va k + 4 * of_nat i) (load32 (pmem s) (entry dir i)) s = Some s1"
    "temp_inv dir T A s1" "s1 = s\<lparr>pmem := store32 (entry f i) (load32 (pmem s) (entry dir i)) (pmem s)\<rparr>"
    by (rule window_write [OF Suc.prems(2-6) i])
  have le: "Suc i + n \<le> 1024" using Suc.prems(7) by simp
  obtain s' where s': "copy_kernel_entries (slot_va k) (Suc i) n s1 = Some s'" "temp_inv dir T A s'"
    "buddy s' = buddy s1" "only_frames {f} (pmem s1) (pmem s')"
    "\<And>j. j < 1024 \<Longrightarrow> load32 (pmem s') (entry f j) =
        (if Suc i \<le> j \<and> j < Suc i + n then load32 (pmem s1) (entry dir j) else load32 (pmem s1) (entry f j))"
    by (rule Suc.IH [OF _ s1(2) Suc.prems(3-6) le]) blast
  show ?case
  proof (rule Suc.prems(1) [of s'])
    show "copy_kernel_entries (slot_va k) i (Suc n) s = Some s'"
      using directory_read [OF Suc.prems(2) i] s1(1) s'(1) by (simp add: Let_def)
    show "temp_inv dir T A s'" by fact
    show "buddy s' = buddy s" using s'(3) s1(3) by simp
    show "only_frames {f} (pmem s) (pmem s')"
      using only_frames_trans [OF only_frames_store [OF f i] s'(4) [unfolded s1(3), simplified]] by simp
    show "load32 (pmem s') (entry f j) = (if i \<le> j \<and> j < i + Suc n then load32 (pmem s) (entry dir j) else load32 (pmem s) (entry f j))"
      if "j < 1024" for j
    proof -
      have "load32 (pmem s1) (entry dir j) = load32 (pmem s) (entry dir j)"
        using load_entry_store [OF f d i that] Suc.prems(5) s1(3) by simp
      moreover have "load32 (pmem s1) (entry f j) = (if i = j then load32 (pmem s) (entry dir i) else load32 (pmem s) (entry f j))"
        using load_entry_store [OF f f i that] s1(3) by simp
      ultimately show ?thesis using s'(5) [OF that] by auto
    qed
  qed
qed

text \<open>
  A user directory: the upper quarter of its entries are the kernel's; \<open>low\<close> says what the others are.
\<close>

definition user_directory :: "u32 \<Rightarrow> (nat \<Rightarrow> u32) \<Rightarrow> u32 \<Rightarrow> mem \<Rightarrow> bool" where
  "user_directory dir low pd m \<longleftrightarrow> page_aligned pd \<and> pd \<noteq> dir \<and> (\<forall>i<768. load32 m (entry pd i) = low i) \<and>
     (\<forall>i. 768 \<le> i \<and> i < 1024 \<longrightarrow> load32 m (entry pd i) = load32 m (entry dir i))"

lemma user_directory_translate:
  assumes "user_directory dir (\<lambda>_. 0) pd m"
  shows "translate pd m va = (if unat va < 0xC0000000 then None else translate dir m va)"
proof -
  have px: "unat (pdx va) < 768 \<longleftrightarrow> unat va < 0xC0000000" by (simp add: pdx_unat div_less_iff_less_mult)
  show ?thesis
  proof (cases "unat va < 0xC0000000")
    case True
    then have "pde_of pd m va = 0" using assms px by (simp add: user_directory_def pde_of_def entry_pdx)
    then show ?thesis using True by (simp add: translate_def)
  next
    case False
    then have "pde_of pd m va = pde_of dir m va"
      using assms px pdx_lt [of va] by (simp add: user_directory_def pde_of_def entry_pdx)
    then show ?thesis using False by (simp add: translate_def pte_addr_def)
  qed
qed

abbreviation no_slots :: "nat \<Rightarrow> u32 option" where "no_slots \<equiv> \<lambda>_. None"

lemma first_slot_0 [simp]: "first_slot no_slots = Some 0"
  by (simp add: first_slot_def upt_conv_Cons)

lemma first_slot_1 [simp]: "first_slot (no_slots(0 \<mapsto> f)) = Some 1"
  by (simp add: first_slot_def upt_conv_Cons)

text \<open>The state after a change of a window's slot and of memory behind it.\<close>

lemma vm_ok_slots: "vm_ok dir T A b F s \<Longrightarrow> temp_inv dir T A' s' \<Longrightarrow> buddy s' = buddy s \<Longrightarrow> vm_ok dir T A' b F s'"
  by (simp add: vm_ok_def)

lemma vm_okD: "vm_ok dir T A b F s \<Longrightarrow> temp_inv dir T A s" "vm_ok dir T A b F s \<Longrightarrow> pfn dir \<notin> F"
  "vm_ok dir T A b F s \<Longrightarrow> pfn T \<notin> F" "vm_ok dir T A b F s \<Longrightarrow> pmm_ok b F (buddy s)"
  by (simp_all add: vm_ok_def)

lemma map_slot:
  assumes ok: "vm_ok dir T A b F s" and f: "page_aligned f" and k: "first_slot A = Some k"
  obtains s' where "temp_map_page f s = Some (slot_va k, s')" and "vm_ok dir T (A(k \<mapsto> f)) b F s'"
    and "only_frames {T} (pmem s) (pmem s')"
proof -
  obtain s' where s': "temp_map_page f s = Some (slot_va k, s')" "temp_inv dir T (A(k \<mapsto> f)) s'"
    "pmem s' = store32 (entry T (1023 - k)) (f OR 3) (pmem s)" "buddy s' = buddy s"
    using temp_map_ok [OF vm_okD(1) [OF ok] f k] .
  have "only_frames {T} (pmem s) (pmem s')"
    unfolding s'(3) by (rule only_frames_store) (use temp_invD(5) [OF vm_okD(1) [OF ok]] in simp_all)
  then show thesis using that s' vm_ok_slots [OF ok s'(2,4)] by blast
qed

lemma unmap_slot:
  assumes ok: "vm_ok dir T A b F s" and k: "k < 4" "A k = Some f"
  obtains s' where "temp_unmap_page (slot_va k) s = Some s'" and "vm_ok dir T (A(k := None)) b F s'"
    and "only_frames {T} (pmem s) (pmem s')"
proof -
  obtain s' where s': "temp_unmap_page (slot_va k) s = Some s'" "temp_inv dir T (A(k := None)) s'"
    "pmem s' = store32 (entry T (1023 - k)) 0 (pmem s)" "buddy s' = buddy s"
    using temp_unmap_ok [OF vm_okD(1) [OF ok] k] .
  have "only_frames {T} (pmem s) (pmem s')"
    unfolding s'(3) by (rule only_frames_store) (use temp_invD(5) [OF vm_okD(1) [OF ok]] in simp_all)
  then show thesis using that s' vm_ok_slots [OF ok s'(2,4)] by blast
qed

lemma user_directory_cong:
  assumes "user_directory dir low pd m" and "only_frames S m m'" and "pd \<notin> S" and "dir \<notin> S" and "page_aligned dir"
  shows "user_directory dir low pd m'"
  using assms only_frames_entry [OF assms(2,3)] only_frames_entry [OF assms(2,4,5)]
  by (simp add: user_directory_def)

lemma create_user_space_ok:
  assumes ok: "vm_ok dir T no_slots b F s"
  obtains (none) "vmm_create_user_space s = Some (0, s)" and "F = {}"
  | (space) d s' where "vmm_create_user_space s = Some (d, s')" and "d \<noteq> 0" and "pmm_valid b 0 d" and "pfn d \<in> F"
      and "d \<noteq> T" and "vm_ok dir T no_slots b (F - {pfn d}) s'"
      and "user_directory dir (\<lambda>_. 0) d (pmem s')" and "only_frames {T, d} (pmem s) (pmem s')"
  using ok
proof (cases rule: alloc_page_cases)
  case none
  show ?thesis by (rule that(1)) (simp_all add: none vmm_create_user_space_def)
next
  case (page d s1)
  obtain s2 where s2: "temp_map_page d s1 = Some (slot_va 0, s2)" "vm_ok dir T (no_slots(0 \<mapsto> d)) b (F - {pfn d}) s2"
    "only_frames {T} (pmem s1) (pmem s2)" using map_slot [OF page(8,3) first_slot_0] .
  let ?A = "no_slots(0 \<mapsto> d)"
  have A0: "(0::nat) < 4" "?A 0 = Some d" by simp_all
  obtain s3 where s3: "kmemset (slot_va 0) 0 PAGE_SIZE s2 = Some s3" "temp_inv dir T ?A s3"
    "s3 = s2\<lparr>pmem := fill_frame d 0 4096 (\<lambda>_. 0) (pmem s2)\<rparr>"
    using window_clear [OF vm_okD(1) [OF s2(2)] A0 page(6,7)] .
  have n: "768 + 256 \<le> (1024::nat)" by simp
  obtain s4 where s4: "copy_kernel_entries (slot_va 0) 768 256 s3 = Some s4" "temp_inv dir T ?A s4"
    "buddy s4 = buddy s3" "only_frames {d} (pmem s3) (pmem s4)"
    "\<And>j. j < 1024 \<Longrightarrow> load32 (pmem s4) (entry d j) =
        (if 768 \<le> j \<and> j < 768 + 256 then load32 (pmem s3) (entry dir j) else load32 (pmem s3) (entry d j))"
    by (rule copy_kernel_entries_ok [OF s3(2) A0 page(6,7) n]) blast
  have ok4: "vm_ok dir T ?A b (F - {pfn d}) s4" by (rule vm_ok_slots [OF s2(2) s4(2)]) (simp add: s4(3) s3(3))
  obtain s5 where s5: "temp_unmap_page (slot_va 0) s4 = Some s5" "vm_ok dir T (?A(0 := None)) b (F - {pfn d}) s5"
    "only_frames {T} (pmem s4) (pmem s5)" using unmap_slot [OF ok4 A0] .
  have A: "?A(0 := None) = no_slots" by auto
  have dT: "page_aligned dir" "dir \<noteq> T" using temp_invD(4,6) [OF s3(2)] by auto
  have o34: "only_frames {d} (pmem s2) (pmem s4)"
    using only_frames_trans [OF only_frames_fill s4(4) [unfolded s3(3), simplified]] by simp
  have "only_frames {T, d} (pmem s1) (pmem s5)"
    using only_frames_trans [OF only_frames_trans [OF s2(3) o34] s5(3)] by (simp add: insert_commute)
  moreover have "user_directory dir (\<lambda>_. 0) d (pmem s4)"
    using s4(5) page(3,6) load_entry_zeroed [OF page(3)] only_frames_entry [OF s4(4) _ dT(1)]
    by (simp add: user_directory_def s3(3))
  then have "user_directory dir (\<lambda>_. 0) d (pmem s5)"
    by (rule user_directory_cong [OF _ s5(3)]) (use page(7) dT in simp_all)
  moreover have "vmm_create_user_space s = Some (d, s5)"
    using page(1,2) s2(1) s3(1) s4(1) s5(1) by (simp add: vmm_create_user_space_def)
  ultimately show ?thesis using that(2) page s5(2) A by simp
qed

section \<open>Loading a program\<close>

lemma install_page_ok:
  assumes ok: "vm_ok dir T A b F s" and "k < 4" and "A k = Some pd" and "pd \<noteq> dir" and "pd \<noteq> T"
    and l: "first_slot A = Some l" and "page_aligned tbl" and "tbl \<noteq> dir" and "tbl \<noteq> T" and "tbl \<noteq> pd"
    and "di < 1024" and "ti < 1024"
  obtains s' where "install_page (slot_va k) di tbl ti page s = Some s'" and "vm_ok dir T A b F s'"
    and "only_frames {T, pd, tbl} (pmem s) (pmem s')"
    and "\<And>j. j < 1024 \<Longrightarrow> load32 (pmem s') (entry pd j) = (if j = di then tbl OR 7 else load32 (pmem s) (entry pd j))"
    and "\<And>j. j < 1024 \<Longrightarrow> load32 (pmem s') (entry tbl j) = (if j = ti then page OR 7 else 0)"
proof -
  have lk: "l < 4" "A l = None" "l \<noteq> k" using first_slotD [OF l] assms(3) by auto
  have pd: "page_aligned pd" using temp_invD(7) [OF vm_okD(1) [OF ok] assms(2,3)] by simp
  obtain s1 where s1: "kwrite (slot_va k + 4 * of_nat di) (tbl OR 7) s = Some s1" "temp_inv dir T A s1"
    "s1 = s\<lparr>pmem := store32 (entry pd di) (tbl OR 7) (pmem s)\<rparr>"
    using window_write [OF vm_okD(1) [OF ok] assms(2-5,11)] .
  have ok1: "vm_ok dir T A b F s1" by (rule vm_ok_slots [OF ok s1(2)]) (simp add: s1(3))
  obtain s2 where s2: "temp_map_page tbl s1 = Some (slot_va l, s2)" "vm_ok dir T (A(l \<mapsto> tbl)) b F s2"
    "only_frames {T} (pmem s1) (pmem s2)" using map_slot [OF ok1 assms(7) l] .
  let ?A = "A(l \<mapsto> tbl)"
  have Al: "?A l = Some tbl" by simp
  obtain s3 where s3: "kmemset (slot_va l) 0 PAGE_SIZE s2 = Some s3" "temp_inv dir T ?A s3"
    "s3 = s2\<lparr>pmem := fill_frame tbl 0 4096 (\<lambda>_. 0) (pmem s2)\<rparr>"
    using window_clear [OF vm_okD(1) [OF s2(2)] lk(1) Al assms(8,9)] .
  obtain s4 where s4: "kwrite (slot_va l + 4 * of_nat ti) (page OR 7) s3 = Some s4" "temp_inv dir T ?A s4"
    "s4 = s3\<lparr>pmem := store32 (entry tbl ti) (page OR 7) (pmem s3)\<rparr>"
    using window_write [OF s3(2) lk(1) Al assms(8,9,12)] .
  have ok4: "vm_ok dir T ?A b F s4" by (rule vm_ok_slots [OF s2(2) s4(2)]) (simp add: s4(3) s3(3))
  obtain s5 where s5: "temp_unmap_page (slot_va l) s4 = Some s5" "vm_ok dir T (?A(l := None)) b F s5"
    "only_frames {T} (pmem s4) (pmem s5)" using unmap_slot [OF ok4 lk(1) Al] .
  have A: "?A(l := None) = A" using lk(2) by auto
  have o1: "only_frames {pd} (pmem s) (pmem s1)" unfolding s1(3) using only_frames_store [OF pd assms(11)] by simp
  have o3: "only_frames {tbl} (pmem s2) (pmem s3)" by (simp add: s3(3) only_frames_fill)
  have o4: "only_frames {tbl} (pmem s3) (pmem s4)" using only_frames_store [OF assms(7,12)] by (simp add: s4(3))
  have o34: "only_frames {tbl} (pmem s2) (pmem s4)" using only_frames_trans [OF o3 o4] by simp
  have o25: "only_frames {T, tbl} (pmem s1) (pmem s5)"
    using only_frames_trans [OF only_frames_trans [OF s2(3) o34] s5(3)] by (simp add: insert_commute)
  have o: "only_frames {T, pd, tbl} (pmem s) (pmem s5)"
    using only_frames_trans [OF o1 o25] by (simp add: insert_commute)
  have pde: "load32 (pmem s5) (entry pd j) = (if j = di then tbl OR 7 else load32 (pmem s) (entry pd j))" if "j < 1024" for j
  proof -
    have "load32 (pmem s5) (entry pd j) = load32 (pmem s1) (entry pd j)"
      by (rule only_frames_entry [OF o25 _ pd that]) (use assms(5,10) in auto)
    moreover have "load32 (pmem s1) (entry pd j) = (if di = j then tbl OR 7 else load32 (pmem s) (entry pd j))"
      using load_entry_store [OF pd pd assms(11) that] by (simp add: s1(3))
    ultimately show ?thesis by auto
  qed
  have pte: "load32 (pmem s5) (entry tbl j) = (if j = ti then page OR 7 else 0)" if "j < 1024" for j
  proof -
    have "load32 (pmem s5) (entry tbl j) = load32 (pmem s4) (entry tbl j)"
      by (rule only_frames_entry [OF s5(3) _ assms(7) that]) (use assms(9) in auto)
    moreover have "load32 (pmem s4) (entry tbl j) = (if ti = j then page OR 7 else load32 (pmem s3) (entry tbl j))"
      using load_entry_store [OF assms(7,7,12) that] by (simp add: s4(3))
    moreover have "load32 (pmem s3) (entry tbl j) = 0" using load_entry_zeroed [OF assms(7) that] by (simp add: s3(3))
    ultimately show ?thesis by auto
  qed
  show thesis
    by (rule that [OF _ _ o pde pte]) (use s1(1) s2(1) s3(1) s4(1) s5(1,2) A in \<open>simp_all add: install_page_def\<close>)
qed

text \<open>The translation of a user directory with a code page at the bottom and a stack page in entry 1022.\<close>

definition program_tables :: "u32 \<Rightarrow> u32 \<Rightarrow> u32 \<Rightarrow> u32 \<Rightarrow> u32 \<Rightarrow> u32 \<Rightarrow> mem \<Rightarrow> bool" where
  "program_tables dir pd ct code st stack m \<longleftrightarrow>
     (\<forall>i<1024. load32 m (entry pd i) = (if i = 0 then ct OR 7 else if i = 1022 then st OR 7
        else if i < 768 then 0 else load32 m (entry dir i))) \<and>
     (\<forall>i<1024. load32 m (entry ct i) = (if i = 0 then code OR 7 else 0)) \<and>
     (\<forall>i<1024. load32 m (entry st i) = (if i = 1023 then stack OR 7 else 0))"

lemma entry_present: "(a OR 7) AND 1 \<noteq> (0 :: u32)"
proof -
  have "(7 :: u32) AND 1 \<noteq> 0" by simp
  then show ?thesis using or_present [of a 7] by blast
qed

lemma program_translate:
  assumes "program_tables dir pd ct code st stack m"
    and "page_aligned ct" and "page_aligned code" and "page_aligned st" and "page_aligned stack"
  shows "translate pd m va =
    (if unat va < 0x1000 then Some (code + va)
     else if unat va < 0xC0000000 then None
     else if unat va < 0xFF800000 \<or> 0xFFC00000 \<le> unat va then translate dir m va
     else if 0xFFBFF000 \<le> unat va then Some (stack + (va AND 0xFFF)) else None)"
proof -
  let ?n = "unat va"
  have px: "unat (pdx va) = ?n div 4194304" and tx: "unat (ptx va) = ?n div 4096 mod 1024"
    by (simp_all add: pdx_unat ptx_unat)
  note pd = assms(1) [unfolded program_tables_def, THEN conjunct1, rule_format, OF pdx_lt [of va]]
  note ct = assms(1) [unfolded program_tables_def, THEN conjunct2, THEN conjunct1, rule_format, OF ptx_lt [of va]]
  note st = assms(1) [unfolded program_tables_def, THEN conjunct2, THEN conjunct2, rule_format, OF ptx_lt [of va]]
  have flag: "unat (7 :: u32) < 4096" by simp
  consider (code) "?n < 0x400000" | (low) "0x400000 \<le> ?n" "?n < 0xC0000000" | (stack) "0xFF800000 \<le> ?n" "?n < 0xFFC00000"
    | (kernel) "0xC0000000 \<le> ?n" "?n < 0xFF800000 \<or> 0xFFC00000 \<le> ?n" by linarith
  then show ?thesis
  proof cases
    case code
    then have "unat (pdx va) = 0" by (simp add: px)
    moreover have "unat (ptx va) = 0 \<longleftrightarrow> ?n < 0x1000" using code by (simp add: tx div_eq_0_iff less_mult_imp_div_less)
    moreover have "va AND 0xFFF = va" if "?n < 0x1000"
      using that by (intro unsigned_word_eqI [where 'a = nat]) (simp add: and_mask_unat)
    ultimately show ?thesis using code pd ct assms(2,3) flag
      by (simp add: translate_def pde_of_def pte_addr_def entry_pdx entry_ptx entry_present or_flags_frame)
  next
    case low
    then have "0 < ?n div 4194304" "?n div 4194304 < 768" by (simp_all add: div_greater_zero_iff div_less_iff_less_mult)
    then have "unat (pdx va) \<noteq> 0" "unat (pdx va) < 768" by (simp_all add: px)
    then show ?thesis using low pd by (simp add: translate_def pde_of_def entry_pdx)
  next
    case stack
    define q where "q = ?n - 0xFF800000"
    have q: "?n = q + 1022 * 4194304" "q < 4194304" using stack by (simp_all add: q_def)
    have d: "unat (pdx va) = 1022" unfolding px q(1) using q(2) by simp
    have "?n div 4096 = q div 4096 + 1022 * 1024" unfolding q(1) by simp
    moreover have "q div 4096 < 1024" using q(2) by (simp add: div_less_iff_less_mult)
    ultimately have "unat (ptx va) = q div 4096" unfolding tx by (simp only: mod_mult_self1 mod_less)
    moreover have "q div 4096 = 1023 \<longleftrightarrow> 0x3FF000 \<le> q"
      using less_eq_div_iff_mult_less_eq [of 4096 1023 q] \<open>q div 4096 < 1024\<close> by auto
    ultimately have "unat (ptx va) = 1023 \<longleftrightarrow> 0xFFBFF000 \<le> ?n" using q(1) by simp
    then show ?thesis using stack d pd st assms(4,5) flag
      by (auto simp: translate_def pde_of_def pte_addr_def entry_pdx entry_ptx entry_present or_flags_frame)
  next
    case kernel
    have "768 \<le> ?n div 4194304" using kernel(1) by (simp add: less_eq_div_iff_mult_less_eq)
    moreover have "?n div 4194304 \<noteq> 1022"
    proof
      assume "?n div 4194304 = 1022"
      then have "?n = 1022 * 4194304 + ?n mod 4194304" using div_mult_mod_eq [of ?n 4194304] by simp
      moreover have "?n mod 4194304 < 4194304" by simp
      ultimately show False using kernel(2) by linarith
    qed
    ultimately have "pde_of pd m va = pde_of dir m va" using pd by (simp add: pde_of_def entry_pdx px)
    then show ?thesis using kernel by (auto simp: translate_def pte_addr_def)
  qed
qed

lemma copy_program_ok:
  assumes ok: "vm_ok dir T no_slots b F s" and src: "page_aligned src" "src \<noteq> T" "src \<noteq> code"
    and code: "page_aligned code" "code \<noteq> dir" "code \<noteq> T" and sz: "unat sz \<le> 4096"
  obtains s' where "copy_program src code sz s = Some s'" and "vm_ok dir T no_slots b F s'"
    and "only_frames {T, code} (pmem s) (pmem s')"
    and "\<And>i. i < unat sz \<Longrightarrow> pmem s' (code + of_nat i) = pmem s (src + of_nat i)"
proof -
  let ?A1 = "no_slots(0 \<mapsto> src)" and ?A2 = "no_slots(0 \<mapsto> src, 1 \<mapsto> code)"
  obtain s1 where s1: "temp_map_page src s = Some (slot_va 0, s1)" "vm_ok dir T ?A1 b F s1"
    "only_frames {T} (pmem s) (pmem s1)" using map_slot [OF ok src(1) first_slot_0] .
  obtain s2 where s2: "temp_map_page code s1 = Some (slot_va 1, s2)" "vm_ok dir T ?A2 b F s2"
    "only_frames {T} (pmem s1) (pmem s2)" using map_slot [OF s1(2) code(1) first_slot_1] .
  have A: "(0::nat) < 4" "?A2 0 = Some src" "(1::nat) < 4" "?A2 1 = Some code" by simp_all
  obtain s3 where s3: "kmemcpy (slot_va 1) (slot_va 0) sz s2 = Some s3" "temp_inv dir T ?A2 s3"
    "s3 = s2\<lparr>pmem := fill_frame code 0 (unat sz) (\<lambda>i. pmem s2 (src + of_nat i)) (pmem s2)\<rparr>"
    using window_copy [OF vm_okD(1) [OF s2(2)] A(3,4,1,2) code(2,3) src(3) [symmetric] sz] .
  have ok3: "vm_ok dir T ?A2 b F s3" by (rule vm_ok_slots [OF s2(2) s3(2)]) (simp add: s3(3))
  obtain s4 where s4: "temp_unmap_page (slot_va 0) s3 = Some s4" "vm_ok dir T (?A2(0 := None)) b F s4"
    "only_frames {T} (pmem s3) (pmem s4)" using unmap_slot [OF ok3 A(1,2)] .
  have A1: "(?A2(0 := None)) 1 = Some code" by simp
  obtain s5 where s5: "temp_unmap_page (slot_va 1) s4 = Some s5" "vm_ok dir T (?A2(0 := None, 1 := None)) b F s5"
    "only_frames {T} (pmem s4) (pmem s5)" using unmap_slot [OF s4(2) A(3) A1] .
  have none: "?A2(0 := None, 1 := None) = no_slots" by auto
  have o2: "only_frames {T} (pmem s) (pmem s2)" using only_frames_trans [OF s1(3) s2(3)] by simp
  have o3: "only_frames {code} (pmem s2) (pmem s3)" by (simp add: s3(3) only_frames_fill)
  have o5: "only_frames {T} (pmem s3) (pmem s5)" using only_frames_trans [OF s4(3) s5(3)] by simp
  have "only_frames {T, code} (pmem s) (pmem s5)"
    using only_frames_trans [OF only_frames_trans [OF o2 o3] o5] by (simp add: insert_commute)
  moreover have "pmem s5 (code + of_nat i) = pmem s (src + of_nat i)" if "i < unat sz" for i
  proof -
    have i: "i < 4096" using that sz by simp
    have "(code + of_nat i) AND 0xFFF = of_nat i" "frame (code + of_nat i) = code"
      using code(1) i by (simp_all add: offset_of_aligned frame_of_aligned of_nat_offset)
    then have "pmem s3 (code + of_nat i) = pmem s2 (src + of_nat i)"
      using that i by (simp add: s3(3) fill_frame_def of_nat_offset)
    moreover have "pmem s5 (code + of_nat i) = pmem s3 (code + of_nat i)"
      by (rule only_frames_byte [OF o5 _ code(1) i]) (use code(3) in simp)
    moreover have "pmem s2 (src + of_nat i) = pmem s (src + of_nat i)"
      by (rule only_frames_byte [OF o2 _ src(1) i]) (use src(2) in simp)
    ultimately show ?thesis by simp
  qed
  moreover have "copy_program src code sz s = Some s5"
    using s1(1) s2(1) s3(1) s4(1) s5(1) by (simp add: copy_program_def)
  ultimately show thesis using that s5(2) none by simp
qed

text \<open>The two installed tables, and the rest of the directory.\<close>

lemma install_both:
  assumes ok: "vm_ok dir T no_slots b F s" and pd: "user_directory dir (\<lambda>_. 0) pd (pmem s)" "pd \<noteq> T"
    and ct: "page_aligned ct" "ct \<noteq> dir" "ct \<noteq> T" "ct \<noteq> pd" and st: "page_aligned st" "st \<noteq> dir" "st \<noteq> T" "st \<noteq> pd" "st \<noteq> ct"
    and map: "vm_ok dir T (no_slots(0 \<mapsto> pd)) b G s0" "only_frames {T} (pmem s) (pmem s0)"
  obtains s1 s2 s3 where "install_page (slot_va 0) 0 ct 0 code s0 = Some s1" and "install_page (slot_va 0) 1022 st 1023 stack s1 = Some s2"
    and "temp_unmap_page (slot_va 0) s2 = Some s3" and "vm_ok dir T no_slots b G s3"
    and "only_frames {T, pd, ct, st} (pmem s) (pmem s3)" and "program_tables dir pd ct code st stack (pmem s3)"
proof -
  let ?A = "no_slots(0 \<mapsto> pd)"
  have A: "(0::nat) < 4" "?A 0 = Some pd" by simp_all
  have p: "page_aligned pd" "pd \<noteq> dir" using pd by (simp_all add: user_directory_def)
  have dT: "page_aligned dir" "dir \<noteq> T" using temp_invD(4,6) [OF vm_okD(1) [OF ok]] by auto
  have i0: "(0::nat) < 1024" "(1022::nat) < 1024" "(1023::nat) < 1024" by simp_all
  obtain s1 where s1: "install_page (slot_va 0) 0 ct 0 code s0 = Some s1" "vm_ok dir T ?A b G s1"
    "only_frames {T, pd, ct} (pmem s0) (pmem s1)"
    "\<And>j. j < 1024 \<Longrightarrow> load32 (pmem s1) (entry pd j) = (if j = 0 then ct OR 7 else load32 (pmem s0) (entry pd j))"
    "\<And>j. j < 1024 \<Longrightarrow> load32 (pmem s1) (entry ct j) = (if j = 0 then code OR 7 else 0)"
    by (rule install_page_ok [OF map(1) A p(2) pd(2) first_slot_1 ct i0(1,1)]) blast
  obtain s2 where s2: "install_page (slot_va 0) 1022 st 1023 stack s1 = Some s2" "vm_ok dir T ?A b G s2"
    "only_frames {T, pd, st} (pmem s1) (pmem s2)"
    "\<And>j. j < 1024 \<Longrightarrow> load32 (pmem s2) (entry pd j) = (if j = 1022 then st OR 7 else load32 (pmem s1) (entry pd j))"
    "\<And>j. j < 1024 \<Longrightarrow> load32 (pmem s2) (entry st j) = (if j = 1023 then stack OR 7 else 0)"
    by (rule install_page_ok [OF s1(2) A p(2) pd(2) first_slot_1 st(1-4) i0(2,3)]) blast
  obtain s3 where s3: "temp_unmap_page (slot_va 0) s2 = Some s3" "vm_ok dir T (?A(0 := None)) b G s3"
    "only_frames {T} (pmem s2) (pmem s3)" using unmap_slot [OF s2(2) A] .
  have none: "?A(0 := None) = no_slots" by auto
  have o: "only_frames {T, pd, ct, st} (pmem s) (pmem s3)"
    using only_frames_trans [OF only_frames_trans [OF map(2) s1(3)] only_frames_trans [OF s2(3) s3(3)]]
    by (rule only_frames_mono) auto
  have o0: "load32 (pmem s0) (entry pd j) = (if j < 768 then 0 else load32 (pmem s) (entry dir j))" if "j < 1024" for j
    using only_frames_entry [OF map(2) _ p(1) that] pd that by (simp add: user_directory_def)
  have dir: "load32 (pmem s3) (entry dir j) = load32 (pmem s) (entry dir j)" if "j < 1024" for j
    by (rule only_frames_entry [OF o _ dT(1) that]) (use dT(2) p(2) ct(2) st(2) in auto)
  have e3: "load32 (pmem s3) (entry f j) = load32 (pmem s2) (entry f j)" if "f \<in> {pd, ct, st}" "j < 1024" for f j
    by (rule only_frames_entry [OF s3(3) _ _ that(2)]) (use that(1) pd(2) ct st p(1) in auto)
  have e2: "load32 (pmem s2) (entry ct j) = load32 (pmem s1) (entry ct j)" if "j < 1024" for j
    by (rule only_frames_entry [OF s2(3) _ ct(1) that]) (use ct st(5) in auto)
  have "program_tables dir pd ct code st stack (pmem s3)"
    unfolding program_tables_def using e3 e2 dir s2(4,5) s1(4,5) o0 by simp
  then show thesis using that s1(1) s2(1) s3(1,2) none o by simp
qed

lemma program_tables_cong:
  assumes "program_tables dir pd ct code st stack m" and "only_frames S m m'" and "{dir, pd, ct, st} \<inter> S = {}"
    and "page_aligned dir" and "page_aligned pd" and "page_aligned ct" and "page_aligned st"
  shows "program_tables dir pd ct code st stack m'"
  using assms(1) only_frames_entry [OF assms(2)] assms(3-7) unfolding program_tables_def by auto

lemma free_taken:
  assumes "vm_ok dir T A b (F - {pfn a}) s" and "pmm_valid b 0 a" and "pfn a \<in> F" and "a \<noteq> dir" and "a \<noteq> T"
  obtains s' where "free_page a s = Some s'" and "vm_ok dir T A b F s'" and "pmem s' = pmem s"
proof -
  have "pfn a \<notin> F - {pfn a}" by simp
  then obtain s' where "free_page a s = Some s'" "vm_ok dir T A b (insert (pfn a) (F - {pfn a})) s'" "pmem s' = pmem s"
    using free_page_ok [OF assms(1,2) _ assms(4,5)] by metis
  moreover have "insert (pfn a) (F - {pfn a}) = F" using assms(3) by auto
  ultimately show thesis using that by simp
qed

lemma card_fewer: "F - {a} - {b} - {c} = {} \<Longrightarrow> card F < 4"
proof -
  assume "F - {a} - {b} - {c} = {}"
  then have "F \<subseteq> {a, b, c}" by auto
  then have "card F \<le> card {a, b, c}" by (intro card_mono) simp_all
  also have "\<dots> \<le> 3" by (simp add: card_insert_if)
  finally show ?thesis by simp
qed

text \<open>The pages of a load that fails are all given back.\<close>

lemma give_back_2:
  assumes "vm_ok dir T A b (F - {pfn c} - {pfn d}) s" and "pmm_valid b 0 c" and "pmm_valid b 0 d"
    and "pfn c \<in> F" and "pfn d \<in> F - {pfn c}" and "c \<noteq> dir" and "c \<noteq> T" and "d \<noteq> dir" and "d \<noteq> T"
  obtains s1 s2 where "free_page c s = Some s1" and "free_page d s1 = Some s2" and "vm_ok dir T A b F s2"
    and "pmem s2 = pmem s"
proof -
  have F: "F - {pfn c} - {pfn d} = F - {pfn d} - {pfn c}" by auto
  have c: "pfn c \<in> F - {pfn d}" and d: "pfn d \<in> F" using assms(4,5) by auto
  obtain s1 where s1: "free_page c s = Some s1" "vm_ok dir T A b (F - {pfn d}) s1" "pmem s1 = pmem s"
    using free_taken [OF assms(1) [unfolded F] assms(2) c assms(6,7)] .
  obtain s2 where s2: "free_page d s1 = Some s2" "vm_ok dir T A b F s2" "pmem s2 = pmem s1"
    using free_taken [OF s1(2) assms(3) d assms(8,9)] .
  show thesis using that s1 s2 by simp
qed

lemma give_back_3:
  assumes "vm_ok dir T A b (F - {pfn c} - {pfn d} - {pfn e}) s" and "pmm_valid b 0 c" and "pmm_valid b 0 d" and "pmm_valid b 0 e"
    and "pfn c \<in> F" and "pfn d \<in> F - {pfn c}" and "pfn e \<in> F - {pfn c} - {pfn d}"
    and "c \<noteq> dir" and "c \<noteq> T" and "d \<noteq> dir" and "d \<noteq> T" and "e \<noteq> dir" and "e \<noteq> T"
  obtains s1 s2 s3 where "free_page c s = Some s1" and "free_page d s1 = Some s2" and "free_page e s2 = Some s3"
    and "vm_ok dir T A b F s3" and "pmem s3 = pmem s"
proof -
  have F: "F - {pfn c} - {pfn d} - {pfn e} = F - {pfn e} - {pfn c} - {pfn d}" by auto
  have m: "pfn c \<in> F - {pfn e}" "pfn d \<in> F - {pfn e} - {pfn c}" "pfn e \<in> F" using assms(5-7) by auto
  obtain s1 s2 where s2: "free_page c s = Some s1" "free_page d s1 = Some s2" "vm_ok dir T A b (F - {pfn e}) s2"
    "pmem s2 = pmem s"
    using give_back_2 [OF assms(1) [unfolded F] assms(2,3) m(1,2) assms(8-11)] .
  obtain s3 where s3: "free_page e s2 = Some s3" "vm_ok dir T A b F s3" "pmem s3 = pmem s2"
    using free_taken [OF s2(3) assms(4) m(3) assms(12,13)] .
  show thesis using that s2 s3 by simp
qed

text \<open>With the four pages at hand.\<close>

lemma build_space:
  assumes ok: "vm_ok dir T no_slots b F s" and pd: "user_directory dir (\<lambda>_. 0) pd (pmem s)" "pd \<noteq> T" "pfn pd \<notin> F"
    and bin: "page_aligned bin" "bin \<noteq> T" "bin \<noteq> pd" "pfn bin \<notin> F" and sz: "unat sz \<le> 4096"
    and dist: "distinct [code, stack, ct, st]" and P: "pfn ` {code, stack, ct, st} \<subseteq> F"
    and al: "page_aligned code" "page_aligned stack" "page_aligned ct" "page_aligned st"
    and sep: "{code, stack, ct, st} \<inter> {dir, T} = {}"
    and map: "vm_ok dir T (no_slots(0 \<mapsto> pd)) b G s0" "only_frames {T} (pmem s) (pmem s0)"
  obtains s1 s2 s3 s4 where "install_page (slot_va 0) 0 ct 0 code s0 = Some s1"
    and "install_page (slot_va 0) 1022 st 1023 stack s1 = Some s2" and "temp_unmap_page (slot_va 0) s2 = Some s3"
    and "copy_program bin code sz s3 = Some s4"
    and "vm_ok dir T no_slots b G s4" and "program_tables dir pd ct code st stack (pmem s4)"
    and "\<And>i. i < unat sz \<Longrightarrow> pmem s4 (code + of_nat i) = pmem s (bin + of_nat i)"
    and "only_frames {T, pd, code, ct, st} (pmem s) (pmem s4)"
proof -
  have new: "code \<noteq> pd" "ct \<noteq> pd" "st \<noteq> pd" "bin \<noteq> code" "bin \<noteq> ct" "bin \<noteq> st" using P pd(3) bin(4) by auto
  have sp: "code \<noteq> dir" "code \<noteq> T" "ct \<noteq> dir" "ct \<noteq> T" "st \<noteq> dir" "st \<noteq> T" using sep by auto
  have ds: "st \<noteq> ct" "ct \<noteq> code" "st \<noteq> code" using dist by auto
  have d: "page_aligned dir" "page_aligned pd" "pd \<noteq> dir" "dir \<noteq> T"
    using temp_invD(4,6) [OF vm_okD(1) [OF ok]] pd(1) by (auto simp: user_directory_def)
  obtain s1 s2 s3 where s3: "install_page (slot_va 0) 0 ct 0 code s0 = Some s1"
    "install_page (slot_va 0) 1022 st 1023 stack s1 = Some s2" "temp_unmap_page (slot_va 0) s2 = Some s3"
    "vm_ok dir T no_slots b G s3" "only_frames {T, pd, ct, st} (pmem s) (pmem s3)"
    "program_tables dir pd ct code st stack (pmem s3)"
    using install_both [OF ok pd(1,2) al(3) sp(3,4) new(2) al(4) sp(5,6) new(3) ds(1) map] .
  obtain s4 where s4: "copy_program bin code sz s3 = Some s4" "vm_ok dir T no_slots b G s4"
    "only_frames {T, code} (pmem s3) (pmem s4)"
    "\<And>i. i < unat sz \<Longrightarrow> pmem s4 (code + of_nat i) = pmem s3 (bin + of_nat i)"
    by (rule copy_program_ok [OF s3(4) bin(1,2) new(4) al(1) sp(1,2) sz]) blast
  have tables: "program_tables dir pd ct code st stack (pmem s4)"
    by (rule program_tables_cong [OF s3(6) s4(3) _ d(1,2) al(3,4)]) (use sp ds new d pd(2) in auto)
  have bytes: "pmem s4 (code + of_nat i) = pmem s (bin + of_nat i)" if i: "i < unat sz" for i
  proof -
    have "pmem s3 (bin + of_nat i) = pmem s (bin + of_nat i)"
      by (rule only_frames_byte [OF s3(5) _ bin(1)]) (use bin(2,3) new i sz in auto)
    then show ?thesis using s4(4) [OF i] by simp
  qed
  have o: "only_frames {T, pd, code, ct, st} (pmem s) (pmem s4)"
    by (rule only_frames_mono [OF only_frames_trans [OF s3(5) s4(3)]]) auto
  show thesis by (rule that [OF s3(1-3) s4(1,2) tables bytes o])
qed

lemma load_ok:
  assumes ok: "vm_ok dir T no_slots b F s" and pd: "user_directory dir (\<lambda>_. 0) pd (pmem s)" "pd \<noteq> T" "pfn pd \<notin> F"
    and bin: "page_aligned bin" "bin \<noteq> T" "bin \<noteq> pd" "pfn bin \<notin> F" and sz: "unat sz \<le> 4096"
  obtains (none) s' where "vmm_load_user_program pd bin sz s = Some (0, s')" and "card F < 4"
      and "vm_ok dir T no_slots b F s'" and "only_frames {T} (pmem s) (pmem s')"
  | (loaded) code stack ct st s' where "vmm_load_user_program pd bin sz s = Some (1, s')"
      and "distinct [code, stack, ct, st]" and "pfn ` {code, stack, ct, st} \<subseteq> F"
      and "page_aligned code" and "page_aligned stack" and "page_aligned ct" and "page_aligned st"
      and "vm_ok dir T no_slots b (F - pfn ` {code, stack, ct, st}) s'"
      and "program_tables dir pd ct code st stack (pmem s')"
      and "\<And>i. i < unat sz \<Longrightarrow> pmem s' (code + of_nat i) = pmem s (bin + of_nat i)"
      and "only_frames {T, pd, code, ct, st} (pmem s) (pmem s')"
  using ok
proof (cases rule: alloc_page_cases)
  case no: none
  show ?thesis
    by (rule none [of s]) (use no ok in \<open>simp_all add: vmm_load_user_program_def\<close>)
next
  case code: (page code s1)
  show ?thesis
    using code(8)
  proof (cases rule: alloc_page_cases)
    case no: none
    obtain s' where s': "free_page code s1 = Some s'" "vm_ok dir T no_slots b F s'" "pmem s' = pmem s1"
      using free_taken [OF code(8,4,5-7)] .
    have "card F < 4" by (rule card_fewer [of F "pfn code" 0 0]) (use no(2) in auto)
    moreover have "vmm_load_user_program pd bin sz s = Some (0, s')"
      using code(1,2) no(1) s'(1) by (simp add: vmm_load_user_program_def)
    ultimately show ?thesis using none s'(2,3) code(9) by simp
  next
    case stack: (page stack s2)
    have al: "page_aligned pd" using pd(1) by (simp add: user_directory_def)
    obtain s3 where s3: "temp_map_page pd s2 = Some (slot_va 0, s3)"
      "vm_ok dir T (no_slots(0 \<mapsto> pd)) b (F - {pfn code} - {pfn stack}) s3" "only_frames {T} (pmem s2) (pmem s3)"
      using map_slot [OF stack(8) al first_slot_0] .
    let ?A = "no_slots(0 \<mapsto> pd)"
    have A: "(0::nat) < 4" "?A 0 = Some pd" and A0: "?A(0 := None) = no_slots" by auto
    show ?thesis
      using s3(2)
    proof (cases rule: alloc_page_cases)
      case no: none
      obtain s4 where s4: "temp_unmap_page (slot_va 0) s3 = Some s4" "vm_ok dir T (?A(0 := None)) b (F - {pfn code} - {pfn stack}) s4"
        "only_frames {T} (pmem s3) (pmem s4)" using unmap_slot [OF s3(2) A] .
      obtain s5 s6 where s6: "free_page code s4 = Some s5" "free_page stack s5 = Some s6" "vm_ok dir T no_slots b F s6" "pmem s6 = pmem s4"
        using give_back_2 [OF s4(2) [unfolded A0] code(4) stack(4) code(5) stack(5) code(6,7) stack(6,7)] .
      have "card F < 4" by (rule card_fewer [of F "pfn code" "pfn stack" 0]) (use no(2) in auto)
      moreover have "vmm_load_user_program pd bin sz s = Some (0, s6)"
        using code(1,2) stack(1,2) s3(1) no(1) s4(1) s6(1,2) by (simp add: vmm_load_user_program_def)
      moreover have "only_frames {T} (pmem s) (pmem s6)"
        using only_frames_trans [OF s3(3) s4(3)] s6(4) code(9) stack(9) by simp
      ultimately show ?thesis using none s6(3) by blast
    next
      case ct: (page ct s4)
      show ?thesis
        using ct(8)
      proof (cases rule: alloc_page_cases)
        case no: none
        obtain s5 where s5: "temp_unmap_page (slot_va 0) s4 = Some s5"
          "vm_ok dir T (?A(0 := None)) b (F - {pfn code} - {pfn stack} - {pfn ct}) s5"
          "only_frames {T} (pmem s4) (pmem s5)" using unmap_slot [OF ct(8) A] .
        obtain s6 s7 s8 where s8: "free_page code s5 = Some s6" "free_page stack s6 = Some s7" "free_page ct s7 = Some s8"
          "vm_ok dir T no_slots b F s8" "pmem s8 = pmem s5"
          using give_back_3 [OF s5(2) [unfolded A0] code(4) stack(4) ct(4) code(5) stack(5) ct(5) code(6,7) stack(6,7) ct(6,7)] .
        have "card F < 4" by (rule card_fewer [OF no(2)])
        moreover have "vmm_load_user_program pd bin sz s = Some (0, s8)"
          using code(1,2) stack(1,2) s3(1) ct(1,2) no(1) s5(1) s8(1-3) by (simp add: vmm_load_user_program_def)
        moreover have "only_frames {T} (pmem s) (pmem s8)"
          using only_frames_trans [OF s3(3) s5(3) [unfolded ct(9)]] s8(5) code(9) stack(9) by simp
        ultimately show ?thesis using none s8(4) by blast
      next
        case st: (page st s5)
        let ?P = "pfn ` {code, stack, ct, st}"
        have G: "F - {pfn code} - {pfn stack} - {pfn ct} - {pfn st} = F - ?P" by auto
        have P: "?P \<subseteq> F" using code(5) stack(5) ct(5) st(5) by simp
        have dist: "distinct [code, stack, ct, st]" using stack(5) ct(5) st(5) by auto
        have o3: "only_frames {T} (pmem s) (pmem s5)" using s3(3) code(9) stack(9) ct(9) st(9) by simp
        have "{code, stack, ct, st} \<inter> {dir, T} = {}" using code(6,7) stack(6,7) ct(6,7) st(6,7) by auto
        then obtain s6 s7 s8 s9 where s9: "install_page (slot_va 0) 0 ct 0 code s5 = Some s6"
          "install_page (slot_va 0) 1022 st 1023 stack s6 = Some s7" "temp_unmap_page (slot_va 0) s7 = Some s8"
          "copy_program bin code sz s8 = Some s9"
          "vm_ok dir T no_slots b (F - ?P) s9" "program_tables dir pd ct code st stack (pmem s9)"
          "\<And>i. i < unat sz \<Longrightarrow> pmem s9 (code + of_nat i) = pmem s (bin + of_nat i)"
          "only_frames {T, pd, code, ct, st} (pmem s) (pmem s9)"
          using build_space [OF ok pd bin sz dist P code(3) stack(3) ct(3) st(3) _ st(8) [unfolded G] o3] by metis
        have "vmm_load_user_program pd bin sz s = Some (1, s9)"
          using code(1,2) stack(1,2) s3(1) ct(1,2) st(1,2) s9(1-4) by (simp add: vmm_load_user_program_def)
        then show ?thesis by (rule loaded [OF _ dist P code(3) stack(3) ct(3) st(3) s9(5-8)])
      qed
    qed
  qed
qed

section \<open>A concrete start\<close>

lemma boot_vm_ok:
  obtains b s where "s = boot_vm b" and "vm_ok 0x1000 0x2000 no_slots 0x01000000 {0x1800..<0x2800} s"
proof -
  obtain b where b: "buddy_inv b (init_blocks 0x01800000 2)" "base_addr b = 0x01000000"
    "free_frames (init_blocks 0x01800000 2) = {0x1800..<0x2800}" using boot_blocks by blast
  then have "pmm_ok 0x01000000 {0x1800..<0x2800} b" by (auto simp: pmm_ok_def)
  then have "vm_ok 0x1000 0x2000 no_slots 0x01000000 {0x1800..<0x2800} (boot_vm b)"
    using boot_vm_inv by (simp add: vm_ok_def pfn_def)
  then show thesis using that by blast
qed

section \<open>Properties\<close>

text \<open>
  C13: With the temporary mappings unused vmm_create_user_space returns 0 exactly if no page is free,
  with nothing changed; otherwise it takes one free page, a directory in which nothing below
  0xC0000000 is mapped and every higher address translates as in the kernel directory, gives the
  mapping slots back, and vmm_destroy_user_space returns the page.
\<close>

theorem vmm_create_spec:
  assumes "vm_ok dir T no_slots b F s"
  shows "\<exists>d s'. vmm_create_user_space s = Some (d, s') \<and> (d = 0 \<longleftrightarrow> F = {}) \<and>
    (if d = 0 then s' = s
     else user_directory dir (\<lambda>_. 0) d (pmem s') \<and> d \<noteq> T \<and> pfn d \<in> F \<and> vm_ok dir T no_slots b (F - {pfn d}) s' \<and>
       (\<forall>va. translate d (pmem s') va = (if unat va < 0xC0000000 then None else translate dir (pmem s') va)) \<and>
       (\<exists>s''. vmm_destroy_user_space d s' = Some s'' \<and> vm_ok dir T no_slots b F s''))"
  using assms
proof (cases rule: create_user_space_ok)
  case (space d s')
  have "d \<noteq> dir" using space(7) by (simp add: user_directory_def)
  then obtain s'' where "free_page d s' = Some s''" "vm_ok dir T no_slots b F s''"
    using free_taken [OF space(6,3,4) _ space(5)] by blast
  then show ?thesis using space user_directory_translate [OF space(7)]
    by (auto simp: vmm_destroy_user_space_def)
qed auto

theorem vmm_create_spec_witness:
  "\<exists>b d s'. vmm_create_user_space (boot_vm b) = Some (d, s') \<and> d \<noteq> 0 \<and> translate d (pmem s') 0x5000 = None"
proof -
  obtain b s where s: "s = boot_vm b" "vm_ok 0x1000 0x2000 no_slots 0x01000000 {0x1800..<0x2800} s"
    by (rule boot_vm_ok)
  obtain d s' where d: "vmm_create_user_space s = Some (d, s')" "d \<noteq> 0"
    "\<forall>va. translate d (pmem s') va = (if unat va < 0xC0000000 then None else translate 0x1000 (pmem s') va)"
  proof -
    have "{0x1800..<0x2800::nat} \<noteq> {}" by simp
    then show thesis using vmm_create_spec [OF s(2)] that by metis
  qed
  from d(3) [THEN spec, of "0x5000"] have "translate d (pmem s') 0x5000 = None" by simp
  with d(1,2) s(1) show ?thesis by blast
qed

text \<open>
  C7: vmm_load_user_program of a page-aligned program of at most one page into a fresh user directory
  returns 0 exactly if fewer than four pages are free, and then all pages are given back; otherwise it
  takes four pages and the directory maps page 0 to a copy of the program, the stack page at
  0xFFBFF000 and nothing else below 0xC0000000: address 0xBFFFFFFB, where the stack of a process
  starts, is not mapped.
\<close>

theorem vmm_load_spec:
  assumes "vm_ok dir T no_slots b F s" and "user_directory dir (\<lambda>_. 0) pd (pmem s)" and "pd \<noteq> T" and "pfn pd \<notin> F"
    and "page_aligned bin" and "bin \<noteq> T" and "bin \<noteq> pd" and "pfn bin \<notin> F" and "unat sz \<le> 4096"
  shows "\<exists>r s'. vmm_load_user_program pd bin sz s = Some (r, s') \<and>
    (if card F < 4 then r = 0 \<and> vm_ok dir T no_slots b F s'
     else r = 1 \<and> (\<exists>code stack P. code \<noteq> stack \<and> {code, stack} \<subseteq> P \<and> pfn ` P \<subseteq> F \<and> card (pfn ` P) = 4 \<and>
       vm_ok dir T no_slots b (F - pfn ` P) s' \<and>
       (\<forall>va. translate pd (pmem s') va =
         (if unat va < 0x1000 then Some (code + va)
          else if unat va < 0xC0000000 then None
          else if unat va < 0xFF800000 \<or> 0xFFC00000 \<le> unat va then translate dir (pmem s') va
          else if 0xFFBFF000 \<le> unat va then Some (stack + (va AND 0xFFF)) else None)) \<and>
       (\<forall>i<unat sz. pmem s' (code + of_nat i) = pmem s (bin + of_nat i)) \<and>
       translate pd (pmem s') 0xBFFFFFFB = None))"
  using assms
proof (cases rule: load_ok)
  case (loaded code stack ct st s')
  let ?P = "{code, stack, ct, st}"
  have inj: "inj_on pfn ?P"
    using loaded(4-7) page_pfn_eq by (intro inj_onI) auto
  have "card ?P = 4" using loaded(2) by simp
  then have P: "card (pfn ` ?P) = 4" using card_image [OF inj] by simp
  have card: "\<not> card F < 4"
    using card_mono [OF vm_ok_finite [OF assms(1)] loaded(3)] P by simp
  note tr = program_translate [OF loaded(9,6,4,7,5)]
  have top: "translate pd (pmem s') 0xBFFFFFFB = None" by (simp add: tr)
  show ?thesis
    unfolding if_not_P [OF card]
    by (rule exI [of _ 1], rule exI [of _ s'], intro conjI, rule loaded(1), rule refl,
        rule exI [of _ code], rule exI [of _ stack], rule exI [of _ ?P])
      (use loaded(2,3,8,10) P tr top in auto)
qed auto

theorem vmm_load_spec_witness:
  "\<exists>b d s' s''. vmm_create_user_space (boot_vm b) = Some (d, s') \<and>
     vmm_load_user_program d 0x00800000 100 s' = Some (1, s'') \<and> translate d (pmem s'') 0xBFFFFFFB = None"
proof -
  obtain b s where s: "s = boot_vm b" "vm_ok 0x1000 0x2000 no_slots 0x01000000 {0x1800..<0x2800} s"
    by (rule boot_vm_ok)
  show ?thesis
    using s(2)
  proof (cases rule: create_user_space_ok)
    case (space d s')
    have d: "pfn d \<notin> {0x1800..<0x2800} - {pfn d}" "0x00800000 \<noteq> d"
      using space(4) by (auto simp: pfn_def)
    have "card ({0x1800..<0x2800} - {pfn d}) = 4095" using space(4) by simp
    with vmm_load_spec [OF space(6,7,5) d(1), of "0x00800000" 100] d(2)
    obtain s'' where "vmm_load_user_program d 0x00800000 100 s' = Some (1, s'')"
      "translate d (pmem s'') 0xBFFFFFFB = None"
      by (auto simp: page_aligned_def pfn_def)
    then show ?thesis using space(1) s(1) by blast
  qed simp
qed

end
