(* ===== verification/Kmalloc.thy ===== *)
theory Kmalloc
  imports PmmInit Cstring
begin

text \<open>
  The kernel heap of \<open>kernel/mm/kmalloc.h\<close> and \<open>kernel/mm/kmalloc.c\<close>. The state is the record
  \<open>heap_mgr\<close> with the block headers by address (\<open>hdr\<close>, a pointer \<open>0\<close> is \<open>NULL\<close>) and the bytes of the
  payloads (\<open>hbytes\<close>); that payloads never overlap headers is part of what is proved. Log output is
  left out.
\<close>

section \<open>State\<close>

definition KMALLOC_MIN_SIZE :: u32 where
  [simp]: "KMALLOC_MIN_SIZE = 16"

definition KMALLOC_MAX_SIZE :: u32 where
  [simp]: "KMALLOC_MAX_SIZE = 4 * 1024 * 1024"

definition HEADER_SIZE :: u32 where
  [simp]: "HEADER_SIZE = 16"

record kmalloc_header =
  hsize :: u32
  is_free :: u8
  hnext :: u32
  hprev :: u32

record heap_manager =
  h_lock :: u32
  h_head :: u32
  total_allocated :: u32
  total_freed :: u32
  current_usage :: u32
  hdr :: "u32 \<Rightarrow> kmalloc_header"
  hbytes :: mem

definition heap_bss :: heap_manager where
  "heap_bss = \<lparr>h_lock = 0, h_head = 0, total_allocated = 0, total_freed = 0, current_usage = 0,
     hdr = (\<lambda>_. \<lparr>hsize = 0, is_free = 0, hnext = 0, hprev = 0\<rparr>), hbytes = (\<lambda>_. 0)\<rparr>"

definition ALIGN_UP :: "u32 \<Rightarrow> u32 \<Rightarrow> u32" where
  "ALIGN_UP x align = (x + align - 1) AND NOT (align - 1)"

definition upd_hdr :: "u32 \<Rightarrow> (kmalloc_header \<Rightarrow> kmalloc_header) \<Rightarrow> heap_manager \<Rightarrow> heap_manager" where
  "upd_hdr h f s = s\<lparr>hdr := (hdr s)(h := f (hdr s h))\<rparr>"

section \<open>Initialisation\<close>

definition kmalloc_init :: "heap_manager \<Rightarrow> buddy_system \<Rightarrow> (heap_manager \<times> buddy_system) option" where
  "kmalloc_init s b = do {
     let s = s\<lparr>h_lock := spinlock_init (h_lock s), h_head := 0, total_allocated := 0,
                total_freed := 0, current_usage := 0\<rparr>;
     let initial_pages = 256;
     (heap_start, b) \<leftarrow> pmm_alloc_pages 8 b;
     let s = s\<lparr>h_head := heap_start\<rparr>;
     let s = upd_hdr (h_head s) (\<lambda>h. h\<lparr>hsize := initial_pages * PAGE_SIZE\<rparr>) s;
     let s = upd_hdr (h_head s) (\<lambda>h. h\<lparr>is_free := 1\<rparr>) s;
     let s = upd_hdr (h_head s) (\<lambda>h. h\<lparr>hnext := 0\<rparr>) s;
     let s = upd_hdr (h_head s) (\<lambda>h. h\<lparr>hprev := 0\<rparr>) s;
     Some (s, b)
   }"

section \<open>Allocation\<close>

text \<open>The search loop of \<open>kmalloc\<close>; \<open>None\<close> when the header list is circular.\<close>

partial_function (option) best_fit_loop ::
  "(u32 \<Rightarrow> kmalloc_header) \<Rightarrow> u32 \<Rightarrow> u32 \<Rightarrow> u32 \<Rightarrow> u32 option" where
  "best_fit_loop hs actual_size current best_fit =
     (if current \<noteq> 0 then
        best_fit_loop hs actual_size (hnext (hs current))
          (if is_free (hs current) \<noteq> 0 \<and> hsize (hs current) \<ge> actual_size then
             if best_fit = 0 \<or> hsize (hs current) < hsize (hs best_fit) then current else best_fit
           else best_fit)
      else Some best_fit)"

definition split_header :: "u32 \<Rightarrow> u32 \<Rightarrow> heap_manager \<Rightarrow> heap_manager" where
  "split_header best_fit actual_size s =
     (if hsize (hdr s best_fit) \<ge> actual_size + HEADER_SIZE + KMALLOC_MIN_SIZE then
        let new_block = best_fit + actual_size;
            s = upd_hdr new_block (\<lambda>h. h\<lparr>hsize := hsize (hdr s best_fit) - actual_size\<rparr>) s;
            s = upd_hdr new_block (\<lambda>h. h\<lparr>is_free := 1\<rparr>) s;
            s = upd_hdr new_block (\<lambda>h. h\<lparr>hprev := best_fit\<rparr>) s;
            s = upd_hdr new_block (\<lambda>h. h\<lparr>hnext := hnext (hdr s best_fit)\<rparr>) s;
            s = (if hnext (hdr s best_fit) \<noteq> 0
                 then upd_hdr (hnext (hdr s best_fit)) (\<lambda>h. h\<lparr>hprev := new_block\<rparr>) s else s);
            s = upd_hdr best_fit (\<lambda>h. h\<lparr>hsize := actual_size\<rparr>) s
        in upd_hdr best_fit (\<lambda>h. h\<lparr>hnext := new_block\<rparr>) s
      else s)"

definition kmalloc :: "u32 \<Rightarrow> heap_manager \<Rightarrow> (u32 \<times> heap_manager) option" where
  "kmalloc sz s =
     (if sz = 0 then Some (0, s)
      else if sz > KMALLOC_MAX_SIZE then Some (0, s)
      else do {
        l \<leftarrow> spinlock_acquire (h_lock s);
        let s = s\<lparr>h_lock := l\<rparr>;
        let actual_size = ALIGN_UP (sz + HEADER_SIZE) 8;
        best_fit \<leftarrow> best_fit_loop (hdr s) actual_size (h_head s) 0;
        if best_fit \<noteq> 0 then
          let s = split_header best_fit actual_size s;
              s = upd_hdr best_fit (\<lambda>h. h\<lparr>is_free := 0\<rparr>) s;
              result = best_fit + HEADER_SIZE;
              s = s\<lparr>hbytes := memset result 0 sz (hbytes s)\<rparr>;
              s = s\<lparr>total_allocated := total_allocated s + sz\<rparr>;
              s = s\<lparr>current_usage := current_usage s + hsize (hdr s best_fit)\<rparr>
          in Some (result, s\<lparr>h_lock := spinlock_release (h_lock s)\<rparr>)
        else Some (0, s\<lparr>h_lock := spinlock_release (h_lock s)\<rparr>)
      })"

section \<open>Release\<close>

definition merge_next :: "u32 \<Rightarrow> heap_manager \<Rightarrow> heap_manager" where
  "merge_next header s =
     (let nx = hnext (hdr s header) in
      if nx \<noteq> 0 \<and> is_free (hdr s nx) \<noteq> 0 then
        let s = upd_hdr header (\<lambda>h. h\<lparr>hsize := hsize h + hsize (hdr s nx)\<rparr>) s;
            s = upd_hdr header (\<lambda>h. h\<lparr>hnext := hnext (hdr s nx)\<rparr>) s
        in if hnext (hdr s header) \<noteq> 0
           then upd_hdr (hnext (hdr s header)) (\<lambda>h. h\<lparr>hprev := header\<rparr>) s else s
      else s)"

definition merge_prev :: "u32 \<Rightarrow> heap_manager \<Rightarrow> heap_manager" where
  "merge_prev header s =
     (let pv = hprev (hdr s header) in
      if pv \<noteq> 0 \<and> is_free (hdr s pv) \<noteq> 0 then
        let s = upd_hdr pv (\<lambda>h. h\<lparr>hsize := hsize h + hsize (hdr s header)\<rparr>) s;
            s = upd_hdr pv (\<lambda>h. h\<lparr>hnext := hnext (hdr s header)\<rparr>) s
        in if hnext (hdr s header) \<noteq> 0
           then upd_hdr (hnext (hdr s header)) (\<lambda>h. h\<lparr>hprev := hprev (hdr s header)\<rparr>) s else s
      else s)"

definition kfree :: "u32 \<Rightarrow> heap_manager \<Rightarrow> heap_manager option" where
  "kfree ptr s =
     (if ptr = 0 then Some s
      else do {
        l \<leftarrow> spinlock_acquire (h_lock s);
        let s = s\<lparr>h_lock := l\<rparr>;
        let header = ptr - HEADER_SIZE;
        if is_free (hdr s header) \<noteq> 0 then Some (s\<lparr>h_lock := spinlock_release (h_lock s)\<rparr>)
        else
          let s = s\<lparr>total_freed := total_freed s + (hsize (hdr s header) - HEADER_SIZE)\<rparr>;
              s = s\<lparr>current_usage := current_usage s - hsize (hdr s header)\<rparr>;
              s = upd_hdr header (\<lambda>h. h\<lparr>is_free := 1\<rparr>) s;
              s = merge_next header s;
              s = merge_prev header s
          in Some (s\<lparr>h_lock := spinlock_release (h_lock s)\<rparr>)
      })"

section \<open>Derived operations\<close>

definition kcalloc :: "u32 \<Rightarrow> u32 \<Rightarrow> heap_manager \<Rightarrow> (u32 \<times> heap_manager) option" where
  "kcalloc num sz s = do {
     let total_size = num * sz;
     (ptr, s) \<leftarrow> kmalloc total_size s;
     if ptr \<noteq> 0 then Some (ptr, s\<lparr>hbytes := memset ptr 0 total_size (hbytes s)\<rparr>)
     else Some (ptr, s)
   }"

definition krealloc :: "u32 \<Rightarrow> u32 \<Rightarrow> heap_manager \<Rightarrow> (u32 \<times> heap_manager) option" where
  "krealloc ptr sz s =
     (if ptr = 0 then kmalloc sz s
      else if sz = 0 then do {
        s \<leftarrow> kfree ptr s;
        Some (0, s)
      }
      else
        let header = ptr - HEADER_SIZE;
            old_size = hsize (hdr s header) - HEADER_SIZE
        in if sz \<le> old_size then Some (ptr, s)
           else do {
             (new_ptr, s) \<leftarrow> kmalloc sz s;
             if new_ptr = 0 then Some (0, s)
             else do {
               let s = s\<lparr>hbytes := memcpy new_ptr ptr old_size (hbytes s)\<rparr>;
               s \<leftarrow> kfree ptr s;
               Some (new_ptr, s)
             }
           })"

text \<open>
  The counting loop of \<open>kmalloc_stats\<close> (free and used blocks, free and used bytes), and the numbers
  it prints; the efficiency line is printed only while the heap is in use.
\<close>

partial_function (option) stats_loop ::
  "(u32 \<Rightarrow> kmalloc_header) \<Rightarrow> u32 \<Rightarrow> u32 \<times> u32 \<times> u32 \<times> u32 \<Rightarrow> (u32 \<times> u32 \<times> u32 \<times> u32) option" where
  "stats_loop hs current acc =
     (if current \<noteq> 0 then
        stats_loop hs (hnext (hs current))
          (case acc of (free_blocks, used_blocks, total_free, total_used) \<Rightarrow>
             if is_free (hs current) \<noteq> 0
             then (free_blocks + 1, used_blocks, total_free + hsize (hs current), total_used)
             else (free_blocks, used_blocks + 1, total_free, total_used + hsize (hs current)))
      else Some acc)"

definition kmalloc_stats ::
  "heap_manager \<Rightarrow> ((u32 \<times> u32 \<times> u32 \<times> u32) \<times> u32 option \<times> heap_manager) option" where
  "kmalloc_stats s = do {
     l \<leftarrow> spinlock_acquire (h_lock s);
     let s = s\<lparr>h_lock := l\<rparr>;
     counts \<leftarrow> stats_loop (hdr s) (h_head s) (0, 0, 0, 0);
     let efficiency = (if current_usage s > 0
                       then Some ((total_allocated s * 100) div current_usage s) else None);
     Some (counts, efficiency, s\<lparr>h_lock := spinlock_release (h_lock s)\<rparr>)
   }"

section \<open>From headers to a list of blocks\<close>

text \<open>A block: address of its header, size with the header, and whether it is free.\<close>

type_synonym hblock = "u32 \<times> nat \<times> bool"

fun first_addr :: "hblock list \<Rightarrow> u32 \<Rightarrow> u32" where
  "first_addr [] z = z"
| "first_addr ((b, _) # _) z = b"

fun last_addr :: "u32 \<Rightarrow> hblock list \<Rightarrow> u32" where
  "last_addr p [] = p"
| "last_addr p ((b, _) # bs) = last_addr b bs"

fun chain :: "(u32 \<Rightarrow> kmalloc_header) \<Rightarrow> u32 \<Rightarrow> hblock list \<Rightarrow> u32 \<Rightarrow> bool" where
  "chain hs p [] z \<longleftrightarrow> True"
| "chain hs p ((b, n, f) # bs) z \<longleftrightarrow>
     hsize (hs b) = of_nat n \<and> (is_free (hs b) \<noteq> 0 \<longleftrightarrow> f) \<and> hprev (hs b) = p \<and>
     hnext (hs b) = first_addr bs z \<and> chain hs b bs z"

text \<open>The blocks tile the addresses from \<open>lo\<close> to \<open>hi\<close>.\<close>

fun tiles :: "nat \<Rightarrow> nat \<Rightarrow> hblock list \<Rightarrow> bool" where
  "tiles lo hi [] \<longleftrightarrow> lo = hi"
| "tiles lo hi ((b, n, _) # bs) \<longleftrightarrow> unat b = lo \<and> 16 \<le> n \<and> 8 dvd n \<and> tiles (lo + n) hi bs"

fun coalesced :: "hblock list \<Rightarrow> bool" where
  "coalesced ((_, _, f) # (c, m, g) # bs) \<longleftrightarrow> \<not> (f \<and> g) \<and> coalesced ((c, m, g) # bs)"
| "coalesced _ \<longleftrightarrow> True"

definition used_blocks :: "hblock list \<Rightarrow> (u32 \<times> nat) set" where
  "used_blocks bs = {(b, n). (b, n, False) \<in> set bs}"

fun used_sum :: "hblock list \<Rightarrow> nat" where
  "used_sum [] = 0"
| "used_sum ((_, n, f) # bs) = (if f then 0 else n) + used_sum bs"

definition heap_inv :: "nat \<Rightarrow> nat \<Rightarrow> heap_manager \<Rightarrow> hblock list \<Rightarrow> bool" where
  "heap_inv lo hi s bs \<longleftrightarrow>
     h_lock s = 0 \<and> h_head s = first_addr bs 0 \<and> chain (hdr s) 0 bs 0 \<and> tiles lo hi bs \<and>
     0 < lo \<and> 8 dvd lo \<and> hi < 2 ^ 32 \<and> coalesced bs \<and> current_usage s = of_nat (used_sum bs)"

section \<open>Block lists\<close>

abbreviation addrs :: "hblock list \<Rightarrow> u32 set" where
  "addrs bs \<equiv> fst ` set bs"

lemma in_addrs: "(b, n, f) \<in> set bs \<Longrightarrow> b \<in> addrs bs"
  by force

lemma first_addr_append [simp]: "first_addr (xs @ ys) z = first_addr xs (first_addr ys z)"
  by (cases xs) auto

lemma last_addr_append [simp]: "last_addr p (xs @ ys) = last_addr (last_addr p xs) ys"
  by (induction xs arbitrary: p) auto

lemma chain_append [simp]:
  "chain hs p (xs @ ys) z \<longleftrightarrow> chain hs p xs (first_addr ys z) \<and> chain hs (last_addr p xs) ys z"
  by (induction xs arbitrary: p) auto

lemma chain_upd [simp]: "b \<notin> addrs bs \<Longrightarrow> chain (hs(b := k)) p bs z = chain hs p bs z"
  by (induction bs arbitrary: p) auto

lemma tiles_le: "tiles lo hi bs \<Longrightarrow> lo \<le> hi"
  by (induction bs arbitrary: lo) fastforce+

lemma tiles_append: "tiles lo hi (xs @ ys) \<longleftrightarrow> (\<exists>mid. tiles lo mid xs \<and> tiles mid hi ys)"
  by (induction xs arbitrary: lo) auto

lemma tiles_bounds: "tiles lo hi bs \<Longrightarrow> (b, n, f) \<in> set bs \<Longrightarrow> lo \<le> unat b \<and> unat b + n \<le> hi \<and> 16 \<le> n \<and> 8 dvd n"
proof (induction bs arbitrary: lo)
  case (Cons x bs)
  obtain c k g where x: "x = (c, k, g)" by (cases x)
  show ?case
  proof (cases "(b, n, f) = x")
    case True
    then show ?thesis using Cons.prems(1) tiles_le [of "lo + k" hi bs] x by auto
  next
    case False
    then show ?thesis using Cons.IH [of "lo + k"] Cons.prems x by auto
  qed
qed simp

lemma tiles_addr: "tiles lo hi bs \<Longrightarrow> b \<in> addrs bs \<Longrightarrow> lo \<le> unat b \<and> unat b < hi"
  using tiles_bounds [of lo hi bs] by fastforce

lemma tiles_distinct: "tiles lo hi bs \<Longrightarrow> distinct (map fst bs)"
proof (induction bs arbitrary: lo)
  case (Cons x bs)
  obtain c k g where x: "x = (c, k, g)" by (cases x)
  have "c \<notin> addrs bs" using tiles_addr [of "lo + k" hi bs c] Cons.prems x by auto
  then show ?case using Cons x by auto
qed simp

lemma tiles_nonnull: "tiles lo hi bs \<Longrightarrow> 0 < lo \<Longrightarrow> 0 \<notin> addrs bs"
  using tiles_addr [of lo hi bs 0] by auto

lemma tiles_dvd: "tiles lo hi bs \<Longrightarrow> 8 dvd lo \<Longrightarrow> (b, n, f) \<in> set bs \<Longrightarrow> 8 dvd unat b"
  by (induction bs arbitrary: lo) auto

text \<open>Two blocks of a tiling do not overlap.\<close>

lemma tiles_disjoint:
  "tiles lo hi bs \<Longrightarrow> (b, n, f) \<in> set bs \<Longrightarrow> (c, m, g) \<in> set bs \<Longrightarrow> (b, n, f) \<noteq> (c, m, g) \<Longrightarrow>
   unat b + n \<le> unat c \<or> unat c + m \<le> unat b"
proof (induction bs arbitrary: lo)
  case (Cons x bs)
  obtain d k h where x: "x = (d, k, h)" by (cases x)
  with Cons.prems show ?case
    using tiles_bounds [of "lo + k" hi bs] Cons.IH [of "lo + k"] by fastforce
qed simp

lemma chain_set_free:
  assumes "chain hs p (xs @ (b, n, f) # ys) z" and "distinct (map fst (xs @ (b, n, f) # ys))"
  shows "chain (hs(b := (hs b)\<lparr>is_free := v\<rparr>)) p (xs @ (b, n, v \<noteq> 0) # ys) z"
  using assms by auto

text \<open>Making \<open>q\<close> the predecessor of the first block of a list.\<close>

definition set_prev :: "u32 \<Rightarrow> u32 \<Rightarrow> (u32 \<Rightarrow> kmalloc_header) \<Rightarrow> (u32 \<Rightarrow> kmalloc_header)" where
  "set_prev c q hs = (if c \<noteq> 0 then hs(c := (hs c)\<lparr>hprev := q\<rparr>) else hs)"

lemma chain_set_prev:
  assumes "chain hs p ys 0" and "distinct (map fst ys)" and "0 \<notin> addrs ys"
  shows "chain (set_prev (first_addr ys 0) q hs) q ys 0"
  using assms by (cases ys) (auto simp: set_prev_def)

lemma chain_set_prev_other:
  "first_addr ys 0 \<notin> addrs xs \<Longrightarrow> chain (set_prev (first_addr ys 0) q hs) p xs z = chain hs p xs z"
  by (auto simp: set_prev_def)

lemma chain_join:
  assumes "chain hs p (xs @ (b, n, f) # (c, k, g) # ys) 0"
    and "distinct (map fst (xs @ (b, n, f) # (c, k, g) # ys))" and "0 \<notin> addrs (xs @ (b, n, f) # (c, k, g) # ys)"
  shows "chain (set_prev (hnext (hs c)) b
      (hs(b := (hs b)\<lparr>hsize := hsize (hs b) + hsize (hs c), hnext := hnext (hs c)\<rparr>)))
    p (xs @ (b, n + k, f) # ys) 0"
proof -
  let ?hs = "hs(b := (hs b)\<lparr>hsize := hsize (hs b) + hsize (hs c), hnext := hnext (hs c)\<rparr>)"
  have c: "hnext (hs c) = first_addr ys 0" using assms(1) by simp
  have "chain ?hs c ys 0" using assms by (auto simp: image_Un)
  then have 1: "chain (set_prev (first_addr ys 0) b ?hs) b ys 0" using assms by (intro chain_set_prev) auto
  have f: "first_addr ys 0 \<notin> addrs (xs @ [(b, n + k, f)])"
    using assms(2,3) by (cases ys) (auto dest: in_addrs)
  have "chain ?hs p (xs @ [(b, n + k, f)]) (first_addr ys 0)"
    using assms by (auto simp: image_Un)
  then have "chain (set_prev (first_addr ys 0) b ?hs) p (xs @ [(b, n + k, f)]) (first_addr ys 0)"
    by (subst chain_set_prev_other [OF f])
  with 1 show ?thesis unfolding c by simp
qed

lemma chain_split:
  assumes "chain hs p (xs @ (b, n, f) # ys) 0" and "distinct (map fst (xs @ (b, n, f) # ys))"
    and "0 \<notin> addrs (xs @ (b, n, f) # ys)" and "c \<notin> addrs (xs @ (b, n, f) # ys)" and "a \<le> n" and "c \<noteq> 0"
  shows "chain ((set_prev (first_addr ys 0) c
      (hs(c := \<lparr>hsize = of_nat (n - a), is_free = 1, hnext = first_addr ys 0, hprev = b\<rparr>)))
      (b := (hs b)\<lparr>hsize := of_nat a, hnext := c\<rparr>))
    p (xs @ (b, a, f) # (c, n - a, True) # ys) 0"
proof -
  let ?hs = "hs(c := \<lparr>hsize = of_nat (n - a), is_free = 1, hnext = first_addr ys 0, hprev = b\<rparr>)"
  let ?h1 = "set_prev (first_addr ys 0) c ?hs"
  have f: "first_addr ys 0 \<notin> addrs (xs @ [(b, a, f), (c, n - a, True)])"
    using assms(2-4) by (cases ys) (use assms(6) in \<open>auto dest: in_addrs\<close>)
  have "chain ?hs b ys 0" using assms by (auto simp: image_Un)
  then have 1: "chain ?h1 c ys 0" using assms by (intro chain_set_prev) auto
  have 2: "chain ?h1 b [(c, n - a, True)] (first_addr ys 0)"
    using f by (subst chain_set_prev_other) auto
  have 3: "chain ?h1 p xs b" using f assms by (subst chain_set_prev_other) (auto simp: image_Un)
  have "chain ?h1 b ((c, n - a, True) # ys) 0" using 1 2 by simp
  moreover have "b \<notin> addrs ((c, n - a, True) # ys)" using assms by auto
  moreover have "b \<notin> addrs xs" using assms by auto
  moreover have "c \<noteq> b" using assms(4) by auto
  ultimately show ?thesis using 3 assms(1) by simp
qed

section \<open>The best-fit search\<close>

text \<open>The search over a list of blocks, with the best block so far.\<close>

fun best_block :: "nat \<Rightarrow> hblock list \<Rightarrow> (u32 \<times> nat) option \<Rightarrow> (u32 \<times> nat) option" where
  "best_block a [] best = best"
| "best_block a ((b, n, f) # bs) best =
     best_block a bs
       (if f \<and> a \<le> n then
          (case best of None \<Rightarrow> Some (b, n) | Some (c, m) \<Rightarrow> if n < m then Some (b, n) else Some (c, m))
        else best)"

definition best_addr :: "(u32 \<times> nat) option \<Rightarrow> u32" where
  "best_addr best = (case best of None \<Rightarrow> 0 | Some (b, _) \<Rightarrow> b)"

lemma best_addr_simps [simp]: "best_addr None = 0" "best_addr (Some (b, n)) = b"
  by (simp_all add: best_addr_def)

lemma best_block_mem:
  "best_block a bs best = Some (b, n) \<Longrightarrow> best = Some (b, n) \<or> (b, n, True) \<in> set bs \<and> a \<le> n"
proof (induction a bs best rule: best_block.induct)
  case (2 a c m f bs best)
  show ?case using 2 by (force split: if_splits option.splits)
qed simp

lemma best_block_best:
  "best_block a bs best = Some (b, n) \<Longrightarrow>
   (\<forall>(c, m, f)\<in>set bs. f \<and> a \<le> m \<longrightarrow> n \<le> m) \<and> (\<forall>c m. best = Some (c, m) \<longrightarrow> n \<le> m)"
proof (induction a bs best rule: best_block.induct)
  case (2 a c m f bs best)
  show ?case using 2 by (cases best) (auto split: if_splits)
qed auto

lemma best_block_none:
  "best_block a bs best = None \<longleftrightarrow> best = None \<and> (\<forall>(c, m, f)\<in>set bs. \<not> (f \<and> a \<le> m))"
proof (induction a bs best rule: best_block.induct)
  case (2 a c m f bs best)
  show ?case using 2 by (cases best) (auto split: if_splits)
qed simp

lemma best_fit_loop_spec:
  "chain hs p bs 0 \<Longrightarrow> 0 \<notin> addrs bs \<Longrightarrow> \<forall>(b, n, f)\<in>set bs. n < 2 ^ 32 \<Longrightarrow>
   (\<forall>c m. best = Some (c, m) \<longrightarrow> c \<noteq> 0 \<and> hsize (hs c) = of_nat m \<and> m < 2 ^ 32) \<Longrightarrow>
   best_fit_loop hs a (first_addr bs 0) (best_addr best) = Some (best_addr (best_block (unat a) bs best))"
proof (induction bs arbitrary: p best)
  case Nil
  then show ?case by (subst best_fit_loop.simps) simp
next
  case (Cons x bs)
  obtain b n f where x: "x = (b, n, f)" by (cases x)
  have n: "unat (of_nat n :: u32) = n" using Cons.prems(3) x by (simp add: unat_of_nat_small)
  let ?best = "if f \<and> unat a \<le> n then
    (case best of None \<Rightarrow> Some (b, n) | Some (c, m) \<Rightarrow> if n < m then Some (b, n) else Some (c, m)) else best"
  have "best_fit_loop hs a (first_addr bs 0) (best_addr ?best) = Some (best_addr (best_block (unat a) bs ?best))"
    using Cons.prems x by (intro Cons.IH [of b]) (auto split: option.splits)
  moreover have eq: "best_addr ?best = (if is_free (hs b) \<noteq> 0 \<and> hsize (hs b) \<ge> a then
      if best_addr best = 0 \<or> hsize (hs b) < hsize (hs (best_addr best)) then b else best_addr best
    else best_addr best)"
  proof (cases best)
    case None
    then show ?thesis using Cons.prems(1) x n by (simp add: word_le_nat_alt)
  next
    case (Some y)
    obtain c m where y: "y = (c, m)" by (cases y)
    have "unat (of_nat m :: u32) = m" "c \<noteq> 0" "hsize (hs c) = of_nat m"
      using Cons.prems(4) Some y by (auto simp: unat_of_nat_small)
    then show ?thesis using Cons.prems(1) x n Some y by (simp add: word_le_nat_alt word_less_nat_alt)
  qed
  moreover have "b \<noteq> 0" "hnext (hs b) = first_addr bs 0" using Cons.prems(1,2) x by auto
  then have "best_fit_loop hs a (first_addr (x # bs) 0) (best_addr best) =
      best_fit_loop hs a (first_addr bs 0) (best_addr ?best)"
    by (subst best_fit_loop.simps) (simp only: x first_addr.simps if_True eq not_False_eq_True)
  moreover have "best_block (unat a) (x # bs) best = best_block (unat a) bs ?best" by (simp add: x)
  ultimately show ?case by (simp only:)
qed

section \<open>Release over block lists\<close>

definition first_free :: "hblock list \<Rightarrow> bool" where
  "first_free bs = (case bs of [] \<Rightarrow> False | (_, _, f) # _ \<Rightarrow> f)"

definition last_free :: "hblock list \<Rightarrow> bool" where
  "last_free bs = (bs \<noteq> [] \<and> snd (snd (last bs)))"

lemma free_ends [simp]:
  "\<not> first_free []" "first_free ((b, n, f) # bs) = f"
  "\<not> last_free []" "last_free (bs @ [(b, n, f)]) = f"
  "last_free ((b, n, f) # bs) = (if bs = [] then f else last_free bs)"
  by (simp_all add: first_free_def last_free_def)

lemma coalesced_Cons [simp]:
  "coalesced ((b, n, f) # bs) \<longleftrightarrow> \<not> (f \<and> first_free bs) \<and> coalesced bs"
  by (cases bs) auto

lemma coalesced_append [simp]:
  "coalesced (xs @ ys) \<longleftrightarrow> coalesced xs \<and> coalesced ys \<and> \<not> (last_free xs \<and> first_free ys)"
proof (induction xs)
  case (Cons x xs)
  then show ?case by (cases x; cases xs) auto
qed simp

lemma used_sum_append [simp]: "used_sum (xs @ ys) = used_sum xs + used_sum ys"
  by (induction xs) auto

lemma used_blocks_append [simp]: "used_blocks (xs @ ys) = used_blocks xs \<union> used_blocks ys"
  by (auto simp: used_blocks_def)

lemma used_blocks_Cons [simp]:
  "used_blocks ((b, n, f) # bs) = (if f then used_blocks bs else insert (b, n) (used_blocks bs))"
  by (auto simp: used_blocks_def)

lemma used_blocks_Nil [simp]: "used_blocks [] = {}"
  by (simp add: used_blocks_def)

definition layout :: "nat \<Rightarrow> nat \<Rightarrow> hblock list \<Rightarrow> bool" where
  "layout lo hi bs \<longleftrightarrow> tiles lo hi bs \<and> 0 < lo \<and> 8 dvd lo \<and> hi < 2 ^ 32"

lemma layout_wf: "layout lo hi bs \<Longrightarrow> distinct (map fst bs) \<and> 0 \<notin> addrs bs"
  using tiles_distinct [of lo hi bs] tiles_nonnull [of lo hi bs] by (simp add: layout_def)

lemma layout_join:
  "layout lo hi (xs @ (b, n, f) # (c, k, g) # ys) \<Longrightarrow> layout lo hi (xs @ (b, n + k, f) # ys)"
  by (auto simp: layout_def tiles_append add.assoc)

lemma layout_flag: "layout lo hi (xs @ (b, n, f) # ys) = layout lo hi (xs @ (b, n, g) # ys)"
  by (simp add: layout_def tiles_append)

lemma layout_block:
  "layout lo hi (xs @ (b, n, f) # ys) \<Longrightarrow> lo \<le> unat b \<and> unat b + n \<le> hi \<and> 16 \<le> n \<and> 8 dvd n"
  using tiles_bounds [of lo hi "xs @ (b, n, f) # ys" b n f] by (simp add: layout_def)

lemma layout_split:
  assumes "layout lo hi (xs @ (b, n, f) # ys)" and "16 \<le> a" and "8 dvd a" and "a + 16 \<le> n"
  shows "layout lo hi (xs @ (b, a, g) # (b + of_nat a, n - a, h) # ys)"
proof -
  have b: "unat b + n < 2 ^ 32" using layout_block [OF assms(1)] assms(1) by (auto simp: layout_def)
  then have "unat (b + of_nat a) = unat b + a" using assms(4) by (intro no_wrap_off) simp
  moreover have "8 dvd n - a" using layout_block [OF assms(1)] assms(3) by (simp add: dvd_diff_nat)
  ultimately show ?thesis using assms by (auto simp: layout_def tiles_append)
qed

definition heap_rep :: "heap_manager \<Rightarrow> hblock list \<Rightarrow> bool" where
  "heap_rep s bs \<longleftrightarrow> h_head s = first_addr bs 0 \<and> chain (hdr s) 0 bs 0"

lemma heap_inv_alt:
  "heap_inv lo hi s bs \<longleftrightarrow>
     h_lock s = 0 \<and> heap_rep s bs \<and> layout lo hi bs \<and> coalesced bs \<and> current_usage s = of_nat (used_sum bs)"
  by (auto simp: heap_inv_def heap_rep_def layout_def)

lemma upd_hdr_simps [simp]:
  "hdr (upd_hdr h f s) = (hdr s)(h := f (hdr s h))" "h_head (upd_hdr h f s) = h_head s"
  "h_lock (upd_hdr h f s) = h_lock s" "current_usage (upd_hdr h f s) = current_usage s"
  "total_allocated (upd_hdr h f s) = total_allocated s" "total_freed (upd_hdr h f s) = total_freed s"
  "hbytes (upd_hdr h f s) = hbytes s"
  by (simp_all add: upd_hdr_def)

lemma merge_frame [simp]:
  "h_head (merge_next h s) = h_head s" "h_lock (merge_next h s) = h_lock s"
  "current_usage (merge_next h s) = current_usage s" "hbytes (merge_next h s) = hbytes s"
  "h_head (merge_prev h s) = h_head s" "h_lock (merge_prev h s) = h_lock s"
  "current_usage (merge_prev h s) = current_usage s" "hbytes (merge_prev h s) = hbytes s"
  by (simp_all add: merge_next_def merge_prev_def Let_def)

lemma merge_next_join:
  assumes "heap_rep s (xs @ (b, n, f) # (c, k, True) # ys)" and "layout lo hi (xs @ (b, n, f) # (c, k, True) # ys)"
  shows "heap_rep (merge_next b s) (xs @ (b, n + k, f) # ys)"
proof -
  let ?hs = "hdr s"
  let ?h1 = "?hs(b := (?hs b)\<lparr>hsize := hsize (?hs b) + hsize (?hs c), hnext := hnext (?hs c)\<rparr>)"
  note wf = layout_wf [OF assms(2)]
  have c: "hnext (?hs b) = c" "c \<noteq> 0" "c \<noteq> b" "is_free (?hs c) \<noteq> 0"
    using assms(1) wf by (auto simp: heap_rep_def)
  have ch: "chain ?hs 0 (xs @ (b, n, f) # (c, k, True) # ys) 0" using assms(1) by (simp add: heap_rep_def)
  have "hdr (merge_next b s) = set_prev (hnext (?hs c)) b ?h1"
    using c by (simp add: merge_next_def set_prev_def Let_def)
  moreover have "chain (set_prev (hnext (?hs c)) b ?h1) 0 (xs @ (b, n + k, f) # ys) 0"
    using wf by (intro chain_join [OF ch]) auto
  ultimately show ?thesis using assms(1) by (simp add: heap_rep_def)
qed

lemma merge_next_skip:
  assumes "heap_rep s (xs @ (b, n, f) # ys)" and "\<not> first_free ys"
  shows "merge_next b s = s"
  using assms by (cases ys) (auto simp: merge_next_def heap_rep_def Let_def)

lemma merge_prev_join:
  assumes "heap_rep s (xs @ (p, k, True) # (b, n, f) # ys)" and "layout lo hi (xs @ (p, k, True) # (b, n, f) # ys)"
  shows "heap_rep (merge_prev b s) (xs @ (p, k + n, True) # ys)"
proof -
  let ?hs = "hdr s"
  let ?h1 = "?hs(p := (?hs p)\<lparr>hsize := hsize (?hs p) + hsize (?hs b), hnext := hnext (?hs b)\<rparr>)"
  note wf = layout_wf [OF assms(2)]
  have p: "hprev (?hs b) = p" "p \<noteq> 0" "p \<noteq> b" "is_free (?hs p) \<noteq> 0"
    using assms(1) wf by (auto simp: heap_rep_def)
  have ch: "chain ?hs 0 (xs @ (p, k, True) # (b, n, f) # ys) 0" using assms(1) by (simp add: heap_rep_def)
  have "hdr (merge_prev b s) = set_prev (hnext (?hs b)) p ?h1"
    using p by (simp add: merge_prev_def set_prev_def Let_def)
  moreover have "chain (set_prev (hnext (?hs b)) p ?h1) 0 (xs @ (p, k + n, True) # ys) 0"
    using wf by (intro chain_join [OF ch]) auto
  ultimately show ?thesis using assms(1) by (simp add: heap_rep_def)
qed

lemma merge_prev_skip:
  assumes "heap_rep s (xs @ (b, n, f) # ys)" and "layout lo hi (xs @ (b, n, f) # ys)" and "\<not> last_free xs"
  shows "merge_prev b s = s"
proof (cases xs rule: rev_cases)
  case Nil
  then show ?thesis using assms(1) by (simp add: merge_prev_def heap_rep_def Let_def)
next
  case (snoc ws w)
  obtain p k g where w: "w = (p, k, g)" by (cases w)
  then show ?thesis using assms snoc by (simp add: merge_prev_def heap_rep_def Let_def)
qed

text \<open>Releasing a used block: the state is that of the list with the block free and merged.\<close>

lemma kfree_merges:
  assumes "heap_rep s (xs @ (b, n, True) # ys)" and "layout lo hi (xs @ (b, n, True) # ys)"
    and "coalesced xs" and "coalesced ys"
  obtains bs where "heap_rep (merge_prev b (merge_next b s)) bs" and "layout lo hi bs" and "coalesced bs"
    and "used_blocks bs = used_blocks (xs @ ys)" and "used_sum bs = used_sum (xs @ ys)"
proof -
  obtain m zs where 1: "heap_rep (merge_next b s) (xs @ (b, m, True) # zs)"
      "layout lo hi (xs @ (b, m, True) # zs)" "coalesced zs" "\<not> first_free zs"
      "used_blocks zs = used_blocks ys" "used_sum zs = used_sum ys"
  proof (cases "first_free ys")
    case True
    then obtain c k zs where ys: "ys = (c, k, True) # zs"
      by (auto simp: first_free_def split: list.splits)
    show thesis
    proof (rule that)
      show "heap_rep (merge_next b s) (xs @ (b, n + k, True) # zs)"
        using merge_next_join assms(1,2) unfolding ys by blast
      show "layout lo hi (xs @ (b, n + k, True) # zs)"
        using layout_join assms(2) unfolding ys by blast
    qed (use assms(4) ys in auto)
  next
    case False
    then show thesis using that [of n ys] merge_next_skip [OF assms(1)] assms by simp
  qed
  show thesis
  proof (cases "last_free xs")
    case True
    then obtain ws w where xs: "xs = ws @ [w]" and f: "snd (snd w)"
      by (cases xs rule: rev_cases) (auto simp: last_free_def)
    obtain p k where w: "w = (p, k, True)" using f by (cases w) auto
    show thesis
    proof (rule that)
      show "heap_rep (merge_prev b (merge_next b s)) (ws @ (p, k + m, True) # zs)"
        by (rule merge_prev_join [of _ ws p k b m True zs lo hi]) (use 1 xs w in simp_all)
      show "layout lo hi (ws @ (p, k + m, True) # zs)"
        by (rule layout_join [of lo hi ws p k True b m True zs]) (use 1 xs w in simp_all)
      show "coalesced (ws @ (p, k + m, True) # zs)" using 1 assms(3) xs w by simp
    qed (use 1 xs w in auto)
  next
    case False
    then show thesis using that [of "xs @ (b, m, True) # zs"] merge_prev_skip [OF 1(1,2)] 1 assms(3) by simp
  qed
qed

lemma split_list_block: "(b, n, f) \<in> set bs \<Longrightarrow> \<exists>xs ys. bs = xs @ (b, n, f) # ys"
  by (rule split_list)

lemma kfree_used:
  assumes "heap_inv lo hi s bs" and "(b, n) \<in> used_blocks bs"
  obtains s' bs' where "kfree (b + 16) s = Some s'" and "heap_inv lo hi s' bs'"
    and "used_blocks bs' = used_blocks bs - {(b, n)}" and "hbytes s' = hbytes s"
proof -
  obtain xs ys where bs: "bs = xs @ (b, n, False) # ys"
    using assms(2) split_list_block [of b n False bs] by (auto simp: used_blocks_def)
  have inv: "h_lock s = 0" "heap_rep s bs" "layout lo hi bs" "coalesced bs" "current_usage s = of_nat (used_sum bs)"
    using assms(1) by (simp_all add: heap_inv_alt)
  note wf = layout_wf [OF inv(3)] and blk = layout_block [OF inv(3) [unfolded bs]]
  let ?s1 = "upd_hdr b (\<lambda>h. h\<lparr>is_free := 1\<rparr>) (s\<lparr>h_lock := 1, total_freed := total_freed s + (of_nat n - 16),
    current_usage := current_usage s - of_nat n\<rparr>)"
  have hb: "is_free (hdr s b) = 0" "hsize (hdr s b) = of_nat n" using inv(2) bs by (auto simp: heap_rep_def)
  have "b + 16 \<noteq> 0"
  proof
    assume "b + 16 = 0"
    then have "b = - 16" by (simp add: eq_neg_iff_add_eq_0)
    then show False using blk inv(3) by (simp add: layout_def)
  qed
  then have k: "kfree (b + 16) s = Some ((merge_prev b (merge_next b ?s1))\<lparr>h_lock := 0\<rparr>)"
    using inv(1) hb by (simp add: kfree_def Let_def)
  have "chain ((hdr s)(b := (hdr s b)\<lparr>is_free := 1\<rparr>)) 0 (xs @ (b, n, (1::u8) \<noteq> 0) # ys) 0"
    using inv(2) wf bs by (intro chain_set_free) (auto simp: heap_rep_def)
  then have rep: "heap_rep ?s1 (xs @ (b, n, True) # ys)"
    using inv(2) bs by (simp add: heap_rep_def)
  have lay: "layout lo hi (xs @ (b, n, True) # ys)" using inv(3) bs layout_flag by blast
  obtain bs' where bs': "heap_rep (merge_prev b (merge_next b ?s1)) bs'" "layout lo hi bs'" "coalesced bs'"
    "used_blocks bs' = used_blocks (xs @ ys)" "used_sum bs' = used_sum (xs @ ys)"
    using kfree_merges [OF rep lay] inv(4) bs by auto
  have "(b, n) \<notin> used_blocks (xs @ ys)" using wf bs by (auto simp: used_blocks_def dest: in_addrs)
  then have ub: "used_blocks bs' = used_blocks bs - {(b, n)}" using bs bs'(4) by auto
  show thesis
  proof (rule that [OF k _ ub])
    show "heap_inv lo hi ((merge_prev b (merge_next b ?s1))\<lparr>h_lock := 0\<rparr>) bs'"
      using bs' inv(5) bs by (simp add: heap_inv_alt heap_rep_def)
  qed simp
qed

section \<open>Allocation over block lists\<close>

definition need :: "u32 \<Rightarrow> nat" where
  "need sz = (unat sz + 23) div 8 * 8"

lemma ALIGN_UP_need:
  assumes "sz \<le> KMALLOC_MAX_SIZE"
  shows "unat (ALIGN_UP (sz + HEADER_SIZE) 8) = need sz"
proof -
  have m: "(7 :: u32) = mask 3" by (simp add: mask_eq_exp_minus_1)
  have "(x :: u32) AND NOT (mask 3) = push_bit 3 (drop_bit 3 x)" for x
    by (rule bit_word_eqI) (auto simp: bit_simps)
  then have down: "(x :: u32) AND NOT 7 = x div 8 * 8" for x
    unfolding m by (simp add: push_bit_eq_mult drop_bit_eq_div)
  have sz: "unat sz \<le> 4194304" using assms by (simp add: word_le_nat_alt)
  then have "unat (sz + 16 + 8 - 1) = unat sz + 23" by (simp add: unat_word_ariths)
  then have "unat ((sz + 16 + 8 - 1) div 8 * 8) = (unat sz + 23) div 8 * 8"
    using sz by (simp add: unat_word_ariths unat_div)
  moreover have "ALIGN_UP (sz + HEADER_SIZE) 8 = (sz + 16 + 8 - 1) div 8 * 8"
    using down [of "sz + 16 + 8 - 1"] by (simp add: ALIGN_UP_def)
  ultimately show ?thesis by (simp only: need_def)
qed

lemma need_bounds:
  assumes "sz \<le> KMALLOC_MAX_SIZE"
  shows "unat sz + 16 \<le> need sz" and "need sz \<le> unat sz + 23" and "8 dvd need sz" and "need sz + 32 < 2 ^ 32"
proof -
  have "unat sz \<le> 4194304" using assms by (simp add: word_le_nat_alt)
  then show "unat sz + 16 \<le> need sz" "need sz \<le> unat sz + 23" "8 dvd need sz" "need sz + 32 < 2 ^ 32"
    unfolding need_def by (presburger, presburger, simp, simp)
qed

lemma split_frame [simp]:
  "h_head (split_header h a s) = h_head s" "h_lock (split_header h a s) = h_lock s"
  "current_usage (split_header h a s) = current_usage s" "hbytes (split_header h a s) = hbytes s"
  "total_allocated (split_header h a s) = total_allocated s"
  by (simp_all add: split_header_def Let_def)

lemma split_header_yes:
  assumes "heap_rep s (xs @ (b, n, f) # ys)" and "layout lo hi (xs @ (b, n, f) # ys)"
    and "unat a + 32 \<le> n" and "16 \<le> unat a" and "8 dvd unat a"
  shows "heap_rep (split_header b a s) (xs @ (b, unat a, f) # (b + a, n - unat a, True) # ys)"
proof -
  let ?hs = "hdr s" and ?c = "b + a"
  note wf = layout_wf [OF assms(2)] and blk = layout_block [OF assms(2)]
  have ch: "chain ?hs 0 (xs @ (b, n, f) # ys) 0" using assms(1) by (simp add: heap_rep_def)
  have lay: "layout lo hi (xs @ (b, unat a, f) # (?c, n - unat a, True) # ys)"
    using layout_split [OF assms(2), of "unat a" f True] assms(3-5) by simp
  have c: "?c \<notin> addrs (xs @ (b, n, f) # ys)" "?c \<noteq> 0" "?c \<noteq> b" using layout_wf [OF lay] by auto
  have nx: "first_addr ys 0 \<noteq> b" "first_addr ys 0 \<noteq> ?c"
    using wf c by (cases ys; auto)+
  have b: "hsize (?hs b) = of_nat n" "hnext (?hs b) = first_addr ys 0" using ch by auto
  have lt: "n < 2 ^ 32" using blk assms(2) by (simp add: layout_def)
  then have "a + HEADER_SIZE + KMALLOC_MIN_SIZE \<le> hsize (?hs b)"
    using assms(3) b by (simp add: word_le_nat_alt unat_word_ariths unat_of_nat_small)
  moreover have "of_nat n - a = of_nat (n - unat a)" using assms(3) by (simp add: of_nat_diff)
  ultimately have "hdr (split_header b a s) = (set_prev (first_addr ys 0) ?c
      (?hs(?c := \<lparr>hsize = of_nat (n - unat a), is_free = 1, hnext = first_addr ys 0, hprev = b\<rparr>)))
      (b := (?hs b)\<lparr>hsize := of_nat (unat a), hnext := ?c\<rparr>)"
    using b c nx by (auto simp: split_header_def set_prev_def Let_def)
  moreover have "chain \<dots> 0 (xs @ (b, unat a, f) # (?c, n - unat a, True) # ys) 0"
    using wf c assms(3) by (intro chain_split [OF ch]) auto
  ultimately show ?thesis using assms(1) by (simp add: heap_rep_def)
qed

lemma split_header_no:
  assumes "heap_rep s (xs @ (b, n, f) # ys)" and "n < 2 ^ 32" and "n < unat a + 32" and "unat a + 32 < 2 ^ 32"
  shows "split_header b a s = s"
proof -
  have "hsize (hdr s b) = of_nat n" using assms(1) by (simp add: heap_rep_def)
  then have "\<not> a + HEADER_SIZE + KMALLOC_MIN_SIZE \<le> hsize (hdr s b)"
    using assms(2-4) by (simp add: word_le_nat_alt unat_word_ariths unat_of_nat_small)
  then show ?thesis by (simp add: split_header_def)
qed

text \<open>What is left behind the block that is handed out: the rest, when the block was split.\<close>

definition rest_blocks :: "u32 \<Rightarrow> u32 \<Rightarrow> nat \<Rightarrow> hblock list \<Rightarrow> hblock list" where
  "rest_blocks sz b n ys =
     (if need sz + 32 \<le> n then (b + of_nat (need sz), n - need sz, True) # ys else ys)"

lemma kmalloc_cases:
  assumes "heap_inv lo hi s bs" and "sz \<noteq> 0" and "sz \<le> KMALLOC_MAX_SIZE"
  obtains (none) "kmalloc sz s = Some (0, s)" and "\<forall>(b, n, f)\<in>set bs. f \<longrightarrow> n < need sz"
  | (block) b n k s' bs' where "kmalloc sz s = Some (b + 16, s')" and "heap_inv lo hi s' bs'"
      and "(b, n, True) \<in> set bs" and "\<forall>(c, m, f)\<in>set bs. f \<and> need sz \<le> m \<longrightarrow> n \<le> m"
      and "k = (if need sz + 32 \<le> n then need sz else n)" and "need sz \<le> n"
      and "used_blocks bs' = insert (b, k) (used_blocks bs)"
      and "hbytes s' = memset (b + 16) 0 sz (hbytes s)"
      and "\<exists>xs ys. bs = xs @ (b, n, True) # ys \<and> bs' = xs @ (b, k, False) # rest_blocks sz b n ys"
proof -
  have inv: "h_lock s = 0" "heap_rep s bs" "layout lo hi bs" "coalesced bs" "current_usage s = of_nat (used_sum bs)"
    using assms(1) by (simp_all add: heap_inv_alt)
  note wf = layout_wf [OF inv(3)] and nd = need_bounds [OF assms(3)]
  let ?a = "ALIGN_UP (sz + HEADER_SIZE) 8" and ?s = "s\<lparr>h_lock := 1\<rparr>"
  have a: "unat ?a = need sz" by (rule ALIGN_UP_need [OF assms(3)])
  have ofa: "of_nat (need sz) = ?a" unfolding a [symmetric] by simp
  have small: "n < 2 ^ 32" if "(b, n, f) \<in> set bs" for b n f
    using tiles_bounds [of lo hi bs b n f] that inv(3) by (auto simp: layout_def)
  have guard: "sz \<noteq> 0" "\<not> KMALLOC_MAX_SIZE < sz" using assms(2,3) by simp_all
  have search: "best_fit_loop (hdr s) ?a (h_head s) 0 = Some (best_addr (best_block (need sz) bs None))"
  proof -
    have "\<forall>(b, n, f)\<in>set bs. n < 2 ^ 32" using small by auto
    then show ?thesis
      using best_fit_loop_spec [of "hdr s" 0 bs None ?a] inv(2) wf
      unfolding a heap_rep_def best_addr_simps by simp
  qed
  show thesis
  proof (cases "best_block (need sz) bs None")
    case None
    have "kmalloc sz s = Some (0, s)"
      using guard search None inv(1) by (simp add: kmalloc_def)
    then show thesis using none None best_block_none [of "need sz" bs None] by (auto simp: not_le)
  next
    case (Some y)
    obtain b n where y: "y = (b, n)" by (cases y)
    have mem: "(b, n, True) \<in> set bs" "need sz \<le> n"
      using best_block_mem [of "need sz" bs None b n] Some y by auto
    have best: "\<forall>(c, m, f)\<in>set bs. f \<and> need sz \<le> m \<longrightarrow> n \<le> m"
      using best_block_best [of "need sz" bs None b n] Some y by auto
    obtain xs ys where bs: "bs = xs @ (b, n, True) # ys" using split_list_block [OF mem(1)] by blast
    have b0: "b \<noteq> 0" using wf bs by auto
    let ?k = "if need sz + 32 \<le> n then need sz else n"
    define t where "t = split_header b ?a ?s"
    let ?zs = "rest_blocks sz b n ys"
    obtain zs where zs: "heap_rep t (xs @ (b, ?k, True) # zs)" "layout lo hi (xs @ (b, ?k, True) # zs)"
      "coalesced zs" "used_blocks zs = used_blocks ys" "used_sum zs = used_sum ys" "zs = ?zs"
    proof (cases "need sz + 32 \<le> n")
      case True
      have 1: "heap_rep t (xs @ (b, need sz, True) # (b + ?a, n - need sz, True) # ys)"
        using split_header_yes [of ?s xs b n True ys lo hi ?a] inv(2,3) True nd bs unfolding t_def a
        by (simp add: heap_rep_def)
      have 2: "layout lo hi (xs @ (b, need sz, True) # (b + ?a, n - need sz, True) # ys)"
        using layout_split [of lo hi xs b n True ys "need sz" True True] inv(3) True nd bs
        unfolding ofa by simp
      have 3: "coalesced ((b + ?a, n - need sz, True) # ys)"
        "used_blocks ((b + ?a, n - need sz, True) # ys) = used_blocks ys"
        "used_sum ((b + ?a, n - need sz, True) # ys) = used_sum ys" using inv(4) bs by simp_all
      have "(b + ?a, n - need sz, True) # ys = ?zs" using True by (simp add: rest_blocks_def ofa)
      then show thesis by (rule that [unfolded if_P [OF True], OF 1 2 3])
    next
      case False
      have "t = ?s" unfolding t_def
        by (rule split_header_no [of _ xs b n True ys]) (use inv(2) small [OF mem(1)] False nd a bs in \<open>simp_all add: heap_rep_def\<close>)
      then show thesis using that [of ys] False inv bs by (simp add: heap_rep_def rest_blocks_def)
    qed
    let ?t = "upd_hdr b (\<lambda>h. h\<lparr>is_free := 0\<rparr>) t"
    let ?s' = "?t\<lparr>hbytes := memset (b + 16) 0 sz (hbytes s), total_allocated := total_allocated s + sz,
      current_usage := current_usage s + of_nat ?k, h_lock := 0\<rparr>"
    have hb: "hsize (hdr t b) = of_nat ?k" using zs(1) by (simp add: heap_rep_def)
    have "kmalloc sz s = Some (b + 16, ?s')"
      using guard search Some y inv(1) b0 hb by (simp add: kmalloc_def Let_def t_def [unfolded HEADER_SIZE_def, symmetric])
    moreover have "chain ((hdr t)(b := (hdr t b)\<lparr>is_free := 0\<rparr>)) 0 (xs @ (b, ?k, (0::u8) \<noteq> 0) # zs) 0"
      using zs(1) layout_wf [OF zs(2)] by (intro chain_set_free) (auto simp: heap_rep_def)
    then have "heap_inv lo hi ?s' (xs @ (b, ?k, False) # zs)"
      using zs inv(4,5) layout_flag [of lo hi xs b ?k True zs False] bs
      by (simp add: heap_inv_alt heap_rep_def)
    moreover have "used_blocks (xs @ (b, ?k, False) # zs) = insert (b, ?k) (used_blocks bs)"
      using zs(4) bs by auto
    moreover have "\<exists>us vs. bs = us @ (b, n, True) # vs \<and>
        xs @ (b, ?k, False) # zs = us @ (b, ?k, False) # rest_blocks sz b n vs"
      using bs zs(6) by blast
    ultimately show thesis using block [of b ?s' "xs @ (b, ?k, False) # zs" n ?k] mem best by simp
  qed
qed

section \<open>The used blocks determine the list\<close>

lemma tiles_used_first:
  "tiles lo hi ((c, m, f) # cs) \<Longrightarrow> unat b = lo \<Longrightarrow> (b, n) \<in> used_blocks ((c, m, f) # cs) \<Longrightarrow>
   c = b \<and> m = n \<and> \<not> f"
proof -
  assume a: "tiles lo hi ((c, m, f) # cs)" "unat b = lo" "(b, n) \<in> used_blocks ((c, m, f) # cs)"
  have "(b, n, False) \<notin> set cs" using a(1,2) tiles_bounds [of "lo + m" hi cs b n False] by auto
  then show ?thesis using a(3) by (auto simp: used_blocks_def)
qed

lemma tiles_no_block_inside:
  assumes "tiles lo hi ((c, m, f) # cs)" and "lo < unat b" and "unat b < lo + m"
  shows "(b, n) \<notin> used_blocks ((c, m, f) # cs)"
  using assms tiles_bounds [of "lo + m" hi cs b n False] by (auto simp: used_blocks_def)

lemma free_first_next:
  assumes "tiles lo hi ((b, n, True) # bs)" and "coalesced ((b, n, True) # bs)"
    and "tiles lo hi ((c, m, True) # cs)" and "n < m"
    and "used_blocks ((b, n, True) # bs) = used_blocks ((c, m, True) # cs)"
  shows False
proof (cases bs)
  case Nil
  then show ?thesis using assms(1,3,4) tiles_le [of "lo + m" hi cs] by simp
next
  case (Cons x xs)
  obtain d k g where x: "x = (d, k, g)" by (cases x)
  then have "(d, k) \<in> used_blocks ((b, n, True) # bs)" "unat d = lo + n"
    using assms(1,2) Cons by auto
  then show ?thesis using tiles_no_block_inside [OF assms(3), of d k] assms(1,4,5) by auto
qed

lemma tiles_canonical:
  "tiles lo hi bs \<Longrightarrow> tiles lo hi cs \<Longrightarrow> coalesced bs \<Longrightarrow> coalesced cs \<Longrightarrow>
   used_blocks bs = used_blocks cs \<Longrightarrow> bs = cs"
proof (induction bs arbitrary: lo cs)
  case Nil
  then show ?case using tiles_le [of _ hi] by (cases cs) fastforce+
next
  case (Cons x bs)
  obtain b n f where x: "x = (b, n, f)" by (cases x)
  have "cs \<noteq> []" using Cons.prems(1,2) x tiles_le [of "lo + n" hi bs] by auto
  then obtain c m g ds where cs: "cs = (c, m, g) # ds" by (cases cs) auto
  note tb = Cons.prems(1) [unfolded x] and tc = Cons.prems(2) [unfolded cs]
    and cb = Cons.prems(3) [unfolded x] and cc = Cons.prems(4) [unfolded cs]
    and ub = Cons.prems(5) [unfolded x cs]
  have "unat c = unat b" using tb tc by simp
  then have c: "c = b" by (rule unsigned_word_eqI)
  have ub': "unat b = lo" "unat c = lo" using tb tc by simp_all
  have fn: "f = g \<and> n = m"
  proof (cases f)
    case False
    then have "(b, n) \<in> used_blocks ((c, m, g) # ds)" unfolding ub [symmetric] by simp
    from tiles_used_first [OF tc ub'(1) this] False show ?thesis by simp
  next
    case True
    have g
    proof (rule ccontr)
      assume "\<not> g"
      then have "(c, m) \<in> used_blocks ((b, n, f) # bs)" unfolding ub by simp
      from tiles_used_first [OF tb ub'(2) this] True show False by simp
    qed
    moreover have "\<not> n < m"
      using free_first_next [of lo hi b n bs c m ds] tb tc cb ub True \<open>g\<close> by (metis (full_types))
    moreover have "\<not> m < n"
      using free_first_next [of lo hi c m ds b n bs] tb tc cc ub True \<open>g\<close> by (metis (full_types))
    ultimately show ?thesis using True by simp
  qed
  have td: "tiles (lo + n) hi bs" "tiles (lo + n) hi ds" using tb tc fn by simp_all
  have "(b, n) \<notin> used_blocks bs" "(b, n) \<notin> used_blocks ds"
    using td tiles_bounds [of "lo + n" hi bs b n False] tiles_bounds [of "lo + n" hi ds b n False] tb
    by (auto simp: used_blocks_def)
  then have "used_blocks bs = used_blocks ds" using ub c fn by (cases f) auto
  then have "bs = ds" using td cb cc by (intro Cons.IH [of "lo + n" ds]) simp_all
  then show ?case using x cs c fn by simp
qed

section \<open>The heap interface\<close>

text \<open>
  What the users of the heap rely on: \<open>inv U s\<close> says that exactly the blocks \<open>U\<close> (address and
  length of the payload) are in use.
\<close>

locale heap_allocator =
  fixes alloc :: "u32 \<Rightarrow> 's \<Rightarrow> (u32 \<times> 's) option"
    and release :: "u32 \<Rightarrow> 's \<Rightarrow> 's option"
    and inv :: "(u32 \<times> nat) set \<Rightarrow> 's \<Rightarrow> bool"
  assumes alloc_total: "inv U s \<Longrightarrow> \<exists>p s'. alloc n s = Some (p, s')"
    and alloc_null: "inv U s \<Longrightarrow> alloc n s = Some (0, s') \<Longrightarrow> s' = s"
    and alloc_block: "inv U s \<Longrightarrow> alloc n s = Some (p, s') \<Longrightarrow> p \<noteq> 0 \<Longrightarrow>
      \<exists>k. unat n \<le> k \<and> inv (insert (p, k) U) s' \<and> (p, k) \<notin> U"
    and release_block: "inv U s \<Longrightarrow> (p, k) \<in> U \<Longrightarrow> \<exists>s'. release p s = Some s' \<and> inv (U - {(p, k)}) s'"
    and blocks_apart: "inv U s \<Longrightarrow> (p, k) \<in> U \<Longrightarrow> (q, m) \<in> U \<Longrightarrow> (p, k) \<noteq> (q, m) \<Longrightarrow>
      unat p + k \<le> unat q \<or> unat q + m \<le> unat p"
begin

lemma alloc_release:
  assumes "inv U s" and "alloc n s = Some (p, s1)" and "p \<noteq> 0"
  obtains s2 where "release p s1 = Some s2" and "inv U s2"
proof -
  obtain k where k: "inv (insert (p, k) U) s1" "(p, k) \<notin> U" using alloc_block [OF assms] by auto
  obtain s2 where "release p s1 = Some s2" "inv (insert (p, k) U - {(p, k)}) s2"
    using release_block [OF k(1)] by blast
  then show thesis using that k(2) by simp
qed

lemma alloc_apart:
  assumes "inv U s" and "alloc n s = Some (p, s1)" and "p \<noteq> 0"
    and "alloc m s1 = Some (q, s2)" and "q \<noteq> 0"
  shows "unat p + unat n \<le> unat q \<or> unat q + unat m \<le> unat p"
proof -
  obtain k where k: "unat n \<le> k" "inv (insert (p, k) U) s1" using alloc_block [OF assms(1-3)] by auto
  obtain l where l: "unat m \<le> l" "inv (insert (q, l) (insert (p, k) U)) s2" "(q, l) \<notin> insert (p, k) U"
    using alloc_block [OF k(2) assms(4,5)] by auto
  show ?thesis using blocks_apart [OF l(2), of p k q l] k(1) l(1,3) by auto
qed

lemma alloc_two_release:
  assumes "inv U s" and "alloc n s = Some (p, s1)" and "p \<noteq> 0"
    and "alloc m s1 = Some (q, s2)" and "q \<noteq> 0"
  obtains s3 s4 where "release p s2 = Some s3" and "release q s3 = Some s4" and "inv U s4"
proof -
  obtain k where k: "inv (insert (p, k) U) s1" "(p, k) \<notin> U" using alloc_block [OF assms(1-3)] by auto
  obtain l where l: "inv (insert (q, l) (insert (p, k) U)) s2" "(q, l) \<notin> insert (p, k) U"
    using alloc_block [OF k(1) assms(4,5)] by auto
  obtain s3 where s3: "release p s2 = Some s3" "inv (insert (q, l) (insert (p, k) U) - {(p, k)}) s3"
    using release_block [OF l(1)] by blast
  moreover have "insert (q, l) (insert (p, k) U) - {(p, k)} = insert (q, l) U" using k(2) l(2) by auto
  ultimately obtain s4 where s4: "release q s3 = Some s4" "inv (insert (q, l) U - {(q, l)}) s4"
    using release_block [of "insert (q, l) U" s3 q l] by auto
  then show thesis using that s3 l(2) by simp
qed

end

definition heap_ok :: "nat \<Rightarrow> nat \<Rightarrow> (u32 \<times> nat) set \<Rightarrow> heap_manager \<Rightarrow> bool" where
  "heap_ok lo hi U s \<longleftrightarrow>
     (\<exists>bs. heap_inv lo hi s bs \<and> U = (\<lambda>(b, n). (b + 16, n - 16)) ` used_blocks bs)"

lemma heap_ok_block:
  assumes "heap_inv lo hi s bs" and "(b, n) \<in> used_blocks bs"
  shows "unat (b + 16) = unat b + 16" and "16 \<le> n" and "unat b + n \<le> hi" and "lo \<le> unat b" and "8 dvd unat b"
proof -
  have b: "(b, n, False) \<in> set bs" using assms(2) by (simp add: used_blocks_def)
  have t: "tiles lo hi bs" "8 dvd lo" "hi < 2 ^ 32" using assms(1) by (simp_all add: heap_inv_def)
  from tiles_bounds [OF t(1) b] show "16 \<le> n" "unat b + n \<le> hi" "lo \<le> unat b" by auto
  then show "unat (b + 16) = unat b + 16" using no_wrap_off [of b 16] t(3) by simp
  show "8 dvd unat b" using tiles_dvd [OF t(1,2) b] .
qed

lemma block_size_unique:
  assumes "heap_inv lo hi s bs" and "(b, n, f) \<in> set bs" and "(b, m, g) \<in> set bs"
  shows "n = m \<and> f = g"
proof -
  have "distinct (map fst bs)" using assms(1) tiles_distinct by (auto simp: heap_inv_def)
  then have "inj_on fst (set bs)" by (simp add: distinct_map)
  from inj_onD [OF this _ assms(2,3)] show ?thesis by simp
qed

lemma kmalloc_outside:
  "sz = 0 \<or> KMALLOC_MAX_SIZE < sz \<Longrightarrow> kmalloc sz s = Some (0, s)"
  by (auto simp: kmalloc_def)

text \<open>Every call in one form: a block, or nothing.\<close>

lemma kmalloc_either:
  assumes "heap_inv lo hi s bs"
  obtains (none) "kmalloc sz s = Some (0, s)"
  | (block) b k s' bs' where "kmalloc sz s = Some (b + 16, s')" and "heap_inv lo hi s' bs'"
      and "unat sz + 16 \<le> k" and "used_blocks bs' = insert (b, k) (used_blocks bs)"
      and "(b, k) \<notin> used_blocks bs" and "b + 16 \<noteq> 0" and "hbytes s' = memset (b + 16) 0 sz (hbytes s)"
proof (cases "sz = 0 \<or> KMALLOC_MAX_SIZE < sz")
  case True
  then show thesis using none kmalloc_outside by blast
next
  case False
  then have g: "sz \<noteq> 0" "sz \<le> KMALLOC_MAX_SIZE" by (simp_all add: not_less)
  show thesis
  proof (cases rule: kmalloc_cases [OF assms g])
    case 1
    then show thesis using that(1) by simp
  next
    case (2 b n k s' bs')
    have new: "(b, k) \<in> used_blocks bs'" using 2 by simp
    have fresh: "(b, k) \<notin> used_blocks bs"
      using block_size_unique [OF assms 2(3), of k False] by (auto simp: used_blocks_def)
    have "b + 16 \<noteq> 0"
    proof
      assume "b + 16 = 0"
      then show False using heap_ok_block(1) [OF 2(2) new] by simp
    qed
    moreover have "unat sz + 16 \<le> k" using 2(5,6) need_bounds(1) [OF g(2)] by simp
    ultimately show thesis using that(2) 2(1,2,7,8) fresh by blast
  qed
qed

text \<open>The payloads in use, as the callers see them.\<close>

abbreviation payload :: "u32 \<times> nat \<Rightarrow> u32 \<times> nat" where
  "payload \<equiv> \<lambda>(b, n). (b + 16, n - 16)"

lemma payload_inj: "heap_inv lo hi s bs \<Longrightarrow> inj_on payload (used_blocks bs)"
  using block_size_unique by (fastforce simp: inj_on_def used_blocks_def)

lemma heap_ok_alloc:
  assumes "heap_ok lo hi U s" and "kmalloc n s = Some (p, s')" and "p \<noteq> 0"
  shows "\<exists>k. unat n \<le> k \<and> heap_ok lo hi (insert (p, k) U) s' \<and> (p, k) \<notin> U"
proof -
  obtain bs where bs: "heap_inv lo hi s bs" "U = payload ` used_blocks bs"
    using assms(1) by (auto simp: heap_ok_def)
  show ?thesis
  proof (cases rule: kmalloc_either [OF bs(1), of n])
    case 1
    then show ?thesis using assms(2,3) by simp
  next
    case (2 b k t bs')
    have "insert (p, k - 16) U = payload ` used_blocks bs'"
      using 2(1,4) bs(2) assms(2) by auto
    moreover have "(p, k - 16) \<notin> U"
    proof
      assume "(p, k - 16) \<in> U"
      then obtain c m where c: "(c, m) \<in> used_blocks bs" "c + 16 = p" by (auto simp: bs(2))
      then have "(b, m) \<in> used_blocks bs" "(b, k) \<noteq> (b, m)" using 2(1,5) assms(2) by auto
      then show False
        using block_size_unique [OF 2(2), of b k False m False] 2(4) by (auto simp: used_blocks_def)
    qed
    ultimately show ?thesis using 2(1-3) assms(2) by (auto simp: heap_ok_def intro!: exI [of _ "k - 16"])
  qed
qed

lemma heap_ok_release:
  assumes "heap_ok lo hi U s" and "(p, k) \<in> U"
  shows "\<exists>s'. kfree p s = Some s' \<and> heap_ok lo hi (U - {(p, k)}) s'"
proof -
  obtain bs where bs: "heap_inv lo hi s bs" "U = payload ` used_blocks bs"
    using assms(1) by (auto simp: heap_ok_def)
  then obtain b n where b: "(b, n) \<in> used_blocks bs" "p = b + 16" "k = n - 16" using assms(2) by auto
  obtain s' bs' where k: "kfree (b + 16) s = Some s'" "heap_inv lo hi s' bs'"
    "used_blocks bs' = used_blocks bs - {(b, n)}"
    using kfree_used [OF bs(1) b(1)] by blast
  have "U - {(p, k)} = payload ` used_blocks bs'"
    using inj_on_image_set_diff [OF payload_inj [OF bs(1)], of "used_blocks bs" "{(b, n)}"] b bs(2) k(3)
    by simp
  with k(2) have "heap_ok lo hi (U - {(p, k)}) s'" unfolding heap_ok_def by blast
  then show ?thesis using k(1) b(2) by simp
qed

lemma heap_ok_apart:
  assumes "heap_ok lo hi U s" and "(p, k) \<in> U" and "(q, m) \<in> U" and "(p, k) \<noteq> (q, m)"
  shows "unat p + k \<le> unat q \<or> unat q + m \<le> unat p"
proof -
  obtain bs where bs: "heap_inv lo hi s bs" "U = payload ` used_blocks bs"
    using assms(1) by (auto simp: heap_ok_def)
  then obtain b i c j where b: "(b, i) \<in> used_blocks bs" "p = b + 16" "k = i - 16"
    and c: "(c, j) \<in> used_blocks bs" "q = c + 16" "m = j - 16" using assms(2,3) by auto
  have "tiles lo hi bs" using bs(1) by (simp add: heap_inv_def)
  from tiles_disjoint [OF this, of b i False c j False]
  have "unat b + i \<le> unat c \<or> unat c + j \<le> unat b"
    using b c assms(4) by (auto simp: used_blocks_def)
  then show ?thesis using heap_ok_block(1,2) [OF bs(1) b(1)] heap_ok_block(1,2) [OF bs(1) c(1)] b c by auto
qed

interpretation kh: heap_allocator kmalloc kfree "heap_ok lo hi" for lo hi
proof
  fix U s n s'
  assume "heap_ok lo hi U s"
  then obtain bs where bs: "heap_inv lo hi s bs" by (auto simp: heap_ok_def)
  show "\<exists>p s'. kmalloc n s = Some (p, s')"
    by (cases rule: kmalloc_either [OF bs, of n]) auto
  show "s' = s" if "kmalloc n s = Some (0, s')"
    using that by (cases rule: kmalloc_either [OF bs, of n]) auto
qed (fact heap_ok_alloc heap_ok_release heap_ok_apart)+

section \<open>Releasing twice, growing, clearing\<close>

lemma merge_keeps_free [simp]:
  "is_free (hdr (merge_next g s) h) = is_free (hdr s h)"
  "is_free (hdr (merge_prev g s) h) = is_free (hdr s h)"
  by (simp_all add: merge_prev_def merge_next_def Let_def)

lemma heap_list_unique:
  assumes "heap_inv lo hi s bs" and "heap_inv lo hi t cs" and "used_blocks bs = used_blocks cs"
  shows "bs = cs"
  using assms tiles_canonical [of lo hi bs cs] by (simp add: heap_inv_def)

lemma heap_ok_same_blocks:
  assumes "heap_inv lo hi s bs" and "heap_ok lo hi (payload ` used_blocks bs) t"
  shows "heap_inv lo hi t bs"
proof -
  obtain cs where cs: "heap_inv lo hi t cs" "payload ` used_blocks bs = payload ` used_blocks cs"
    using assms(2) by (auto simp: heap_ok_def)
  let ?u = "\<lambda>(p :: u32, k :: nat). (p - 16, k + 16)"
  have unpay: "?u ` payload ` used_blocks ds = used_blocks ds" if inv: "heap_inv lo hi r ds" for r ds
  proof -
    have u: "?u (payload x) = x" if "x \<in> used_blocks ds" for x
      using heap_ok_block(2) [OF inv, of "fst x" "snd x"] that by (cases x) simp
    have "?u ` payload ` used_blocks ds = (\<lambda>x. ?u (payload x)) ` used_blocks ds" by (rule image_image)
    also have "\<dots> = (\<lambda>x. x) ` used_blocks ds" by (rule image_cong [OF refl u])
    finally show ?thesis by simp
  qed
  have "used_blocks bs = ?u ` payload ` used_blocks bs" by (rule unpay [OF assms(1), symmetric])
  also have "\<dots> = ?u ` payload ` used_blocks cs" by (simp only: cs(2))
  also have "\<dots> = used_blocks cs" by (rule unpay [OF cs(1)])
  finally have "used_blocks bs = used_blocks cs" .
  then show ?thesis using heap_list_unique [OF assms(1) cs(1)] cs(1) by simp
qed

lemma kmalloc_init_rep:
  assumes "pmm_alloc_pages 8 b = Some (a, b')" and "a \<noteq> 0" and "aligned 8 a" and "unat a + 0x100000 < 2 ^ 32"
  shows "\<exists>s'. kmalloc_init s b = Some (s', b') \<and>
    heap_inv (unat a) (unat a + 0x100000) s' [(a, 0x100000, True)]"
proof -
  have "8 dvd unat a" using assms(3) by (auto simp: aligned_def intro: dvd_trans [of 8 "2 ^ 20"])
  moreover have "0 < unat a" using assms(2) by (simp add: unat_gt_0)
  ultimately show ?thesis using assms(1,4) by (simp add: kmalloc_init_def heap_inv_def)
qed

lemma memset_twice: "memset p v n (memset p v n m) = memset p v n m"
  by (rule ext) (simp add: memset_byte)

lemma kcalloc_is_kmalloc:
  assumes "heap_inv lo hi s bs"
  shows "kcalloc num sz s = kmalloc (num * sz) s"
proof (cases rule: kmalloc_either [OF assms, of "num * sz"])
  case 1
  then show ?thesis by (simp add: kcalloc_def)
next
  case (2 b k s' bs')
  then have "s'\<lparr>hbytes := memset (b + 16) 0 (num * sz) (hbytes s')\<rparr> = s'" by (simp add: memset_twice)
  with 2(1,6) show ?thesis by (simp add: kcalloc_def)
qed

text \<open>What \<open>kmalloc\<close> hands out does not overlap a block in use.\<close>

lemma kmalloc_apart:
  assumes "heap_inv lo hi s' bs'" and "used_blocks bs' = insert (b, k) U" and "(b, k) \<notin> U" and "(c, n) \<in> U"
  shows "unat b + k \<le> unat c \<or> unat c + n \<le> unat b"
proof -
  have "(b, k, False) \<in> set bs'" "(c, n, False) \<in> set bs'" "(b, k, False) \<noteq> (c, n, False)"
    using assms(2-4) by (auto simp: used_blocks_def)
  moreover have "tiles lo hi bs'" using assms(1) by (simp add: heap_inv_def)
  ultimately show ?thesis using tiles_disjoint by blast
qed

lemma krealloc_copy:
  assumes inv: "heap_inv lo hi s bs" and bn: "(b, n) \<in> used_blocks bs" and sz: "n - 16 < unat sz"
    and km: "kmalloc sz s = Some (c + 16, s1)" and inv1: "heap_inv lo hi s1 bs1"
    and k: "unat sz + 16 \<le> k" "used_blocks bs1 = insert (c, k) (used_blocks bs)" "(c, k) \<notin> used_blocks bs"
    and bytes: "hbytes s1 = memset (c + 16) 0 sz (hbytes s)" and i: "i < n - 16"
  shows "memcpy (c + 16) (b + 16) (of_nat n - 16) (hbytes s1) (c + 16 + of_nat i) = hbytes s (b + 16 + of_nat i)"
proof -
  have ck: "(c, k) \<in> used_blocks bs1" and bn1: "(b, n) \<in> used_blocks bs1" using k(2) bn by auto
  note cb = heap_ok_block [OF inv1 ck] and bb = heap_ok_block [OF inv1 bn1]
  have hi: "hi < 2 ^ 32" using inv by (simp add: heap_inv_def)
  have apart: "unat c + k \<le> unat b \<or> unat b + n \<le> unat c" by (rule kmalloc_apart [OF inv1 k(2,3) bn])
  have n32: "unat (of_nat n - 16 :: u32) = n - 16"
  proof -
    have "(of_nat n - 16 :: u32) = of_nat (n - 16)" using bb(2) by simp
    then show ?thesis using bb(2,3) hi by (simp add: unat_of_nat_small del: of_nat_diff)
  qed
  have ui: "unat (of_nat i :: u32) = i" using i bb(3) hi by (simp add: unat_of_nat_small)
  have "unat sz < 2 ^ LENGTH(32)" by (rule unsigned_less)
  then have sz32: "unat sz \<le> 2 ^ 32" by simp
  have src: "\<not> (b + 16 + of_nat i) - (c + 16) < sz"
  proof
    assume "(b + 16 + of_nat i) - (c + 16) < sz"
    then have "b + 16 + of_nat i \<in> span (c + 16) (unat sz)"
      using sz32 by (subst span_iff) (simp_all add: word_less_nat_alt)
    then have "unat (c + 16) \<le> unat (b + 16 + of_nat i) \<and> unat (b + 16 + of_nat i) < unat (c + 16) + unat sz"
      using cb hi k(1) by (intro span_unat) simp_all
    moreover have "unat (b + 16 + of_nat i) = unat b + 16 + i"
      using no_wrap_off [of "b + 16" i] bb hi i by simp
    ultimately show False using apart cb(1) bb(1) k(1) i by linarith
  qed
  have "memcpy (c + 16) (b + 16) (of_nat n - 16) (hbytes s1) (c + 16 + of_nat i) =
      (if c + 16 + of_nat i - (c + 16) < of_nat n - 16
       then hbytes s1 (b + 16 + (c + 16 + of_nat i - (c + 16))) else hbytes s1 (c + 16 + of_nat i))"
    using cb bb hi k(1) sz apart by (intro memcpy_byte) (auto simp: n32 word_less_nat_alt)
  also have "\<dots> = hbytes s1 (b + 16 + of_nat i)"
  proof -
    have "(of_nat i :: u32) < of_nat n - 16" by (simp only: word_less_nat_alt n32 ui i)
    then show ?thesis by simp
  qed
  also have "\<dots> = hbytes s (b + 16 + of_nat i)" using src by (simp only: bytes memset_byte if_False)
  finally show ?thesis .
qed

lemma heap_inv_bytes: "heap_inv lo hi (s\<lparr>hbytes := m\<rparr>) bs = heap_inv lo hi s bs"
  by (simp add: heap_inv_def)

fun free_sum :: "hblock list \<Rightarrow> nat" where
  "free_sum [] = 0"
| "free_sum ((_, n, f) # bs) = (if f then n else 0) + free_sum bs"

lemma tiles_sums: "tiles lo hi bs \<Longrightarrow> hi = lo + free_sum bs + used_sum bs"
  by (induction bs arbitrary: lo) fastforce+

lemma stats_loop_spec:
  "chain hs p bs 0 \<Longrightarrow> 0 \<notin> addrs bs \<Longrightarrow>
   stats_loop hs (first_addr bs 0) (i, j, x, y) =
     Some (i + of_nat (length [b \<leftarrow> bs. snd (snd b)]), j + of_nat (length [b \<leftarrow> bs. \<not> snd (snd b)]),
       x + of_nat (free_sum bs), y + of_nat (used_sum bs))"
proof (induction bs arbitrary: p i j x y)
  case Nil
  then show ?case by (subst stats_loop.simps) simp
next
  case (Cons z bs)
  obtain b n f where z: "z = (b, n, f)" by (cases z)
  show ?case using Cons.prems z Cons.IH [of b]
    by (subst stats_loop.simps) (auto simp: add.assoc)
qed

section \<open>The heap after boot\<close>

lemma boot_heap:
  obtains p0 s p1 a where "pmm_init 0x01000000 0x02000000 buddy_bss = Some p0"
    and "kmalloc_init heap_bss p0 = Some (s, p1)"
    and "heap_inv (unat a) (unat a + 0x100000) s [(a, 0x100000, True)]"
proof -
  obtain p0 where p0: "pmm_init 0x01000000 0x02000000 buddy_bss = Some p0"
    "buddy_inv p0 (init_blocks 0x01800000 2)"
    "free_frames (init_blocks 0x01800000 2) = {0x1800..<0x2800}" using boot_blocks .
  obtain a p1 B where a: "pmm_alloc_pages 8 p0 = Some (a, p1)" "held (base_addr p0) B (8, a)" "a \<noteq> 0"
    "frames 8 a \<union> free_frames B = {0x1800..<0x2800}"
    using boot_alloc [where order = 8, OF p0(2)] p0(3) by auto
  have "aligned 8 a" using a(2) by (simp add: held_def good_block_def)
  moreover have "frames 8 a \<subseteq> {0x1800..<0x2800}" using a(4) by auto
  then have "unat a + 0x100000 < 2 ^ 32" by (auto simp: frames_def pfn_def)
  ultimately show thesis using kmalloc_init_rep [OF a(1,3)] p0(1) that by blast
qed

text \<open>The first two allocations after boot succeed: the heap list is known.\<close>

lemma boot_kmalloc_list:
  assumes "heap_inv lo hi s [(a, n, True)]" and "sz \<noteq> 0" and "sz \<le> 1000" and "4096 \<le> n"
  obtains s' where "kmalloc sz s = Some (a + 16, s')" and "a + 16 \<noteq> 0"
    and "heap_inv lo hi s' [(a, need sz, False), (a + of_nat (need sz), n - need sz, True)]"
proof -
  have sz: "sz \<le> KMALLOC_MAX_SIZE" "unat sz \<le> 1000" using assms(3) by (simp_all add: word_le_nat_alt)
  have nd: "need sz + 32 \<le> n" using need_bounds(2) [OF sz(1)] sz(2) assms(4) by simp
  show thesis
  proof (cases rule: kmalloc_cases [OF assms(1,2) sz(1)])
    case 1
    then show thesis using nd by simp
  next
    case (2 b m k s' bs')
    then have "b = a" "m = n" by simp_all
    moreover from 2(9) this have "bs' = [(a, k, False)] @ rest_blocks sz a n []"
      by (auto simp: Cons_eq_append_conv)
    moreover have "unat (b + 16) = unat b + 16" using heap_ok_block(1) [OF 2(2), of b k] 2(7) by simp
    then have "b + 16 \<noteq> 0" by auto
    ultimately show thesis using that [of s'] 2(1,2,5,7) nd by (auto simp: rest_blocks_def)
  qed
qed

lemma boot_kmalloc:
  assumes "sz \<noteq> 0" and "sz \<le> 1000"
  shows "\<exists>s s1 b k lo hi bs0 bs. heap_inv lo hi s bs0 \<and> kmalloc sz s = Some (b + 16, s1) \<and> b + 16 \<noteq> 0 \<and>
    heap_inv lo hi s1 bs \<and> used_blocks bs = {(b, k)} \<and> k = need sz"
proof -
  obtain p0 s p1 a where s: "heap_inv (unat a) (unat a + 0x100000) s [(a, 0x100000, True)]"
    using boot_heap .
  obtain s' where "kmalloc sz s = Some (a + 16, s')" "a + 16 \<noteq> 0"
    "heap_inv (unat a) (unat a + 0x100000) s' [(a, need sz, False), (a + of_nat (need sz), 0x100000 - need sz, True)]"
    by (rule boot_kmalloc_list [OF s assms]) simp_all
  moreover from this(3) have "used_blocks [(a, need sz, False), (a + of_nat (need sz), 0x100000 - need sz, True)] = {(a, need sz)}"
    by simp
  ultimately show ?thesis using s by blast
qed

lemma kmalloc_enough:
  assumes "heap_inv lo hi s bs" and "sz \<noteq> 0" and "sz \<le> KMALLOC_MAX_SIZE"
    and "(b, n, True) \<in> set bs" and "need sz \<le> n"
  shows "\<exists>p s'. kmalloc sz s = Some (p, s') \<and> p \<noteq> 0"
proof (cases rule: kmalloc_cases [OF assms(1-3)])
  case 1
  then show ?thesis using assms(4,5) by fastforce
next
  case (2 b k k' s' bs')
  then have "unat (b + 16) = unat b + 16" using heap_ok_block(1) [OF 2(2), of b k'] by simp
  then have "b + 16 \<noteq> 0" by auto
  with 2(1) show ?thesis by blast
qed

text \<open>The failure condition.\<close>

definition fits :: "u32 \<Rightarrow> hblock list \<Rightarrow> bool" where
  "fits sz bs \<longleftrightarrow> sz \<le> KMALLOC_MAX_SIZE \<and> (\<exists>(b, n, f)\<in>set bs. f \<and> need sz \<le> n)"

lemma kmalloc_fits:
  assumes "heap_inv lo hi s bs" and "sz \<noteq> 0" and "kmalloc sz s = Some (p, s')"
  shows "p \<noteq> 0 \<longleftrightarrow> fits sz bs"
proof (cases "sz \<le> KMALLOC_MAX_SIZE")
  case True
  show ?thesis
  proof (cases rule: kmalloc_cases [OF assms(1,2) True])
    case 1
    then show ?thesis using assms(3) by (fastforce simp: fits_def)
  next
    case (2 b n k t bs')
    then have "fits sz bs" using True by (auto simp: fits_def)
    moreover have "\<exists>p s'. kmalloc sz s = Some (p, s') \<and> p \<noteq> 0"
      using kmalloc_enough [OF assms(1,2) True 2(3,6)] .
    ultimately show ?thesis using assms(3) by simp
  qed
next
  case False
  then show ?thesis using assms(3) kmalloc_outside [of sz s] by (simp add: fits_def not_le)
qed

lemma boot_two:
  "\<exists>lo hi s bs0 b s1 bs n q s2. heap_inv lo hi s bs0 \<and> kmalloc 24 s = Some (b + 16, s1) \<and> b + 16 \<noteq> 0 \<and>
     heap_inv lo hi s1 bs \<and> (b, n) \<in> used_blocks bs \<and> n = 40 \<and> kmalloc 100 s1 = Some (q, s2) \<and> q \<noteq> 0"
proof -
  obtain p0 s p1 a where s: "heap_inv (unat a) (unat a + 0x100000) s [(a, 0x100000, True)]"
    using boot_heap .
  let ?bs = "[(a, need 24, False), (a + of_nat (need 24), 0x100000 - need 24, True)]"
  obtain s1 where s1: "kmalloc 24 s = Some (a + 16, s1)" "a + 16 \<noteq> 0" "heap_inv (unat a) (unat a + 0x100000) s1 ?bs"
    by (rule boot_kmalloc_list [OF s, of 24]) simp_all
  have "(a, 40) \<in> used_blocks ?bs" by (simp add: need_def)
  moreover have "\<exists>q s2. kmalloc 100 s1 = Some (q, s2) \<and> q \<noteq> 0"
    by (rule kmalloc_enough [OF s1(3), of _ "a + of_nat (need 24)" "0x100000 - need 24"]) (simp_all add: need_def)
  ultimately show ?thesis using s s1 by blast
qed

text \<open>The header of a used block.\<close>

lemma used_header:
  assumes "heap_inv lo hi s bs" and "(b, n) \<in> used_blocks bs"
  shows "hsize (hdr s b) = of_nat n" and "unat (of_nat n - 16 :: u32) = n - 16" and "b + 16 \<noteq> 0"
proof -
  note blk = heap_ok_block [OF assms]
  have hi: "hi < 2 ^ 32" using assms(1) by (simp add: heap_inv_def)
  show "b + 16 \<noteq> 0"
  proof
    assume "b + 16 = 0"
    then show False using blk(1) by simp
  qed
  obtain xs ys where "bs = xs @ (b, n, False) # ys"
    using assms(2) split_list_block [of b n False bs] by (auto simp: used_blocks_def)
  then show "hsize (hdr s b) = of_nat n" using assms(1) by (auto simp: heap_inv_def)
  have "(of_nat n - 16 :: u32) = of_nat (n - 16)" using blk(2) by simp
  then show "unat (of_nat n - 16 :: u32) = n - 16"
    using blk(2,3) hi by (simp add: unat_of_nat_small del: of_nat_diff)
qed

section \<open>Properties\<close>

text \<open>
  C3: For a valid size kmalloc returns: if some free block is large enough it takes one of the
  smallest such blocks (best fit), returns its 8-byte aligned payload, which is zeroed and lies in a
  used block of at least the size plus header and at most 55 bytes more that overlaps no other used
  block, and the block list stays consistent; otherwise it returns NULL and changes nothing.
\<close>

theorem kmalloc_spec:
  assumes "heap_inv lo hi s bs" and "0 < sz" and "sz \<le> KMALLOC_MAX_SIZE"
  shows "case kmalloc sz s of
     None \<Rightarrow> False
   | Some (p, s') \<Rightarrow>
       if \<exists>(b, n, f)\<in>set bs. f \<and> need sz \<le> n
       then (\<exists>n k bs'. (p - 16, n, True) \<in> set bs \<and>
           (\<forall>(c, m, f)\<in>set bs. f \<and> need sz \<le> m \<longrightarrow> n \<le> m) \<and>
           unat sz + 16 \<le> k \<and> k < unat sz + 56 \<and> heap_inv lo hi s' bs' \<and>
           used_blocks bs' = insert (p - 16, k) (used_blocks bs) \<and>
           (\<forall>(c, m)\<in>used_blocks bs. unat (p - 16) + k \<le> unat c \<or> unat c + m \<le> unat (p - 16))) \<and>
         8 dvd unat p \<and> (\<forall>a. hbytes s' a = (if a - p < sz then 0 else hbytes s a))
       else p = 0 \<and> s' = s"
proof -
  have g: "sz \<noteq> 0" using assms(2) by auto
  show ?thesis
  proof (cases rule: kmalloc_cases [OF assms(1) g assms(3)])
    case 1
    then have "\<not> (\<exists>(b, n, f)\<in>set bs. f \<and> need sz \<le> n)" by fastforce
    then show ?thesis using 1(1) by simp
  next
    case (2 b n k s' bs')
    have ex: "\<exists>(b, n, f)\<in>set bs. f \<and> need sz \<le> n" using 2(3,6) by blast
    have new: "(b, k) \<in> used_blocks bs'" using 2(7) by simp
    note blk = heap_ok_block [OF 2(2) new]
    have k: "unat sz + 16 \<le> k \<and> k < unat sz + 56" using 2(5,6) need_bounds(1,2) [OF assms(3)] by auto
    have "unat b + k \<le> unat c \<or> unat c + m \<le> unat b" if "(c, m) \<in> used_blocks bs" for c m
    proof -
      have "(b, k) \<noteq> (c, m)"
        using block_size_unique [OF assms(1) 2(3), of k False] that by (auto simp: used_blocks_def)
      moreover have "(b, k, False) \<in> set bs'" "(c, m, False) \<in> set bs'" "tiles lo hi bs'"
        using 2(2,7) that by (auto simp: used_blocks_def heap_inv_def)
      ultimately show ?thesis using tiles_disjoint by blast
    qed
    moreover have al: "8 dvd unat (b + 16)" using blk(1,5) by simp
    moreover have clear: "\<forall>a. hbytes s' a = (if a - (b + 16) < sz then 0 else hbytes s a)"
      using 2(8) by (simp add: memset_byte)
    moreover have "b + 16 - 16 = b" by simp
    ultimately have "\<exists>n k bs'. (b + 16 - 16, n, True) \<in> set bs \<and>
        (\<forall>(c, m, f)\<in>set bs. f \<and> need sz \<le> m \<longrightarrow> n \<le> m) \<and>
        unat sz + 16 \<le> k \<and> k < unat sz + 56 \<and> heap_inv lo hi s' bs' \<and>
        used_blocks bs' = insert (b + 16 - 16, k) (used_blocks bs) \<and>
        (\<forall>(c, m)\<in>used_blocks bs. unat (b + 16 - 16) + k \<le> unat c \<or> unat c + m \<le> unat (b + 16 - 16))"
      using 2(2-4,7) k by (intro exI [of _ n] exI [of _ k] exI [of _ bs'] conjI) auto
    with 2(1) clear al show ?thesis unfolding if_P [OF ex] by simp
  qed
qed

theorem kmalloc_spec_witness:
  "\<exists>s p s'. kmalloc 100 s = Some (p, s') \<and> 8 dvd unat p \<and> (\<forall>a. a - p < 100 \<longrightarrow> hbytes s' a = 0)"
proof -
  obtain p0 s p1 a where s: "heap_inv (unat a) (unat a + 0x100000) s [(a, 0x100000, True)]"
    using boot_heap .
  have ex: "\<exists>(b, n, f)\<in>set [(a, 0x100000, True)]. f \<and> need 100 \<le> n" by (simp add: need_def)
  have "0 < (100 :: u32)" "100 \<le> KMALLOC_MAX_SIZE" by simp_all
  from kmalloc_spec [OF s this, unfolded if_P [OF ex]] show ?thesis
    by (intro exI [of _ s]) (auto split: option.splits prod.splits)
qed

text \<open>
  C4: kfree of the payload of a used block returns, keeps the header list a gap-free doubly linked
  tiling of the heap without two adjacent free blocks, removes exactly this block from the used ones
  and leaves every payload byte alone.
\<close>

theorem kfree_spec:
  assumes "heap_inv lo hi s bs" and "(b, n) \<in> used_blocks bs"
  shows "\<exists>s' bs'. kfree (b + 16) s = Some s' \<and> heap_inv lo hi s' bs' \<and>
    used_blocks bs' = used_blocks bs - {(b, n)} \<and> hbytes s' = hbytes s"
  by (rule kfree_used [OF assms]) blast

theorem kfree_spec_witness:
  "\<exists>s p s1 s2 lo hi bs. kmalloc 24 s = Some (p, s1) \<and> kfree p s1 = Some s2 \<and>
     heap_inv lo hi s2 bs \<and> used_blocks bs = {}"
proof -
  obtain s p s1 b k lo hi bs where 1: "kmalloc 24 s = Some (b + 16, s1)" "heap_inv lo hi s1 bs"
    "used_blocks bs = {(b, k)}" using boot_kmalloc [of 24] by auto
  then show ?thesis using kfree_spec [OF 1(2), of b k] by fastforce
qed

text \<open>C15: A successful kmalloc followed by kfree of its result restores the same list of blocks.\<close>

theorem kmalloc_kfree_same_blocks:
  assumes "heap_inv lo hi s bs" and "kmalloc n s = Some (p, s1)" and "p \<noteq> 0"
  shows "\<exists>s2. kfree p s1 = Some s2 \<and> heap_inv lo hi s2 bs"
proof -
  have "heap_ok lo hi (payload ` used_blocks bs) s" using assms(1) by (auto simp: heap_ok_def)
  from kh.alloc_release [OF this assms(2,3)] show ?thesis
    using heap_ok_same_blocks [OF assms(1)] by metis
qed

theorem kmalloc_kfree_same_blocks_witness:
  "\<exists>lo hi s bs p s1 s2. heap_inv lo hi s bs \<and> kmalloc 24 s = Some (p, s1) \<and> p \<noteq> 0 \<and>
     kfree p s1 = Some s2 \<and> heap_inv lo hi s2 bs"
proof -
  obtain s s1 b lo hi bs where 1: "heap_inv lo hi s bs" "kmalloc 24 s = Some (b + 16, s1)" "b + 16 \<noteq> 0"
    using boot_kmalloc [of 24] by auto
  then show ?thesis using kmalloc_kfree_same_blocks [OF 1] by blast
qed

theorem kmalloc_two_kfree_same_blocks:
  assumes "heap_inv lo hi s bs" and "kmalloc n s = Some (p, s1)" and "p \<noteq> 0"
    and "kmalloc m s1 = Some (q, s2)" and "q \<noteq> 0"
  shows "(unat p + unat n \<le> unat q \<or> unat q + unat m \<le> unat p) \<and>
    (\<exists>s3 s4. kfree p s2 = Some s3 \<and> kfree q s3 = Some s4 \<and> heap_inv lo hi s4 bs)"
proof -
  have ok: "heap_ok lo hi (payload ` used_blocks bs) s" using assms(1) by (auto simp: heap_ok_def)
  note allocs = this assms(2-5)
  obtain s3 s4 where "kfree p s2 = Some s3" "kfree q s3 = Some s4"
    "heap_ok lo hi (payload ` used_blocks bs) s4" using kh.alloc_two_release [OF allocs] .
  then show ?thesis using kh.alloc_apart [OF allocs] heap_ok_same_blocks [OF assms(1)] by blast
qed

theorem kmalloc_two_kfree_same_blocks_witness:
  "\<exists>lo hi s bs p s1 q s2 s3 s4. heap_inv lo hi s bs \<and> kmalloc 24 s = Some (p, s1) \<and> p \<noteq> 0 \<and>
     kmalloc 100 s1 = Some (q, s2) \<and> q \<noteq> 0 \<and> kfree p s2 = Some s3 \<and> kfree q s3 = Some s4 \<and>
     heap_inv lo hi s4 bs"
proof -
  obtain lo hi s bs b s1 q s2 where 1: "heap_inv lo hi s bs" "kmalloc 24 s = Some (b + 16, s1)"
    "b + 16 \<noteq> 0" "kmalloc 100 s1 = Some (q, s2)" "q \<noteq> 0" using boot_two by metis
  then show ?thesis using kmalloc_two_kfree_same_blocks [OF 1] by blast
qed

theorem kfree_twice:
  assumes "kfree p s = Some s1"
  shows "kfree p s1 = Some s1"
proof (cases "p = 0 \<or> h_lock s \<noteq> 0 \<or> is_free (hdr s (p - 16)) \<noteq> 0")
  case True
  then show ?thesis using assms by (cases "h_lock s = 0") (auto simp: kfree_def split: if_splits)
next
  case False
  let ?h = "p - 16"
  let ?s = "upd_hdr ?h (\<lambda>h. h\<lparr>is_free := 1\<rparr>) (s\<lparr>h_lock := 1,
    total_freed := total_freed s + (hsize (hdr s ?h) - 16), current_usage := current_usage s - hsize (hdr s ?h)\<rparr>)"
  have s1: "s1 = (merge_prev ?h (merge_next ?h ?s))\<lparr>h_lock := 0\<rparr>"
    using assms False by (simp add: kfree_def Let_def)
  have "is_free (hdr s1 ?h) \<noteq> 0" unfolding s1 by simp
  moreover have "h_lock s1 = 0" by (simp add: s1)
  ultimately show ?thesis by (auto simp: kfree_def)
qed

theorem kfree_twice_witness:
  "\<exists>s s1. kfree 0x2000010 s = Some s1 \<and> kfree 0x2000010 s1 = Some s1 \<and> is_free (hdr s 0x2000000) = 0"
proof -
  have "\<exists>s1. kfree 0x2000010 heap_bss = Some s1" by (simp add: kfree_def heap_bss_def Let_def)
  then obtain s1 where s1: "kfree 0x2000010 heap_bss = Some s1" by blast
  moreover have "is_free (hdr heap_bss 0x2000000) = 0" by (simp add: heap_bss_def)
  ultimately show ?thesis using kfree_twice [OF s1] by blast
qed

text \<open>
  C30: krealloc of a used block to a non-zero size returns: the same pointer with the heap unchanged
  when the old payload suffices; otherwise, when the size is at most KMALLOC_MAX_SIZE and some free
  block is large enough for it, a non-null pointer to a used block of at least the new size that
  replaces the old one and starts with the old payload bytes; and NULL with the heap unchanged when
  there is no such block.
\<close>

theorem krealloc_spec:
  assumes "heap_inv lo hi s bs" and "(b, n) \<in> used_blocks bs" and "sz \<noteq> 0"
  shows "case krealloc (b + 16) sz s of
     None \<Rightarrow> False
   | Some (p, s') \<Rightarrow>
       if unat sz \<le> n - 16 then p = b + 16 \<and> s' = s
       else if sz \<le> KMALLOC_MAX_SIZE \<and> (\<exists>(c, m, f)\<in>set bs. f \<and> need sz \<le> m)
       then p \<noteq> 0 \<and> (\<exists>k bs'. heap_inv lo hi s' bs' \<and> unat sz + 16 \<le> k \<and>
           used_blocks bs' = insert (p - 16, k) (used_blocks bs - {(b, n)})) \<and>
         (\<forall>i<n - 16. hbytes s' (p + of_nat i) = hbytes s (b + 16 + of_nat i))
       else p = 0 \<and> s' = s"
proof -
  note u = used_header [OF assms(1,2)]
  have old: "sz \<le> hsize (hdr s b) - 16 \<longleftrightarrow> unat sz \<le> n - 16"
    using u(1,2) by (simp add: word_le_nat_alt)
  show ?thesis
  proof (cases "unat sz \<le> n - 16")
    case True
    then show ?thesis using assms(3) u(3) old by (simp add: krealloc_def)
  next
    case big: False
    show ?thesis
    proof (cases rule: kmalloc_either [OF assms(1), of sz])
      case 1
      then have "\<not> fits sz bs" using kmalloc_fits [OF assms(1,3)] by blast
      then show ?thesis unfolding fits_def using 1 big assms(3) u(3) old by (simp add: krealloc_def)
    next
      case (2 c k s1 bs1)
      have fit: "fits sz bs" using kmalloc_fits [OF assms(1,3) 2(1)] 2(6) by blast
      let ?s = "s1\<lparr>hbytes := memcpy (c + 16) (b + 16) (of_nat n - 16) (hbytes s1)\<rparr>"
      have inv: "heap_inv lo hi ?s bs1" using 2(2) by (simp add: heap_inv_bytes)
      have "(b, n) \<in> used_blocks bs1" using 2(4) assms(2) by simp
      from kfree_used [OF inv this] obtain s' bs' where f: "kfree (b + 16) ?s = Some s'"
        "heap_inv lo hi s' bs'" "used_blocks bs' = used_blocks bs1 - {(b, n)}" "hbytes s' = hbytes ?s" .
      have r: "krealloc (b + 16) sz s = Some (c + 16, s')"
        using big assms(3) u(3) old 2(1,6) f(1) u(1)
        by (simp add: krealloc_def)
      have "used_blocks bs' = insert (c, k) (used_blocks bs - {(b, n)})"
        using f(3) 2(4,5) assms(2) by auto
      moreover have "\<forall>i<n - 16. hbytes s' (c + 16 + of_nat i) = hbytes s (b + 16 + of_nat i)"
        using krealloc_copy [OF assms(1,2) _ 2(1-5,7)] big f(4) by simp
      ultimately show ?thesis using r f(2) 2(3,6) big fit unfolding fits_def by auto
    qed
  qed
qed

theorem krealloc_spec_witness:
  "\<exists>s p s1 q s2. kmalloc 24 s = Some (p, s1) \<and> krealloc p 100 s1 = Some (q, s2) \<and> q \<noteq> 0 \<and>
     (\<forall>i<24. hbytes s2 (q + of_nat i) = hbytes s1 (p + of_nat i))"
proof -
  obtain lo hi s bs0 b s1 bs n q t where 1: "heap_inv lo hi s bs0" "kmalloc 24 s = Some (b + 16, s1)"
    "b + 16 \<noteq> 0" "heap_inv lo hi s1 bs" "(b, n) \<in> used_blocks bs" "n = 40" "kmalloc 100 s1 = Some (q, t)" "q \<noteq> 0"
    using boot_two by metis
  have sz: "(100 :: u32) \<noteq> 0" by simp
  have fit: "100 \<le> KMALLOC_MAX_SIZE \<and> (\<exists>(c, m, f)\<in>set bs. f \<and> need 100 \<le> m)"
    using kmalloc_fits [OF 1(4) sz 1(7)] 1(8) unfolding fits_def by blast
  have big: "\<not> unat (100 :: u32) \<le> n - 16" using 1(6) by simp
  from krealloc_spec [OF 1(4,5) sz, unfolded if_not_P [OF big] if_P [OF fit]]
  obtain r s2 where r: "krealloc (b + 16) 100 s1 = Some (r, s2)" "r \<noteq> 0"
    "\<forall>i<n - 16. hbytes s2 (r + of_nat i) = hbytes s1 (b + 16 + of_nat i)"
    by (auto split: option.splits)
  then show ?thesis using 1(2,6)
    by (intro exI [of _ s] exI [of _ "b + 16"] exI [of _ s1] exI [of _ r] exI [of _ s2]) simp
qed

theorem kcalloc_wraps:
  assumes "heap_inv lo hi s bs" and "2 ^ 32 \<le> unat num * unat sz"
    and "kcalloc num sz s = Some (p, s')" and "p \<noteq> 0"
  shows "\<exists>bs' k. heap_inv lo hi s' bs' \<and> (p - 16, k) \<in> used_blocks bs' \<and> k < unat num * unat sz"
proof -
  have "kmalloc (num * sz) s = Some (p, s')" using assms(1,3) kcalloc_is_kmalloc by simp
  then show ?thesis
  proof (cases rule: kmalloc_either [OF assms(1), of "num * sz"])
    case 1
    then show ?thesis using \<open>kmalloc (num * sz) s = Some (p, s')\<close> assms(4) by simp
  next
    case (2 b k t bs')
    then have p: "p = b + 16" "s' = t" using \<open>kmalloc (num * sz) s = Some (p, s')\<close> by simp_all
    have mem: "(b, k) \<in> used_blocks bs'" using 2(4) by simp
    have "unat b + k \<le> hi" "hi < 2 ^ 32" using heap_ok_block(3) [OF 2(2) mem] assms(1) by (simp_all add: heap_inv_def)
    then have "k < unat num * unat sz" using assms(2) by simp
    then show ?thesis using 2(2) mem p by auto
  qed
qed

theorem kcalloc_wraps_witness:
  "\<exists>s p s'. kcalloc 0x10000 0x10001 s = Some (p, s') \<and> p \<noteq> 0 \<and>
     (\<exists>lo hi bs k. heap_inv lo hi s' bs \<and> (p - 16, k) \<in> used_blocks bs \<and> k < 0x100010000)"
proof -
  obtain p0 s p1 a where s: "heap_inv (unat a) (unat a + 0x100000) s [(a, 0x100000, True)]"
    using boot_heap .
  have "\<exists>p s'. kmalloc 0x10000 s = Some (p, s') \<and> p \<noteq> 0"
    by (rule kmalloc_enough [OF s, of _ a "0x100000"]) (simp_all add: need_def)
  moreover have wrap: "(0x10000 :: u32) * 0x10001 = 0x10000" by (rule unsigned_word_eqI) simp
  ultimately obtain p s' where k: "kcalloc 0x10000 0x10001 s = Some (p, s')" "p \<noteq> 0"
    using kcalloc_is_kmalloc [OF s, of "0x10000" "0x10001"] unfolding wrap by auto
  have "2 ^ 32 \<le> unat (0x10000 :: u32) * unat (0x10001 :: u32)" by simp
  from kcalloc_wraps [OF s this k] obtain bs n where
    "heap_inv (unat a) (unat a + 0x100000) s' bs" "(p - 16, n) \<in> used_blocks bs" "n < 0x100010000" by auto
  with k show ?thesis by blast
qed

text \<open>
  C32: kmalloc_init on a consistent page allocator whose free frames lie below frame 0xFFFFF (so that
  the heap does not end at the top of the address space) returns; if and only if the allocator has a
  free block of 256 pages or more the heap is not null, one consistent free block of 1 MiB whose 256
  frames are taken from the free ones of the allocator; otherwise the allocator is unchanged and the
  header is written through the null pointer, at address 0.
\<close>

theorem kmalloc_init_spec:
  assumes "buddy_inv b B" and "free_frames B \<subseteq> {..<0xFFFFF}"
  shows "\<exists>s' b'. kmalloc_init s b = Some (s', b') \<and>
    (if \<exists>(i, a)\<in>B. 8 \<le> i
     then h_head s' \<noteq> 0 \<and> frames 8 (h_head s') \<subseteq> free_frames B \<and> base_addr b' = base_addr b \<and>
       (\<exists>B'. buddy_inv b' B' \<and> free_frames B' = free_frames B - frames 8 (h_head s')) \<and>
       heap_inv (unat (h_head s')) (unat (h_head s') + 0x100000) s' [(h_head s', 0x100000, True)]
     else h_head s' = 0 \<and> b' = b \<and> hdr s' 0 = \<lparr>hsize = 0x100000, is_free = 1, hnext = 0, hprev = 0\<rparr>)"
proof (cases "\<exists>(i, a)\<in>B. 8 \<le> i")
  case True
  then obtain i c where ic: "(i, c) \<in> B" "unat (8 :: u32) \<le> i" by auto
  obtain a b' B' where a: "pmm_alloc_pages 8 b = Some (a, b')" "buddy_inv b' B'" "base_addr b' = base_addr b"
    "held (base_addr b) B' (unat (8 :: u32), a)" "a \<noteq> 0" "frames (unat (8 :: u32)) a \<union> free_frames B' = free_frames B"
    using pmm_alloc_some_left [OF assms(1) _ ic] by auto
  have free: "frames 8 a \<subseteq> free_frames B" "free_frames B' = free_frames B - frames 8 a"
    using a(4,6) by (auto simp: held_def)
  have "aligned 8 a" using a(4) by (simp add: held_def good_block_def)
  moreover have "frames 8 a \<subseteq> {..<0xFFFFF}" using free(1) assms(2) by blast
  then have "pfn a + 255 \<in> {..<0xFFFFF}" by (rule subsetD) (simp add: frames_def)
  then have "unat a + 0x100000 < 2 ^ 32" by (simp add: pfn_def)
  ultimately obtain s' where s': "kmalloc_init s b = Some (s', b')"
    "heap_inv (unat a) (unat a + 0x100000) s' [(a, 0x100000, True)]"
    using kmalloc_init_rep [OF a(1,5)] by blast
  then have "h_head s' = a" by (simp add: heap_inv_def)
  then show ?thesis unfolding if_P [OF True] using s' a(2,3,5) free by blast
next
  case False
  then have "\<forall>(i, a)\<in>B. i < unat (8 :: u32)" by auto
  then have "pmm_alloc_pages 8 b = Some (0, b)" using pmm_alloc_none_left [OF assms(1)] by simp
  then show ?thesis unfolding if_not_P [OF False] by (simp add: kmalloc_init_def)
qed

theorem kmalloc_init_spec_witness:
  "\<exists>p0 s b. pmm_init 0x01000000 0x02000000 buddy_bss = Some p0 \<and> kmalloc_init heap_bss p0 = Some (s, b) \<and>
     h_head s \<noteq> 0 \<and> frames 8 (h_head s) \<subseteq> {0x1800..<0x2800} \<and>
     heap_inv (unat (h_head s)) (unat (h_head s) + 0x100000) s [(h_head s, 0x100000, True)]"
proof -
  obtain p0 where p0: "pmm_init 0x01000000 0x02000000 buddy_bss = Some p0" "base_addr p0 = 0x01000000"
    "buddy_inv p0 (init_blocks 0x01800000 2)"
    "free_frames (init_blocks 0x01800000 2) = {0x1800..<0x2800}" using boot_blocks .
  have sub: "free_frames (init_blocks 0x01800000 2) \<subseteq> {..<0xFFFFF}" unfolding p0(4) by auto
  have ex: "\<exists>(i, a)\<in>init_blocks 0x01800000 2. 8 \<le> i" by (rule bexI [OF _ boot_first]) simp
  from kmalloc_init_spec [OF p0(3) sub, of heap_bss, unfolded if_P [OF ex] p0(4)] p0(1) show ?thesis by blast
qed

theorem kmalloc_stats_counts:
  assumes "heap_inv lo hi s bs"
  shows "\<exists>fb ub tf tu e. kmalloc_stats s = Some ((fb, ub, tf, tu), e, s) \<and>
    fb = of_nat (length [b \<leftarrow> bs. snd (snd b)]) \<and> ub = of_nat (card (used_blocks bs)) \<and>
    tu = current_usage s \<and> unat tf + unat tu = hi - lo"
proof -
  have inv: "h_lock s = 0" "heap_rep s bs" "layout lo hi bs" "current_usage s = of_nat (used_sum bs)"
    using assms by (simp_all add: heap_inv_alt)
  have "0 \<notin> addrs bs" "distinct (map fst bs)" using layout_wf [OF inv(3)] by simp_all
  then have loop: "stats_loop (hdr s) (h_head s) (0, 0, 0, 0) =
      Some (of_nat (length [b \<leftarrow> bs. snd (snd b)]), of_nat (length [b \<leftarrow> bs. \<not> snd (snd b)]),
        of_nat (free_sum bs), of_nat (used_sum bs))"
    using stats_loop_spec [of "hdr s" 0 bs 0 0 0 0] inv(2) by (simp add: heap_rep_def)
  have "distinct [b \<leftarrow> bs. \<not> snd (snd b)]" using \<open>distinct (map fst bs)\<close> by (simp add: distinct_map)
  then have "length [b \<leftarrow> bs. \<not> snd (snd b)] = card (set [b \<leftarrow> bs. \<not> snd (snd b)])"
    by (rule distinct_card [symmetric])
  also have "\<dots> = card ((\<lambda>(b, n). (b, n, False)) ` used_blocks bs)"
    by (rule arg_cong [where f = card]) (auto simp: used_blocks_def image_iff)
  also have "\<dots> = card (used_blocks bs)" by (rule card_image) (auto simp: inj_on_def)
  finally have ub: "length [b \<leftarrow> bs. \<not> snd (snd b)] = card (used_blocks bs)" .
  have sums: "hi = lo + free_sum bs + used_sum bs" "hi < 2 ^ 32"
    using inv(3) tiles_sums by (simp_all add: layout_def)
  then have "unat (of_nat (free_sum bs) :: u32) = free_sum bs" "unat (of_nat (used_sum bs) :: u32) = used_sum bs"
    by (simp_all add: unat_of_nat_small)
  then have "unat (of_nat (free_sum bs) :: u32) + unat (current_usage s) = hi - lo"
    using sums(1) inv(4) by simp
  moreover have "s\<lparr>h_lock := 0\<rparr> = s" using inv(1) by simp
  ultimately show ?thesis using loop inv(1,4) unfolding ub by (simp add: kmalloc_stats_def Let_def)
qed

theorem kmalloc_stats_counts_witness:
  "\<exists>s fb ub tf tu e. kmalloc_stats s = Some ((fb, ub, tf, tu), e, s) \<and> fb = 1 \<and> ub = 0 \<and> unat tf + unat tu = 0x100000"
proof -
  obtain p0 s p1 a where s: "heap_inv (unat a) (unat a + 0x100000) s [(a, 0x100000, True)]"
    using boot_heap .
  from kmalloc_stats_counts [OF s] show ?thesis by (intro exI [of _ s]) auto
qed

end
