(* ===== verification/Ports.thy ===== *)
theory Ports
  imports Prelude
begin

text \<open>
  Port I/O (\<open>kernel/drivers/io.h\<close>) and the interrupt controllers (\<open>kernel/interrupts/pic.c\<close>).
  The state is the log of port accesses, oldest first. What a read returns is up to the hardware:
  a device is a function of the log so far and of the port, and is an argument of every operation
  that reads a port.
\<close>

section \<open>Ports\<close>

datatype io_event = In u16 u8 | Out u16 u8

type_synonym io_log = "io_event list"
type_synonym device = "io_log \<Rightarrow> u16 \<Rightarrow> u8"

definition outb :: "u16 \<Rightarrow> u8 \<Rightarrow> io_log \<Rightarrow> io_log" where
  "outb port v io = io @ [Out port v]"

definition inb :: "device \<Rightarrow> u16 \<Rightarrow> io_log \<Rightarrow> u8 \<times> io_log" where
  "inb dev port io = (let v = dev io port in (v, io @ [In port v]))"

fun is_out :: "io_event \<Rightarrow> bool" where
  "is_out (Out _ _) = True"
| "is_out (In _ _) = False"

definition outs :: "io_log \<Rightarrow> io_log" where
  "outs io = [e \<leftarrow> io. is_out e]"

lemma outs_simps [simp]:
  "outs [] = []" "outs (xs @ ys) = outs xs @ outs ys"
  "outs (Out p v # io) = Out p v # outs io" "outs (In p v # io) = outs io"
  by (simp_all add: outs_def)

section \<open>Interrupt controllers\<close>

definition PIC1_CMD :: u16 where [simp]: "PIC1_CMD = 0x20"
definition PIC1_DATA :: u16 where [simp]: "PIC1_DATA = 0x21"
definition PIC2_CMD :: u16 where [simp]: "PIC2_CMD = 0xA0"
definition PIC2_DATA :: u16 where [simp]: "PIC2_DATA = 0xA1"

definition pic_remap :: "device \<Rightarrow> u32 \<Rightarrow> u32 \<Rightarrow> io_log \<Rightarrow> io_log" where
  "pic_remap dev offset1 offset2 io =
     (let (a1, io) = inb dev 0x21 io;
          (a2, io) = inb dev 0xA1 io;
          io = outb 0x20 0x11 io;
          io = outb 0xA0 0x11 io;
          io = outb 0x21 (ucast offset1) io;
          io = outb 0xA1 (ucast offset2) io;
          io = outb 0x21 0x04 io;
          io = outb 0xA1 0x02 io;
          io = outb 0x21 0x01 io;
          io = outb 0xA1 0x01 io;
          io = outb PIC1_DATA 0xFF io;
          io = outb PIC2_DATA 0xFF io;
          io = outb 0x21 a1 io
      in outb 0xA1 a2 io)"

definition pic_eoi :: "u8 \<Rightarrow> io_log \<Rightarrow> io_log" where
  "pic_eoi irq io =
     (let io = (if irq \<ge> 8 then outb PIC2_CMD 0x20 io else io)
      in outb PIC1_CMD 0x20 io)"

definition pic_set_mask :: "device \<Rightarrow> u8 \<Rightarrow> io_log \<Rightarrow> io_log" where
  "pic_set_mask dev irq io =
     (let (port, irq) = (if irq < 8 then (PIC1_DATA, irq) else (PIC2_DATA, irq - 8));
          (v, io) = inb dev port io
      in outb port (v OR push_bit (unat irq) 1) io)"

definition pic_clear_mask :: "device \<Rightarrow> u8 \<Rightarrow> io_log \<Rightarrow> io_log" where
  "pic_clear_mask dev irq io =
     (let (port, irq) = (if irq < 8 then (PIC1_DATA, irq) else (PIC2_DATA, irq - 8));
          (v, io) = inb dev port io
      in outb port (v AND NOT (push_bit (unat irq) 1)) io)"

text \<open>
  The 8259A: the mask register of a controller is the last byte written to its data port, and
  reading that port gives the mask register.
\<close>

fun last_out :: "u16 \<Rightarrow> io_log \<Rightarrow> u8 \<Rightarrow> u8" where
  "last_out port [] v = v"
| "last_out port (Out p w # io) v = last_out port io (if p = port then w else v)"
| "last_out port (In p w # io) v = last_out port io v"

definition mask_register :: "(u16 \<Rightarrow> u8) \<Rightarrow> u16 \<Rightarrow> io_log \<Rightarrow> u8" where
  "mask_register imr0 port io = last_out port io (imr0 port)"

definition pic_device :: "(u16 \<Rightarrow> u8) \<Rightarrow> device \<Rightarrow> bool" where
  "pic_device imr0 dev \<longleftrightarrow>
     (\<forall>io. dev io PIC1_DATA = mask_register imr0 PIC1_DATA io \<and> dev io PIC2_DATA = mask_register imr0 PIC2_DATA io)"

text \<open>Interrupt line \<open>i\<close> of the 16 is enabled when its mask bit is clear.\<close>

definition irq_enabled :: "(u16 \<Rightarrow> u8) \<Rightarrow> io_log \<Rightarrow> nat \<Rightarrow> bool" where
  "irq_enabled imr0 io i \<longleftrightarrow>
     \<not> bit (mask_register imr0 (if i < 8 then PIC1_DATA else PIC2_DATA) io) (i mod 8)"

lemma last_out_append [simp]: "last_out port (xs @ ys) v = last_out port ys (last_out port xs v)"
proof (induction xs arbitrary: v)
  case (Cons e xs)
  then show ?case by (cases e) simp_all
qed simp

lemma mask_register_out [simp]:
  "mask_register imr0 port (outb p v io) = (if p = port then v else mask_register imr0 port io)"
  by (simp add: mask_register_def outb_def)

lemma mask_register_in [simp]: "mask_register imr0 port (io @ [In p v]) = mask_register imr0 port io"
  by (simp add: mask_register_def)

lemma bit_clear_8: "j < 8 \<Longrightarrow> bit (v AND NOT (2 ^ k) :: u8) j \<longleftrightarrow> bit v j \<and> j \<noteq> k"
  by (auto simp: bit_simps)

lemma bit_set_8: "j < 8 \<Longrightarrow> bit (v OR 2 ^ k :: u8) j \<longleftrightarrow> bit v j \<or> j = k"
  by (auto simp: bit_simps)

text \<open>The data port and the bit of a line.\<close>

definition irq_port :: "nat \<Rightarrow> u16" where
  "irq_port i = (if i < 8 then PIC1_DATA else PIC2_DATA)"

lemma irq_port_eq: "i < 16 \<Longrightarrow> j < 16 \<Longrightarrow> irq_port i = irq_port j \<and> i mod 8 = j mod 8 \<longleftrightarrow> i = j"
proof -
  assume "i < 16" "j < 16"
  have "irq_port i = irq_port j \<longleftrightarrow> (i < 8 \<longleftrightarrow> j < 8)" by (simp add: irq_port_def)
  moreover have "i = j" if "i < 8 \<longleftrightarrow> j < 8" "i mod 8 = j mod 8"
  proof (cases "i < 8")
    case False
    then have "i mod 8 = i - 8" "j mod 8 = j - 8" "8 \<le> i" "8 \<le> j"
      using that \<open>i < 16\<close> \<open>j < 16\<close> by (simp_all add: le_mod_geq)
    with that show ?thesis by simp
  qed (use that in simp)
  ultimately show ?thesis by auto
qed

lemma irq_split:
  assumes "irq < (16 :: u8)"
  shows "(if irq < 8 then (PIC1_DATA, irq) else (PIC2_DATA, irq - 8)) = (irq_port (unat irq), of_nat (unat irq mod 8))"
    and "unat (of_nat (unat irq mod 8) :: u8) = unat irq mod 8"
proof -
  show u: "unat (of_nat (unat irq mod 8) :: u8) = unat irq mod 8"
    by (rule unat_of_nat_small) (rule less_trans [of _ 8], simp_all)
  show "(if irq < 8 then (PIC1_DATA, irq) else (PIC2_DATA, irq - 8)) = (irq_port (unat irq), of_nat (unat irq mod 8))"
  proof (cases "irq < 8")
    case True
    then show ?thesis by (simp add: irq_port_def word_less_nat_alt)
  next
    case False
    then have ge: "8 \<le> irq" by simp
    then have "8 \<le> unat irq" "unat irq < 16" using assms by (simp_all add: word_le_nat_alt word_less_nat_alt)
    then have "unat (irq - 8) = unat irq mod 8" using ge by (simp add: unat_sub le_mod_geq)
    then have "irq - 8 = of_nat (unat irq mod 8)" using u by (metis unsigned_word_eqI)
    then show ?thesis using False \<open>8 \<le> unat irq\<close> by (simp add: irq_port_def)
  qed
qed

lemma irq_enabled_alt: "irq_enabled imr0 io i \<longleftrightarrow> \<not> bit (mask_register imr0 (irq_port i) io) (i mod 8)"
  by (simp add: irq_enabled_def irq_port_def)

lemma pic_device_read:
  "pic_device imr0 dev \<Longrightarrow> dev io (irq_port i) = mask_register imr0 (irq_port i) io"
  by (simp add: pic_device_def irq_port_def)

text \<open>Remapping the vectors writes the mask registers several times and leaves them as they were.\<close>

lemma pic_remap_keeps_masks:
  assumes "pic_device imr0 dev"
  shows "irq_enabled imr0 (pic_remap dev offset1 offset2 io) i \<longleftrightarrow> irq_enabled imr0 io i"
  using assms
  by (simp add: irq_enabled_alt irq_port_def pic_remap_def inb_def Let_def pic_device_def)

section \<open>Properties\<close>

lemma masks_one_line:
  assumes "pic_device imr0 dev" and "irq < 16" and "i < 16"
  shows "(irq_enabled imr0 (pic_clear_mask dev irq io) i \<longleftrightarrow> i = unat irq \<or> irq_enabled imr0 io i) \<and>
    (irq_enabled imr0 (pic_set_mask dev irq io) i \<longleftrightarrow> i \<noteq> unat irq \<and> irq_enabled imr0 io i) \<and>
    (irq_enabled imr0 (pic_eoi irq io) i \<longleftrightarrow> irq_enabled imr0 io i)"
proof -
  let ?k = "unat irq"
  have k: "?k < 16" using assms(2) by (simp add: word_less_nat_alt)
  have "irq_enabled imr0 (pic_clear_mask dev irq io) i \<longleftrightarrow> i = ?k \<or> irq_enabled imr0 io i"
    unfolding pic_clear_mask_def irq_split(1) [OF assms(2)] irq_enabled_alt
    using irq_port_eq [OF assms(3) k]
    by (auto simp: inb_def Let_def irq_split(2) [OF assms(2)] pic_device_read [OF assms(1)] bit_clear_8
        simp del: of_nat_mod unsigned_of_nat)
  moreover have "irq_enabled imr0 (pic_set_mask dev irq io) i \<longleftrightarrow> i \<noteq> ?k \<and> irq_enabled imr0 io i"
    unfolding pic_set_mask_def irq_split(1) [OF assms(2)] irq_enabled_alt
    using irq_port_eq [OF assms(3) k]
    by (auto simp: inb_def Let_def irq_split(2) [OF assms(2)] pic_device_read [OF assms(1)] bit_set_8
        simp del: of_nat_mod unsigned_of_nat)
  moreover have "irq_enabled imr0 (pic_eoi irq io) i \<longleftrightarrow> irq_enabled imr0 io i"
    by (simp add: irq_enabled_alt irq_port_def pic_eoi_def Let_def)
  ultimately show ?thesis by blast
qed

theorem pic_masks_one_line:
  assumes "pic_device imr0 dev" and "irq < 16" and "i < 16"
  shows "(irq_enabled imr0 (pic_clear_mask dev irq io) i \<longleftrightarrow> i = unat irq \<or> irq_enabled imr0 io i) \<and>
    (irq_enabled imr0 (pic_set_mask dev irq io) i \<longleftrightarrow> i \<noteq> unat irq \<and> irq_enabled imr0 io i) \<and>
    (irq_enabled imr0 (pic_eoi irq io) i \<longleftrightarrow> irq_enabled imr0 io i)"
  using assms by (rule masks_one_line)

definition demo_device :: device where
  "demo_device io port = mask_register (\<lambda>_. 0xFF) port io"

lemma demo_pic: "pic_device (\<lambda>_. 0xFF) demo_device"
  by (simp add: pic_device_def demo_device_def)

theorem pic_masks_one_line_witness:
  "irq_enabled (\<lambda>_. 0xFF) (pic_clear_mask demo_device 12 []) 12 \<and>
   \<not> irq_enabled (\<lambda>_. 0xFF) (pic_set_mask demo_device 12 (pic_clear_mask demo_device 12 [])) 12"
  using pic_masks_one_line [OF demo_pic, of 12 12] by simp

end
