(* ===== verification/Serial.thy ===== *)
theory Serial
  imports Ports Cstring "HOL-Library.Signed_Division"
begin

text \<open>
  The serial console of \<open>kernel/drivers/serial.c\<close>: polled transmission, number formatting and the
  formatted output that every log line of the kernel goes through. A local character buffer is a
  byte list; the variable arguments are the words above the format on the stack, by position.
\<close>

section \<open>Transmission\<close>

definition COM1 :: u16 where [simp]: "COM1 = 0x3F8"

definition serial_init :: "u16 \<Rightarrow> u16 \<Rightarrow> io_log \<Rightarrow> io_log" where
  "serial_init port divisor io =
     (let io = outb (port + 1) 0x00 io;
          io = outb (port + 3) 0x80 io;
          io = outb (port + 0) (ucast (divisor AND 0xFF)) io;
          io = outb (port + 1) (ucast (drop_bit 8 divisor AND 0xFF)) io;
          io = outb (port + 3) 0x03 io;
          io = outb (port + 2) 0xC7 io
      in outb (port + 4) 0x03 io)"

definition serial_transmit_empty :: "device \<Rightarrow> u16 \<Rightarrow> io_log \<Rightarrow> bool \<times> io_log" where
  "serial_transmit_empty dev port io = (let (v, io) = inb dev (port + 5) io in (v AND 0x20 \<noteq> 0, io))"

partial_function (option) serial_wait :: "device \<Rightarrow> u16 \<Rightarrow> io_log \<Rightarrow> io_log option" where
  "serial_wait dev port io =
     (if \<not> fst (serial_transmit_empty dev port io)
      then serial_wait dev port (snd (serial_transmit_empty dev port io))
      else Some (snd (serial_transmit_empty dev port io)))"

definition serial_write_char :: "device \<Rightarrow> u16 \<Rightarrow> u8 \<Rightarrow> io_log \<Rightarrow> io_log option" where
  "serial_write_char dev port c io = do {
     io \<leftarrow> serial_wait dev port io;
     Some (outb port c io)
   }"

partial_function (option) serial_write :: "device \<Rightarrow> u16 \<Rightarrow> u32 \<Rightarrow> mem \<Rightarrow> io_log \<Rightarrow> io_log option" where
  "serial_write dev port str m io =
     (if m str \<noteq> 0 then do {
        io \<leftarrow> serial_write_char dev port (m str) io;
        serial_write dev port (str + 1) m io
      } else Some io)"

text \<open>The same loop over a local buffer or a string literal, and the bytes of a literal.\<close>

fun serial_write_buf :: "device \<Rightarrow> u16 \<Rightarrow> u8 list \<Rightarrow> io_log \<Rightarrow> io_log option" where
  "serial_write_buf dev port [] io = Some io"
| "serial_write_buf dev port (c # cs) io =
     (if c \<noteq> 0 then do {
        io \<leftarrow> serial_write_char dev port c io;
        serial_write_buf dev port cs io
      } else Some io)"

definition lit :: "string \<Rightarrow> u8 list" where
  "lit s = map of_char s"

section \<open>Numbers\<close>

text \<open>The \<open>do ... while (num > 0)\<close> loop of \<open>itoa_dec\<close>; \<open>/\<close> and \<open>%\<close> round towards zero.\<close>

function itoa_dec_loop :: "u32 \<Rightarrow> u8 list \<Rightarrow> u8 list" where
  "itoa_dec_loop num ptr =
     (let ptr = ptr @ [48 + word_of_int (sint num smod 10)];
          num = word_of_int (sint num sdiv 10)
      in if sint num > 0 then itoa_dec_loop num ptr else ptr)"
  by pat_completeness auto

text \<open>The reversing loop: two indices that move towards each other.\<close>

function reverse_loop :: "nat \<Rightarrow> nat \<Rightarrow> u8 list \<Rightarrow> u8 list" where
  "reverse_loop ptr1 ptr str =
     (if ptr1 < ptr then reverse_loop (ptr1 + 1) (ptr - 1) (str[ptr := str ! ptr1, ptr1 := str ! ptr])
      else str)"
  by pat_completeness auto
termination
  by (relation "measure (\<lambda>(i, j, _). j - i)") auto

declare reverse_loop.simps [simp del]

lemma sdiv_10: "0 \<le> i \<Longrightarrow> i sdiv 10 = i div (10 :: int)" "0 \<le> i \<Longrightarrow> i smod 10 = i mod (10 :: int)"
  by (cases "i = 0"; simp add: signed_divide_int_def signed_modulo_int_def)+

lemma sint_bounds: "- (2 ^ 31) \<le> sint (w :: u32)" "sint (w :: u32) < 2 ^ 31"
  using sint_greater_eq [of w] sint_less [of w] by simp_all

lemma sint_word_small: "0 \<le> i \<Longrightarrow> i < 2 ^ 31 \<Longrightarrow> sint (word_of_int i :: u32) = i"
  by (simp add: sint_sbintrunc' signed_take_bit_int_eq_self)

lemma itoa_dec_step:
  assumes "0 < sint (word_of_int (sint (num :: u32) sdiv 10) :: u32)"
  shows "0 < sint num" and "sint (word_of_int (sint num sdiv 10) :: u32) = sint num div 10"
proof -
  have pos: "0 < sint num"
  proof (rule ccontr)
    assume "\<not> 0 < sint num"
    then have "sint num sdiv 10 = - (- sint num div 10)"
      by (cases "sint num = 0") (simp_all add: signed_divide_int_def)
    moreover have "0 \<le> - sint num div 10" "- sint num div 10 \<le> 2 ^ 31"
      using \<open>\<not> 0 < sint num\<close> sint_bounds [of num] by simp_all
    ultimately have n: "sint num sdiv 10 \<le> 0" "- (2 ^ 31) \<le> sint num sdiv 10" by linarith+
    then have "sint (word_of_int (sint num sdiv 10) :: u32) = sint num sdiv 10"
      by (simp add: sint_sbintrunc' signed_take_bit_int_eq_self)
    with n assms show False by simp
  qed
  then show "0 < sint num" .
  have "0 \<le> sint num div 10" "sint num div 10 < 2 ^ 31" using pos sint_bounds [of num] by simp_all
  then show "sint (word_of_int (sint num sdiv 10) :: u32) = sint num div 10"
    using pos by (simp add: sdiv_10 sint_word_small)
qed

termination itoa_dec_loop
proof (relation "measure (\<lambda>(num, _). nat (sint num))")
  fix num :: u32 and ptr x xa
  assume "xa = word_of_int (sint num sdiv 10)" "0 < sint (xa :: u32)"
  then show "((xa, x), num, ptr) \<in> measure (\<lambda>(num, _). nat (sint num))"
    using itoa_dec_step [of num] by simp
qed simp

declare itoa_dec_loop.simps [simp del]

definition itoa_dec :: "u32 \<Rightarrow> u8 list" where
  "itoa_dec num =
     (if num = 0 then [48]
      else
        let is_negative = sint num < 0;
            num = (if is_negative then - num else num);
            str = itoa_dec_loop num [];
            str = (if is_negative then str @ [45] else str)
        in reverse_loop 0 (length str - 1) str)"

function itoa_hex_loop :: "u32 \<Rightarrow> nat \<Rightarrow> u8 list \<Rightarrow> u8 list" where
  "itoa_hex_loop num count ptr =
     (let digit = num AND 0xF;
          ptr = ptr @ [if digit < 10 then 48 + ucast digit else 97 + ucast digit - 10];
          num = drop_bit 4 num;
          count = count + 1
      in if num \<noteq> 0 \<and> count < 8 then itoa_hex_loop num count ptr else ptr)"
  by pat_completeness auto
termination
  by (relation "measure (\<lambda>(_, count, _). 8 - count)") auto

declare itoa_hex_loop.simps [simp del]

definition itoa_hex :: "u32 \<Rightarrow> u8 list" where
  "itoa_hex num =
     (if num = 0 then [48]
      else
        let str = itoa_hex_loop num 0 []
        in reverse_loop 0 (length str - 1) str)"

section \<open>Formatted output\<close>

text \<open>The \<open>switch\<close> on the character after \<open>%\<close>: the next argument's index and the log.\<close>

definition vprintf_conv ::
  "device \<Rightarrow> u16 \<Rightarrow> u8 \<Rightarrow> (nat \<Rightarrow> u32) \<Rightarrow> nat \<Rightarrow> mem \<Rightarrow> io_log \<Rightarrow> (nat \<times> io_log) option" where
  "vprintf_conv dev port c args k m io =
     (if c = 100 then do {
        io \<leftarrow> serial_write_buf dev port (itoa_dec (args k)) io;
        Some (k + 1, io)
      }
      else if c = 120 then do {
        io \<leftarrow> serial_write_buf dev port (itoa_hex (args k)) io;
        Some (k + 1, io)
      }
      else if c = 115 then do {
        io \<leftarrow> serial_write dev port (args k) m io;
        Some (k + 1, io)
      }
      else if c = 99 then do {
        io \<leftarrow> serial_write_char dev port (ucast (args k)) io;
        Some (k + 1, io)
      }
      else if c = 112 then do {
        io \<leftarrow> serial_write_buf dev port ([48, 120] @ itoa_hex (args k)) io;
        Some (k + 1, io)
      }
      else if c = 37 then do {
        io \<leftarrow> serial_write_char dev port 37 io;
        Some (k, io)
      }
      else do {
        io \<leftarrow> serial_write_char dev port 37 io;
        io \<leftarrow> serial_write_char dev port c io;
        Some (k, io)
      })"

partial_function (option) vprintf_loop ::
  "device \<Rightarrow> u16 \<Rightarrow> (nat \<Rightarrow> u32) \<Rightarrow> mem \<Rightarrow> u32 \<Rightarrow> nat \<times> io_log \<Rightarrow> io_log option" where
  "vprintf_loop dev port args m p x =
     (if m p = 0 then Some (snd x)
      else if m p \<noteq> 37 then do {
        io \<leftarrow> serial_write_char dev port (m p) (snd x);
        vprintf_loop dev port args m (p + 1) (fst x, io)
      }
      else do {
        y \<leftarrow> vprintf_conv dev port (m (p + 1)) args (fst x) m (snd x);
        vprintf_loop dev port args m (p + 2) y
      })"

definition serial_vprintf :: "device \<Rightarrow> u16 \<Rightarrow> u32 \<Rightarrow> (nat \<Rightarrow> u32) \<Rightarrow> mem \<Rightarrow> io_log \<Rightarrow> io_log option" where
  "serial_vprintf dev port format args m io = vprintf_loop dev port args m format (0, io)"

definition serial_printf :: "device \<Rightarrow> u16 \<Rightarrow> u32 \<Rightarrow> (nat \<Rightarrow> u32) \<Rightarrow> mem \<Rightarrow> io_log \<Rightarrow> io_log option" where
  "serial_printf dev port format args m io = serial_vprintf dev port format args m io"

datatype log_level = DEBUG | INFO | ERROR

definition level_tag :: "log_level \<Rightarrow> u8 list" where
  "level_tag level = (case level of
     DEBUG \<Rightarrow> [91, 68, 69, 66, 85, 71, 93, 32]
   | INFO \<Rightarrow> [91, 73, 78, 70, 79, 93, 32]
   | ERROR \<Rightarrow> [91, 69, 82, 82, 79, 82, 93, 32])"

definition serial_log ::
  "device \<Rightarrow> u16 \<Rightarrow> log_level \<Rightarrow> u32 \<Rightarrow> (nat \<Rightarrow> u32) \<Rightarrow> mem \<Rightarrow> io_log \<Rightarrow> io_log option" where
  "serial_log dev port level format args m io = do {
     io \<leftarrow> serial_write_buf dev port (level_tag level) io;
     io \<leftarrow> serial_vprintf dev port format args m io;
     serial_write_buf dev port [10] io
   }"

section \<open>Reversal in place\<close>

lemma reverse_loop_segment:
  "reverse_loop (length xs) (length xs + length ys - 1) (xs @ ys @ zs) = xs @ rev ys @ zs"
proof (induction "length ys" arbitrary: xs ys zs rule: less_induct)
  case less
  show ?case
  proof (cases "length ys \<le> 1")
    case True
    then have "rev ys = ys" by (cases ys) auto
    then show ?thesis using True by (subst reverse_loop.simps) auto
  next
    case False
    then obtain a us b where ys: "ys = a # us @ [b]"
      by (metis One_nat_def append_butlast_last_id le_Suc_eq list.size(3) list.size(4) neq_Nil_conv
          add.right_neutral add_Suc_right last.simps butlast.simps(2) le0)
    let ?zs = "us @ a # zs"
    have "(xs @ ys @ zs)[length xs + length ys - 1 := (xs @ ys @ zs) ! length xs, length xs := (xs @ ys @ zs) ! (length xs + length ys - 1)] =
        (xs @ [b]) @ us @ (a # zs)"
      unfolding ys by (simp add: list_update_append nth_append)
    then have "reverse_loop (length xs) (length xs + length ys - 1) (xs @ ys @ zs) =
        reverse_loop (length (xs @ [b])) (length (xs @ [b]) + length us - 1) ((xs @ [b]) @ us @ (a # zs))"
      by (subst reverse_loop.simps) (simp add: ys)
    also have "\<dots> = (xs @ [b]) @ rev us @ (a # zs)" using less.hyps [of us "xs @ [b]" "a # zs"] ys by simp
    finally show ?thesis by (simp add: ys)
  qed
qed

lemma reverse_loop_rev [simp]: "reverse_loop 0 (length str - Suc 0) str = rev str"
  using reverse_loop_segment [of "[]" str "[]"] by simp

section \<open>Digits\<close>

fun digits_value :: "nat \<Rightarrow> nat list \<Rightarrow> nat" where
  "digits_value b [] = 0"
| "digits_value b (d # ds) = d + b * digits_value b ds"

text \<open>Reading a number back: least significant digit last, with a sign in front.\<close>

definition dec_digit :: "u8 \<Rightarrow> nat" where
  "dec_digit c = unat c - 48"

definition dec_value :: "u8 list \<Rightarrow> int" where
  "dec_value cs =
     (case cs of
        [] \<Rightarrow> 0
      | c # ds \<Rightarrow> if c = 45 then - int (digits_value 10 (map dec_digit (rev ds)))
                  else int (digits_value 10 (map dec_digit (rev cs))))"

definition hex_digit :: "u8 \<Rightarrow> nat" where
  "hex_digit c = (if c < 58 then unat c - 48 else unat c - 87)"

definition hex_value :: "u8 list \<Rightarrow> nat" where
  "hex_value cs = digits_value 16 (map hex_digit (rev cs))"

lemma dec_char:
  assumes "0 \<le> d" and "d < 10"
  shows "unat (48 + word_of_int d :: u8) = 48 + nat d"
proof -
  have "(word_of_int d :: u8) = of_nat (nat d)" using assms(1) by simp
  moreover have "unat (of_nat (nat d) :: u8) = nat d" using assms by (intro unat_of_nat_small) simp
  ultimately show ?thesis using assms by (simp add: unat_word_ariths)
qed

definition dec_chars :: "u8 list \<Rightarrow> bool" where
  "dec_chars cs \<longleftrightarrow> (\<forall>c\<in>set cs. 48 \<le> unat c \<and> unat c \<le> 57)"

lemma itoa_dec_loop_spec:
  "0 < sint num \<Longrightarrow>
   \<exists>ds. itoa_dec_loop num ptr = ptr @ ds \<and> digits_value 10 (map dec_digit ds) = nat (sint num) \<and>
     dec_chars ds \<and> ds \<noteq> [] \<and> last ds \<noteq> 48 \<and> 10 ^ (length ds - 1) \<le> nat (sint num)"
proof (induction num ptr rule: itoa_dec_loop.induct)
  case (1 num ptr)
  let ?c = "48 + word_of_int (sint num smod 10) :: u8" and ?num = "word_of_int (sint num sdiv 10) :: u32"
  have md: "sint num smod 10 = sint num mod 10" "sint num sdiv 10 = sint num div 10"
    using 1(2) by (simp_all add: sdiv_10)
  then have uc: "unat ?c = 48 + nat (sint num mod 10)" by (simp add: dec_char)
  have dig: "dec_digit ?c = nat (sint num mod 10)" using uc by (simp add: dec_digit_def)
  have small: "sint ?num = sint num div 10"
    using 1(2) sint_bounds [of num] by (simp add: md sint_word_small)
  show ?case
  proof (cases "0 < sint ?num")
    case True
    from 1(1) [OF refl refl True True] obtain ds where
      ds: "itoa_dec_loop ?num (ptr @ [?c]) = (ptr @ [?c]) @ ds"
        "digits_value 10 (map dec_digit ds) = nat (sint ?num)" "dec_chars ds" "ds \<noteq> []" "last ds \<noteq> 48"
        "10 ^ (length ds - 1) \<le> nat (sint ?num)" by blast
    have "itoa_dec_loop num ptr = ptr @ (?c # ds)"
      using True ds(1) by (subst itoa_dec_loop.simps) (simp add: Let_def)
    moreover have "digits_value 10 (map dec_digit (?c # ds)) = nat (sint num)"
      using ds(2) dig small 1(2) by (simp add: nat_mod_distrib nat_div_distrib)
    moreover have "dec_chars (?c # ds)" using ds(3) uc by (simp add: dec_chars_def nat_less_iff)
    moreover have "10 ^ (length (?c # ds) - 1) \<le> nat (sint num)"
    proof -
      have "10 * 10 ^ (length ds - 1) \<le> 10 * (nat (sint num) div 10)"
        using ds(6) small 1(2) by (simp add: nat_div_distrib)
      also have "\<dots> \<le> nat (sint num)" by simp
      finally show ?thesis using ds(4) by (cases ds) simp_all
    qed
    ultimately show ?thesis using ds(4,5) by (intro exI [of _ "?c # ds"]) simp
  next
    case False
    then have "sint num < 10" using small by simp
    then have "sint num mod 10 = sint num" using 1(2) by simp
    moreover have "itoa_dec_loop num ptr = ptr @ [?c]"
      using False by (subst itoa_dec_loop.simps) (simp add: Let_def)
    moreover have "?c \<noteq> 48"
    proof
      assume "?c = 48"
      then have "unat ?c = 48" by simp
      then show False using uc 1(2) calculation(1) by simp
    qed
    moreover have "nat (sint num) \<le> 9" "1 \<le> nat (sint num)" using 1(2) \<open>sint num < 10\<close> by linarith+
    ultimately show ?thesis using dig uc
      by (intro exI [of _ "[?c]"]) (simp add: dec_chars_def)
  qed
qed

lemma dec_chars_rev [simp]: "dec_chars (rev cs) = dec_chars cs"
  by (simp add: dec_chars_def)

lemma dec_length: "10 ^ (length ds - 1) \<le> nat (sint (w :: u32)) \<Longrightarrow> length ds \<le> 10"
proof (rule ccontr)
  assume "10 ^ (length ds - 1) \<le> nat (sint w)" "\<not> length ds \<le> 10"
  moreover from this(2) have "(10 :: nat) ^ 10 \<le> 10 ^ (length ds - 1)" by (intro power_increasing) auto
  ultimately have "10 ^ 10 \<le> nat (sint w)" by linarith
  moreover have "nat (sint w) < 2 ^ 31" using sint_bounds(2) [of w] by (simp add: nat_less_iff)
  ultimately show False by simp
qed

lemma hex_char:
  assumes "unat (d :: u32) < 16"
  shows "hex_digit (if d < 10 then 48 + ucast d else 97 + ucast d - 10) = unat d"
    and "(if d < 10 then 48 + ucast d else 97 + ucast d - 10) \<noteq> (0 :: u8)"
proof -
  have u: "unat (ucast d :: u8) = unat d" using assms by (simp add: unsigned_ucast_eq take_bit_nat_eq_self)
  then have s: "unat (48 + ucast d :: u8) = 48 + unat d" "unat (87 + ucast d :: u8) = 87 + unat d"
    using assms by (simp_all add: unat_word_ariths)
  have e: "97 + ucast d - 10 = (87 + ucast d :: u8)" by simp
  show "hex_digit (if d < 10 then 48 + ucast d else 97 + ucast d - 10) = unat d"
    using s unfolding e by (simp add: hex_digit_def word_less_nat_alt)
  have "(48 + ucast d :: u8) \<noteq> 0" "(87 + ucast d :: u8) \<noteq> 0"
    using s by (metis add_is_0 unsigned_0 zero_neq_numeral)+
  then show "(if d < 10 then 48 + ucast d else 97 + ucast d - 10) \<noteq> (0 :: u8)"
    unfolding e by simp
qed

lemma low_digit: "unat ((num :: u32) AND 0xF) = unat num mod 16"
proof -
  have "(0xF :: u32) = mask 4" by (simp add: mask_eq_exp_minus_1)
  then have "num AND 0xF = take_bit 4 num" by (simp only: take_bit_eq_mask)
  then show ?thesis by (simp add: unsigned_take_bit_eq take_bit_eq_mod unat_mod)
qed

lemma high_digits: "unat (drop_bit 4 (num :: u32)) = unat num div 16"
  by (simp add: unsigned_drop_bit_eq drop_bit_eq_div unat_div)

lemma itoa_hex_loop_spec:
  "num \<noteq> 0 \<Longrightarrow> unat num < 16 ^ (8 - count) \<Longrightarrow> count < 8 \<Longrightarrow>
   \<exists>ds. itoa_hex_loop num count ptr = ptr @ ds \<and> digits_value 16 (map hex_digit ds) = unat num \<and>
     length ds \<le> 8 - count \<and> ds \<noteq> [] \<and> 0 \<notin> set ds"
proof (induction num count ptr rule: itoa_hex_loop.induct)
  case (1 num count ptr)
  let ?d = "num AND 0xF"
  let ?c = "if ?d < 10 then 48 + ucast ?d else 97 + ucast ?d - 10 :: u8"
  have d: "unat ?d < 16" by (simp add: low_digit)
  have c: "hex_digit ?c = unat num mod 16" "?c \<noteq> 0" using hex_char [OF d] low_digit [of num] by simp_all
  have high: "unat (drop_bit 4 num) < 16 ^ (8 - (count + 1))"
  proof -
    have "unat num < 16 * 16 ^ (8 - (count + 1))"
      using 1(3,4) by (metis Suc_diff_Suc Suc_eq_plus1 power_Suc)
    then show ?thesis unfolding high_digits by (simp add: less_mult_imp_div_less mult.commute)
  qed
  show ?case
  proof (cases "drop_bit 4 num \<noteq> 0 \<and> count + 1 < 8")
    case True
    from 1(1) [OF refl refl refl refl, of] True high obtain ds where
      ds: "itoa_hex_loop (drop_bit 4 num) (count + 1) (ptr @ [?c]) = (ptr @ [?c]) @ ds"
        "digits_value 16 (map hex_digit ds) = unat (drop_bit 4 num)" "length ds \<le> 8 - (count + 1)" "0 \<notin> set ds"
      by blast
    have "itoa_hex_loop num count ptr = ptr @ (?c # ds)"
      using True ds(1) by (subst itoa_hex_loop.simps) (simp add: Let_def)
    then show ?thesis using ds(2-4) c 1(4) high_digits [of num] by (intro exI [of _ "?c # ds"]) auto
  next
    case False
    have "drop_bit 4 num = 0"
    proof (rule ccontr)
      assume n: "drop_bit 4 num \<noteq> 0"
      then have "8 - (count + 1) = 0" using False by simp
      then have "unat (drop_bit 4 num) = 0" using high by simp
      with n show False by (simp only: unsigned_eq_0_iff)
    qed
    then have "unat num div 16 = 0" using high_digits [of num] by simp
    moreover have "itoa_hex_loop num count ptr = ptr @ [?c]"
      using False by (subst itoa_hex_loop.simps) (auto simp: Let_def)
    ultimately show ?thesis using c 1(4) by (intro exI [of _ "[?c]"]) auto
  qed
qed

lemma itoa_hex_spec:
  "hex_value (itoa_hex num) = unat num \<and> length (itoa_hex num) \<le> 8 \<and> 0 \<notin> set (itoa_hex num)"
proof (cases "num = 0")
  case True
  then show ?thesis by (simp add: itoa_hex_def hex_value_def hex_digit_def)
next
  case False
  have "unat num < 2 ^ LENGTH(32)" by (rule unsigned_less)
  then have "unat num < 16 ^ (8 - 0)" by simp
  from itoa_hex_loop_spec [OF False this, of "[]"] obtain ds where
    "itoa_hex_loop num 0 [] = ds" "digits_value 16 (map hex_digit ds) = unat num" "length ds \<le> 8" "0 \<notin> set ds"
    by auto
  then show ?thesis using False by (simp add: itoa_hex_def Let_def reverse_loop_rev hex_value_def)
qed

lemma itoa_dec_spec:
  assumes "sint num \<noteq> - (2 ^ 31)"
  shows "dec_value (itoa_dec num) = sint num \<and> length (itoa_dec num) \<le> 11 \<and> 0 \<notin> set (itoa_dec num)"
proof (cases "num = 0")
  case True
  then show ?thesis by (simp add: itoa_dec_def dec_value_def dec_digit_def)
next
  case False
  have ne: "sint num \<noteq> 0" using False by (metis signed_0 signed_word_eqI)
  show ?thesis
  proof (cases "sint num < 0")
    case True
    have neg: "sint (- num) = - sint num"
    proof -
      have "- num = word_of_int (- sint num)" by simp
      moreover have "0 \<le> - sint num" "- sint num < 2 ^ 31" using True assms sint_bounds [of num] by linarith+
      ultimately show ?thesis by (metis sint_word_small)
    qed
    then have "0 < sint (- num)" using True by simp
    from itoa_dec_loop_spec [OF this, of "[]"] obtain ds where
      ds: "itoa_dec_loop (- num) [] = ds" "digits_value 10 (map dec_digit ds) = nat (- sint num)" "dec_chars ds"
        "10 ^ (length ds - 1) \<le> nat (sint (- num))" using neg by auto
    have "itoa_dec num = 45 # rev ds"
      using False True ds(1) reverse_loop_rev [of "ds @ [45]"] by (simp add: itoa_dec_def Let_def)
    then show ?thesis using ds(2,3) dec_length [OF ds(4)] True
      by (auto simp: dec_value_def dec_chars_def)
  next
    case nneg: False
    then have "0 < sint num" using ne by simp
    from itoa_dec_loop_spec [OF this, of "[]"] obtain ds where
      ds: "itoa_dec_loop num [] = ds" "digits_value 10 (map dec_digit ds) = nat (sint num)" "dec_chars ds" "ds \<noteq> []"
        "10 ^ (length ds - 1) \<le> nat (sint num)" by auto
    have r: "itoa_dec num = rev ds"
      using False nneg ds(1) by (simp add: itoa_dec_def Let_def reverse_loop_rev)
    obtain c cs where cs: "rev ds = c # cs" using ds(4) by (cases "rev ds") auto
    have "c \<in> set ds" using cs by (metis list.set_intros(1) set_rev)
    then have "c \<noteq> 45" using ds(3) by (auto simp: dec_chars_def)
    moreover have "rev (c # cs) = ds" using cs by (metis rev_rev_ident)
    ultimately have "dec_value (rev ds) = sint num"
      using ds(2) nneg unfolding dec_value_def cs by simp
    moreover have "0 \<notin> set ds" using ds(3) by (auto simp: dec_chars_def)
    ultimately show ?thesis using dec_length [OF ds(5)] r by simp
  qed
qed

lemma itoa_dec_min:
  assumes "sint num = - (2 ^ 31)"
  shows "itoa_dec num = [45, 40]"
proof -
  have num: "num = 0x80000000"
  proof -
    have "num = word_of_int (sint num)" by simp
    also have "\<dots> = word_of_int (- (2 ^ 31))" by (simp only: assms)
    also have "\<dots> = 0x80000000" by simp
    finally show ?thesis .
  qed
  have "itoa_dec_loop 0x80000000 [] = [40]"
    using assms unfolding num by (subst itoa_dec_loop.simps) (simp add: Let_def)
  moreover have m: "- (0x80000000 :: u32) = 0x80000000" by simp
  ultimately show ?thesis
    using assms reverse_loop_rev [of "[40, 45]"] unfolding num by (simp add: itoa_dec_def Let_def m)
qed

section \<open>Output of a format\<close>

text \<open>A transmitter that is always ready.\<close>

definition ready :: "device \<Rightarrow> u16 \<Rightarrow> bool" where
  "ready dev port \<longleftrightarrow> (\<forall>io. dev io (port + 5) AND 0x20 \<noteq> 0)"

lemma write_char_ready:
  "ready dev port \<Longrightarrow> \<exists>io'. serial_write_char dev port c io = Some io' \<and> outs io' = outs io @ [Out port c]"
  unfolding serial_write_char_def
  by (subst serial_wait.simps) (simp add: ready_def serial_transmit_empty_def inb_def Let_def outb_def)

text \<open>One that is never ready: the wait has no timeout.\<close>

definition never_ready :: "device \<Rightarrow> u16 \<Rightarrow> bool" where
  "never_ready dev port \<longleftrightarrow> (\<forall>io. dev io (port + 5) AND 0x20 = 0)"

lemma wait_never: "never_ready dev port \<Longrightarrow> serial_wait dev port io = None"
proof (rule ccontr)
  assume never: "never_ready dev port" and "serial_wait dev port io \<noteq> None"
  then obtain io' where ret: "serial_wait dev port io = Some io'" by blast
  have "\<exists>io. dev io (port + 5) AND 0x20 \<noteq> 0"
    by (rule serial_wait.raw_induct [where P = "\<lambda>dev port io io'. \<exists>io. dev io (port + 5) AND 0x20 \<noteq> 0", OF _ ret])
      (auto simp: serial_transmit_empty_def inb_def Let_def split: if_splits)
  then show False using never by (simp add: never_ready_def)
qed

lemma write_buf_never: "never_ready dev port \<Longrightarrow> c \<noteq> 0 \<Longrightarrow> serial_write_buf dev port (c # cs) io = None"
  by (simp add: serial_write_char_def wait_never)

lemma write_buf_returns: "ready dev port \<Longrightarrow> \<exists>io'. serial_write_buf dev port xs io = Some io'"
proof (induction xs arbitrary: io)
  case (Cons x xs)
  obtain io1 where "serial_write_char dev port x io = Some io1" using write_char_ready [OF Cons.prems] by blast
  then show ?case using Cons.IH [OF Cons.prems, of io1] by simp
qed simp

abbreviation sent :: "u16 \<Rightarrow> u8 list \<Rightarrow> io_log" where
  "sent port cs \<equiv> map (Out port) cs"

lemma write_ready:
  "ready dev port \<Longrightarrow> cstr m p xs \<Longrightarrow>
   \<exists>io'. serial_write dev port p m io = Some io' \<and> outs io' = outs io @ sent port xs"
proof (induction xs arbitrary: p io)
  case Nil
  then show ?case by (subst serial_write.simps) simp
next
  case (Cons x xs)
  obtain io1 where 1: "serial_write_char dev port x io = Some io1" "outs io1 = outs io @ [Out port x]"
    using write_char_ready [OF Cons.prems(1)] by blast
  obtain io2 where "serial_write dev port (p + 1) m io1 = Some io2" "outs io2 = outs io1 @ sent port xs"
    using Cons.IH [OF Cons.prems(1), of "p + 1" io1] Cons.prems(2) by auto
  with 1 Cons.prems(2) show ?case by (subst serial_write.simps) auto
qed

lemma write_buf_ready:
  "ready dev port \<Longrightarrow> 0 \<notin> set xs \<Longrightarrow>
   \<exists>io'. serial_write_buf dev port xs io = Some io' \<and> outs io' = outs io @ sent port xs"
proof (induction xs arbitrary: io)
  case (Cons x xs)
  obtain io1 where 1: "serial_write_char dev port x io = Some io1" "outs io1 = outs io @ [Out port x]"
    using write_char_ready [OF Cons.prems(1)] by blast
  obtain io2 where "serial_write_buf dev port xs io1 = Some io2" "outs io2 = outs io1 @ sent port xs"
    using Cons.IH [OF Cons.prems(1), of io1] Cons.prems(2) by auto
  with 1 Cons.prems(2) show ?case by auto
qed simp

text \<open>
  The specification of the format language on byte lists: what is sent for a conversion, whether it
  takes an argument, and the output of a whole format. \<open>S\<close> gives the string at an address.
\<close>

definition conv_out :: "(u32 \<Rightarrow> u8 list) \<Rightarrow> u32 \<Rightarrow> u8 \<Rightarrow> u8 list" where
  "conv_out S arg c =
     (if c = 100 then itoa_dec arg else if c = 120 then itoa_hex arg else if c = 115 then S arg
      else if c = 99 then [ucast arg] else if c = 112 then [48, 120] @ itoa_hex arg
      else if c = 37 then [37] else [37, c])"

definition takes_arg :: "u8 \<Rightarrow> bool" where
  "takes_arg c \<longleftrightarrow> c \<in> {100, 120, 115, 99, 112}"

fun render :: "(u32 \<Rightarrow> u8 list) \<Rightarrow> (nat \<Rightarrow> u32) \<Rightarrow> nat \<Rightarrow> u8 list \<Rightarrow> u8 list" where
  "render S args k [] = []"
| "render S args k [c] = [c]"
| "render S args k (c # d # cs) =
     (if c \<noteq> 37 then c # render S args k (d # cs)
      else conv_out S (args k) d @ render S args (if takes_arg d then k + 1 else k) cs)"

fun format_ok :: "mem \<Rightarrow> (u32 \<Rightarrow> u8 list) \<Rightarrow> (nat \<Rightarrow> u32) \<Rightarrow> nat \<Rightarrow> u8 list \<Rightarrow> bool" where
  "format_ok m S args k [] \<longleftrightarrow> True"
| "format_ok m S args k [c] \<longleftrightarrow> c \<noteq> 37"
| "format_ok m S args k (c # d # cs) \<longleftrightarrow>
     (if c \<noteq> 37 then format_ok m S args k (d # cs)
      else (d = 115 \<longrightarrow> cstr m (args k) (S (args k))) \<and>
        (d = 100 \<longrightarrow> sint (args k) \<noteq> - (2 ^ 31)) \<and>
        format_ok m S args (if takes_arg d then k + 1 else k) cs)"

lemma conv_ready:
  assumes r: "ready dev port" and s: "c = 115 \<longrightarrow> cstr m (args k) (S (args k))"
    and d: "c = 100 \<longrightarrow> sint (args k) \<noteq> - (2 ^ 31)"
  shows "\<exists>io'. vprintf_conv dev port c args k m io = Some (if takes_arg c then k + 1 else k, io') \<and>
    outs io' = outs io @ sent port (conv_out S (args k) c)"
proof -
  consider "c = 100" | "c = 120" | "c = 115" | "c = 99" | "c = 112" | "c = 37" | "c \<notin> {100, 120, 115, 99, 112, 37}"
    by blast
  then show ?thesis
  proof cases
    case 1
    then have "0 \<notin> set (itoa_dec (args k))" using itoa_dec_spec d by blast
    from write_buf_ready [OF r this, of io] 1 show ?thesis
      by (auto simp: vprintf_conv_def conv_out_def takes_arg_def)
  next
    case 2
    have "0 \<notin> set (itoa_hex (args k))" using itoa_hex_spec by blast
    from write_buf_ready [OF r this, of io] 2 show ?thesis
      by (auto simp: vprintf_conv_def conv_out_def takes_arg_def)
  next
    case 3
    then show ?thesis using write_ready [OF r, of m "args k" "S (args k)" io] s
      by (auto simp: vprintf_conv_def conv_out_def takes_arg_def)
  next
    case 4
    then show ?thesis using write_char_ready [OF r, of "ucast (args k)" io]
      by (auto simp: vprintf_conv_def conv_out_def takes_arg_def)
  next
    case 5
    have "0 \<notin> set ([48, 120] @ itoa_hex (args k))" using itoa_hex_spec by simp
    from write_buf_ready [OF r this, of io] 5 show ?thesis
      by (auto simp: vprintf_conv_def conv_out_def takes_arg_def simp del: serial_write_buf.simps)
  next
    case 6
    then show ?thesis using write_char_ready [OF r, of 37 io]
      by (auto simp: vprintf_conv_def conv_out_def takes_arg_def)
  next
    case 7
    obtain io1 where "serial_write_char dev port 37 io = Some io1" "outs io1 = outs io @ [Out port 37]"
      using write_char_ready [OF r] by blast
    moreover obtain io2 where "serial_write_char dev port c io1 = Some io2" "outs io2 = outs io1 @ [Out port c]"
      using write_char_ready [OF r] by blast
    ultimately show ?thesis using 7 by (auto simp: vprintf_conv_def conv_out_def takes_arg_def)
  qed
qed

lemma vprintf_ready:
  assumes r: "ready dev port"
  shows "cstr m p fs \<Longrightarrow> format_ok m S args k fs \<Longrightarrow>
    \<exists>io'. vprintf_loop dev port args m p (k, io) = Some io' \<and> outs io' = outs io @ sent port (render S args k fs)"
proof (induction S args k fs arbitrary: p io rule: render.induct)
  case (1 S args k)
  then show ?case by (subst vprintf_loop.simps) simp
next
  case (2 S args k c)
  obtain io1 where "serial_write_char dev port c io = Some io1" "outs io1 = outs io @ [Out port c]"
    using write_char_ready [OF r] by blast
  moreover have "vprintf_loop dev port args m (p + 1) (k, io1) = Some io1"
    using 2 by (subst vprintf_loop.simps) simp
  ultimately show ?case using 2 by (subst vprintf_loop.simps) simp
next
  case (3 S args k c d cs)
  show ?case
  proof (cases "c = 37")
    case False
    obtain io1 where 1: "serial_write_char dev port c io = Some io1" "outs io1 = outs io @ [Out port c]"
      using write_char_ready [OF r] by blast
    obtain io2 where "vprintf_loop dev port args m (p + 1) (k, io1) = Some io2"
      "outs io2 = outs io1 @ sent port (render S args k (d # cs))"
      using 3(1) [OF False, of "p + 1" io1] 3(3,4) False by auto
    then show ?thesis using 1 3(3) False by (subst vprintf_loop.simps) simp
  next
    case True
    let ?k = "if takes_arg d then k + 1 else k"
    have ok: "d = 115 \<longrightarrow> cstr m (args k) (S (args k))" "d = 100 \<longrightarrow> sint (args k) \<noteq> - (2 ^ 31)"
      "format_ok m S args ?k cs" using 3(4) True by auto
    obtain io1 where 1: "vprintf_conv dev port d args k m io = Some (?k, io1)"
      "outs io1 = outs io @ sent port (conv_out S (args k) d)" using conv_ready [where S = S and args = args and k = k, OF r ok(1,2)] by blast
    have cs: "m p = 37" "m (p + 1) = d" "cstr m (p + 2) cs" using 3(3) True by (auto simp: add.assoc)
    obtain io2 where 2: "vprintf_loop dev port args m (p + 2) (?k, io1) = Some io2"
      "outs io2 = outs io1 @ sent port (render S args ?k cs)"
      using 3(2) [of "p + 2" io1] cs(3) ok(3) True by auto
    have "vprintf_loop dev port args m p (k, io) = Some io2"
      using cs(1,2) 1(1) 2(1) by (subst vprintf_loop.simps) simp
    then show ?thesis using 1(2) 2(2) True by simp
  qed
qed

section \<open>Properties\<close>

text \<open>
  C35: Reading back the digits that itoa_dec and itoa_hex produce gives the number they were called
  with, within 11 and 8 characters; the exception is the least int, for which itoa_dec (with
  wrap-around negation) produces "-(".
\<close>

theorem numbers_read_back:
  "length (itoa_dec num) \<le> 11 \<and>
   (if sint num = - (2 ^ 31) then itoa_dec num = [45, 40] else dec_value (itoa_dec num) = sint num) \<and>
   hex_value (itoa_hex num) = unat num \<and> length (itoa_hex num) \<le> 8"
  using itoa_dec_spec [of num] itoa_dec_min [of num] itoa_hex_spec [of num] by auto

text \<open>
  C22: On a port that is ready serial_printf of a C string as format returns and sends exactly the
  rendering of the format, and nothing else, provided that the arguments of its %s are C strings, no
  argument of a %d is the least int, and the format does not end in a lone percent sign.
\<close>

theorem serial_printf_renders:
  assumes "ready dev port" and "cstr m format fs" and "format_ok m S args 0 fs"
  shows "\<exists>io'. serial_printf dev port format args m io = Some io' \<and>
    outs io' = outs io @ sent port (render S args 0 fs)"
  using vprintf_ready [OF assms] by (simp add: serial_printf_def serial_vprintf_def)

theorem serial_printf_renders_witness:
  "\<exists>io'. serial_printf (\<lambda>_ _. 0x20) 0x3F8 0 (\<lambda>_. 255) ((\<lambda>_. 0)(0 := 35, 1 := 37, 2 := 120)) [] = Some io' \<and>
     outs io' = [Out 0x3F8 35, Out 0x3F8 102, Out 0x3F8 102]"
proof -
  let ?m = "(\<lambda>_. 0)(0 := 35, 1 := 37, 2 := 120)"
  have "ready (\<lambda>_ _. 0x20) 0x3F8" by (simp add: ready_def)
  moreover have "cstr ?m 0 [35, 37, 120]" by simp
  moreover have "format_ok ?m (\<lambda>_. []) (\<lambda>_. 255) 0 [35, 37, 120]" by simp
  ultimately obtain io' where
    "serial_printf (\<lambda>_ _. 0x20) 0x3F8 0 (\<lambda>_. 255) ?m [] = Some io'"
    "outs io' = sent 0x3F8 (render (\<lambda>_. []) (\<lambda>_. 255) 0 [35, 37, 120])"
    using serial_printf_renders [of "\<lambda>_ _. 0x20" "0x3F8" ?m 0 "[35, 37, 120]" "\<lambda>_. []" "\<lambda>_. 255" "[]"] by auto
  moreover have "itoa_hex 255 = [102, 102]"
    using reverse_loop_rev [of "[102, 102]"]
    by (simp add: itoa_hex_def itoa_hex_loop.simps Let_def)
  ultimately show ?thesis by (simp add: conv_out_def)
qed

theorem trailing_percent_overruns:
  assumes "ready dev port" and "m p = 37" and "m (p + 1) = 0"
    and "cstr m (p + 2) fs" and "format_ok m S args 0 fs"
  shows "\<exists>io'. serial_printf dev port p args m io = Some io' \<and>
    outs io' = outs io @ sent port ([37, 0] @ render S args 0 fs)"
proof -
  obtain io1 where 1: "vprintf_conv dev port 0 args 0 m io = Some (0, io1)"
    "outs io1 = outs io @ sent port [37, 0]"
    using conv_ready [OF assms(1), of 0 m args 0 S io] by (auto simp: takes_arg_def conv_out_def)
  obtain io2 where "vprintf_loop dev port args m (p + 2) (0, io1) = Some io2"
    "outs io2 = outs io1 @ sent port (render S args 0 fs)"
    using vprintf_ready [OF assms(1,4,5)] by blast
  then show ?thesis using 1 assms(2,3)
    unfolding serial_printf_def serial_vprintf_def by (subst vprintf_loop.simps) simp
qed

theorem trailing_percent_overruns_witness:
  "\<exists>io'. serial_printf (\<lambda>_ _. 0x20) 0x3F8 0 (\<lambda>_. 0) ((\<lambda>_. 0)(0 := 37, 2 := 83)) [] = Some io' \<and>
     outs io' = [Out 0x3F8 37, Out 0x3F8 0, Out 0x3F8 83]"
proof -
  have "ready (\<lambda>_ _. 0x20) 0x3F8" by (simp add: ready_def)
  from trailing_percent_overruns [OF this, of "(\<lambda>_. 0)(0 := 37, 2 := 83)" 0 "[83]" "\<lambda>_. []" "\<lambda>_. 0" "[]"]
  show ?thesis by simp
qed

end
