(* ===== verification/Keyboard.thy ===== *)
theory Keyboard
  imports Serial
begin

text \<open>
  The keyboard driver of \<open>kernel/interrupts/keyboard.c\<close>: scan codes to characters, the ring
  buffer between the interrupt handler and its readers, and the controller's start-up. The state is
  the ring buffer; the port log is passed along. The start-up writes its log lines, which wait for the
  serial line; the log output of the other operations is left out.
\<close>

section \<open>Scan codes\<close>

definition KEYBOARD_PORT :: u16 where [simp]: "KEYBOARD_PORT = 0x60"
definition KBUF_SIZE :: nat where [simp]: "KBUF_SIZE = 256"

definition normal_map :: "u8 list" where
  "normal_map =
    [0, 0, 49, 50, 51, 52, 53, 54, 55, 56, 57, 48, 45, 61, 8,
     9, 113, 119, 101, 114, 116, 121, 117, 105, 111, 112, 91, 93, 10,
     0, 97, 115, 100, 102, 103, 104, 106, 107, 108, 59, 39, 96, 0,
     92, 122, 120, 99, 118, 98, 110, 109, 44, 46, 47, 0, 42, 0, 32] @ replicate 70 0"

definition scancode_to_char :: "u8 \<Rightarrow> u8" where
  "scancode_to_char sc =
     (if sc AND 0x80 \<noteq> 0 then 0
      else if sc = 0x0E then 8
      else if sc = 0x1C then 10
      else if sc \<ge> 128 then 0
      else
        let c = normal_map ! unat sc
        in if c = 0 then 0 else c)"

section \<open>Ring buffer\<close>

record keyboard =
  kbuf :: "nat \<Rightarrow> u8"
  khead :: nat
  ktail :: nat

definition kbd_bss :: keyboard where
  "kbd_bss = \<lparr>kbuf = (\<lambda>_. 0), khead = 0, ktail = 0\<rparr>"

definition kbuf_put :: "u8 \<Rightarrow> keyboard \<Rightarrow> keyboard" where
  "kbuf_put c k =
     (let k = k\<lparr>kbuf := (kbuf k)(khead k := c)\<rparr>
      in k\<lparr>khead := (khead k + 1) mod KBUF_SIZE\<rparr>)"

definition keyboard_input_handler :: "u8 \<Rightarrow> keyboard \<Rightarrow> io_log \<Rightarrow> keyboard \<times> io_log" where
  "keyboard_input_handler sc k io =
     (if sc = 0xFA \<or> sc = 0xAA \<or> sc = 0x00 \<or> sc = 0xFF then (k, pic_eoi 1 io)
      else
        let c = scancode_to_char sc;
            k = (if c \<noteq> 0 then kbuf_put c k else k)
        in (k, pic_eoi 1 io))"

definition keyboard_get_char :: "keyboard \<Rightarrow> u8 \<times> keyboard" where
  "keyboard_get_char k =
     (if khead k = ktail k then (0, k)
      else
        let c = kbuf k (ktail k)
        in (c, k\<lparr>ktail := (ktail k + 1) mod KBUF_SIZE\<rparr>))"

definition interrupt_handler :: "device \<Rightarrow> u32 \<Rightarrow> keyboard \<Rightarrow> io_log \<Rightarrow> keyboard \<times> io_log" where
  "interrupt_handler dev int_no k io =
     (if int_no = 33 then
        let (sc, io) = inb dev KEYBOARD_PORT io
        in keyboard_input_handler sc k io
      else (k, io))"

section \<open>Controller start-up\<close>

text \<open>
  A polling loop \<open>while (--timeout && cond)\<close> on the status port, and what is left of the timeout.
\<close>

fun kbd_poll :: "device \<Rightarrow> (u8 \<Rightarrow> bool) \<Rightarrow> nat \<Rightarrow> io_log \<Rightarrow> nat \<times> io_log" where
  "kbd_poll dev again 0 io = (0, io)"
| "kbd_poll dev again (Suc timeout) io =
     (if timeout = 0 then (0, io)
      else
        let (v, io) = inb dev 0x64 io
        in if again v then kbd_poll dev again timeout io else (timeout, io))"

partial_function (option) kbd_flush :: "device \<Rightarrow> io_log \<Rightarrow> io_log option" where
  "kbd_flush dev io =
     (let (v, io) = inb dev 0x64 io
      in if v AND 0x01 \<noteq> 0 then let (_, io) = inb dev 0x60 io in kbd_flush dev io
         else Some io)"

definition kb_log :: "device \<Rightarrow> string \<Rightarrow> io_log \<Rightarrow> io_log option" where
  "kb_log dev s io = serial_write_buf dev COM1 (lit s @ [10]) io"

definition keyboard_init :: "device \<Rightarrow> io_log \<Rightarrow> io_log option" where
  "keyboard_init dev io =
     (let busy = (\<lambda>v :: u8. v AND 0x02 \<noteq> 0);
          (timeout, io) = kbd_poll dev busy 10000 io
      in if timeout = 0 then kb_log dev ''KB: Timeout1'' io
      else do {
        io \<leftarrow> kb_log dev ''KB: Disabling KB'' io;
        let io = outb 0x64 0xAD io;
        let (timeout, io) = kbd_poll dev busy 10000 io;
        if timeout = 0 then kb_log dev ''KB: Timeout2'' io
        else do {
          io \<leftarrow> kbd_flush dev (outb 0x64 0xA7 io);
          io \<leftarrow> kb_log dev ''KB: Enabling KB'' io;
          let io = outb 0x64 0xAE io;
          let (timeout, io) = kbd_poll dev busy 10000 io;
          if timeout = 0 then kb_log dev ''KB: Timeout3'' io
          else do {
            io \<leftarrow> kb_log dev ''KB: Sending F4'' io;
            let io = outb 0x60 0xF4 io;
            let (timeout, io) = kbd_poll dev (\<lambda>v. \<not> (v AND 0x01 \<noteq> 0)) 10000 io;
            if timeout = 0 then kb_log dev ''KB: No data from keyboard'' io
            else kb_log dev ''KB: Init done.'' io
          }
        }
      })"

section \<open>The ring as a queue\<close>

definition kbd_ok :: "keyboard \<Rightarrow> bool" where
  "kbd_ok k \<longleftrightarrow> khead k < 256 \<and> ktail k < 256"

definition pending_count :: "keyboard \<Rightarrow> nat" where
  "pending_count k = (khead k + 256 - ktail k) mod 256"

definition pending :: "keyboard \<Rightarrow> u8 list" where
  "pending k = map (\<lambda>i. kbuf k ((ktail k + i) mod 256)) [0..<pending_count k]"

lemma pending_count_lt: "pending_count k < 256"
  by (simp add: pending_count_def)

lemma length_pending [simp]: "length (pending k) = pending_count k"
  by (simp add: pending_def)

lemma kbd_bss_ok: "kbd_ok kbd_bss" "pending kbd_bss = []"
  by (simp_all add: kbd_ok_def kbd_bss_def pending_def pending_count_def)

lemma ring_sub: "h < 256 \<Longrightarrow> t < 256 \<Longrightarrow> (h + 256 - t) mod 256 = (if t \<le> h then h - t else h + 256 - t :: nat)"
proof (cases "t \<le> h")
  case True
  assume "h < 256"
  have "h + 256 - t = (h - t) + 256" using True by simp
  then have "(h + 256 - t) mod 256 = (h - t) mod 256" by (simp only: mod_add_self2)
  then show ?thesis using True \<open>h < 256\<close> by simp
qed simp

lemma ring_add: "t < 256 \<Longrightarrow> d < 256 \<Longrightarrow> (t + d) mod 256 = (if t + d < 256 then t + d else t + d - 256 :: nat)"
  by (simp add: le_mod_geq)

lemma ring_next: "h < 256 \<Longrightarrow> (h + 1) mod 256 = (if h = 255 then 0 else Suc h :: nat)"
  by simp

lemma ring_distance: "h < 256 \<Longrightarrow> t < 256 \<Longrightarrow> h = (t + (h + 256 - t) mod 256) mod (256 :: nat)"
  using ring_add [of t "(h + 256 - t) mod 256"] by (simp add: ring_sub)

lemma ring_distance_Suc:
  assumes "h < 256" and "t < 256" and "(h + 256 - t) mod 256 < 255"
  shows "((h + 1) mod 256 + 256 - t) mod 256 = Suc ((h + 256 - t) mod (256 :: nat))"
proof -
  let ?h = "(h + 1) mod 256"
  have d: "(if t \<le> h then h - t else h + 256 - t) < 255" using assms(3) unfolding ring_sub [OF assms(1,2)] .
  have "?h < 256" by simp
  note goal = ring_sub [OF this assms(2)] ring_sub [OF assms(1,2)]
  show ?thesis
  proof (cases "h = 255")
    case True
    then have "?h = 0" by simp
    then show ?thesis unfolding goal using True d assms(2) by (auto split: if_splits)
  next
    case False
    then have "?h = Suc h" using assms(1) by simp
    then show ?thesis unfolding goal using d assms(2) by (auto split: if_splits)
  qed
qed

lemma ring_distance_full:
  "h < 256 \<Longrightarrow> t < 256 \<Longrightarrow> (h + 256 - t) mod 256 = 255 \<Longrightarrow>
   ((h + 1) mod 256 + 256 - t) mod 256 = (0 :: nat)"
  using ring_sub [of h t] ring_sub [of "(h + 1) mod 256" t] ring_next [of h] by (auto split: if_splits)

lemma ring_distance_0: "h < 256 \<Longrightarrow> t < 256 \<Longrightarrow> (h + 256 - t) mod 256 = 0 \<longleftrightarrow> h = (t :: nat)"
  using ring_sub [of h t] by (auto split: if_splits)

lemma ring_distance_pred:
  "h < 256 \<Longrightarrow> t < 256 \<Longrightarrow> h \<noteq> t \<Longrightarrow>
   (h + 256 - t) mod 256 = Suc ((h + 256 - (t + 1) mod 256) mod (256 :: nat))"
  using ring_sub [of h t] ring_sub [of h "(t + 1) mod 256"] ring_next [of t] by (auto split: if_splits)

lemma head_position: "kbd_ok k \<Longrightarrow> khead k = (ktail k + pending_count k) mod 256"
  unfolding kbd_ok_def pending_count_def by (rule ring_distance) simp_all

lemma ring_positions: "t < 256 \<Longrightarrow> i < n \<Longrightarrow> n < 256 \<Longrightarrow> (t + i) mod 256 \<noteq> (t + n) mod (256 :: nat)"
  using ring_add [of t i] ring_add [of t n] by (auto split: if_splits)

lemma kbuf_put_ok: "kbd_ok k \<Longrightarrow> kbd_ok (kbuf_put c k)"
  by (simp add: kbd_ok_def kbuf_put_def Let_def)

lemma pending_put:
  assumes "kbd_ok k" and "pending_count k < 255"
  shows "pending (kbuf_put c k) = pending k @ [c]"
proof -
  let ?n = "pending_count k"
  have h: "khead k = (ktail k + ?n) mod 256" using head_position [OF assms(1)] .
  have n: "pending_count (kbuf_put c k) = Suc ?n"
    using assms ring_distance_Suc [of "khead k" "ktail k"]
    by (simp add: kbd_ok_def pending_count_def kbuf_put_def Let_def)
  have other: "(ktail k + i) mod 256 \<noteq> khead k" if "i < ?n" for i
    unfolding h by (rule ring_positions) (use that assms in \<open>simp_all add: kbd_ok_def\<close>)
  show ?thesis
    using other h by (simp add: pending_def n) (simp add: kbuf_put_def Let_def)
qed

lemma pending_put_full:
  assumes "kbd_ok k" and "pending_count k = 255"
  shows "pending (kbuf_put c k) = []"
  using assms ring_distance_full [of "khead k" "ktail k"]
  by (simp add: pending_def kbd_ok_def pending_count_def kbuf_put_def Let_def)

lemma pending_empty: "kbd_ok k \<Longrightarrow> khead k = ktail k \<longleftrightarrow> pending k = []"
  using ring_distance_0 [of "khead k" "ktail k"] by (auto simp: kbd_ok_def pending_def pending_count_def)

lemma get_char_empty: "kbd_ok k \<Longrightarrow> pending k = [] \<Longrightarrow> keyboard_get_char k = (0, k)"
  using pending_empty [of k] by (simp add: keyboard_get_char_def)

lemma get_char_first:
  assumes "kbd_ok k" and "pending k = c # cs"
  shows "\<exists>k'. keyboard_get_char k = (c, k') \<and> kbd_ok k' \<and> pending k' = cs"
proof -
  let ?k = "k\<lparr>ktail := (ktail k + 1) mod 256\<rparr>"
  have ne: "khead k \<noteq> ktail k" using pending_empty [OF assms(1)] assms(2) by simp
  have pos: "0 < pending_count k" using assms(2) length_pending [of k] by (cases "pending_count k") auto
  have n: "pending_count k = Suc (pending_count ?k)"
    using assms(1) ne ring_distance_pred [of "khead k" "ktail k"]
    by (simp add: kbd_ok_def pending_count_def)
  have "pending k = kbuf k (ktail k mod 256) # map (\<lambda>i. kbuf k ((ktail k + Suc i) mod 256)) [0..<pending_count ?k]"
    unfolding pending_def n by (simp add: upt_conv_Cons map_Suc_upt [symmetric] del: upt_Suc)
  moreover have "pending ?k = map (\<lambda>i. kbuf k ((ktail k + Suc i) mod 256)) [0..<pending_count ?k]"
    by (simp add: pending_def mod_simps)
  moreover have "ktail k mod 256 = ktail k" using assms(1) by (simp add: kbd_ok_def)
  ultimately have "c = kbuf k (ktail k)" "pending ?k = cs" using assms(2) by simp_all
  moreover have "kbd_ok ?k" using assms(1) by (simp add: kbd_ok_def)
  ultimately show ?thesis using ne by (simp add: keyboard_get_char_def)
qed

section \<open>The queue interface\<close>

text \<open>
  What the handler and the readers promise each other: a queue with room for \<open>cap\<close> elements, first
  in, first out, where a reader of the empty queue gets 0.
\<close>

locale bounded_queue =
  fixes put :: "u8 \<Rightarrow> 'q \<Rightarrow> 'q" and get :: "'q \<Rightarrow> u8 \<times> 'q"
    and ok :: "'q \<Rightarrow> bool" and items :: "'q \<Rightarrow> u8 list" and cap :: nat
  assumes put_ok: "ok q \<Longrightarrow> ok (put c q)"
    and put_items: "ok q \<Longrightarrow> length (items q) < cap \<Longrightarrow> items (put c q) = items q @ [c]"
    and get_nothing: "ok q \<Longrightarrow> items q = [] \<Longrightarrow> get q = (0, q)"
    and get_item: "ok q \<Longrightarrow> items q = c # cs \<Longrightarrow> \<exists>q'. get q = (c, q') \<and> ok q' \<and> items q' = cs"
begin

text \<open>Reading \<open>n\<close> times.\<close>

fun drain :: "nat \<Rightarrow> 'q \<Rightarrow> u8 list \<times> 'q" where
  "drain 0 q = ([], q)"
| "drain (Suc n) q = (let (c, q) = get q; (cs, q) = drain n q in (c # cs, q))"

lemma puts_items:
  "ok q \<Longrightarrow> length (items q) + length cs \<le> cap \<Longrightarrow>
   ok (fold put cs q) \<and> items (fold put cs q) = items q @ cs"
  by (induction cs arbitrary: q) (simp_all add: put_ok put_items)

lemma drain_items:
  "ok q \<Longrightarrow> items q = cs @ ds \<Longrightarrow> \<exists>q'. drain (length cs) q = (cs, q') \<and> ok q' \<and> items q' = ds"
proof (induction cs arbitrary: q)
  case (Cons c cs)
  then obtain r where "get q = (c, r)" "ok r" "items r = cs @ ds" using get_item [of q c "cs @ ds"] by auto
  with Cons.IH [of r] show ?case by auto
qed simp

lemma get_cases:
  assumes "ok q"
  obtains (none) "get q = (0, q)" and "items q = []"
  | (some) c q' where "get q = (c, q')" and "ok q'" and "items q = c # items q'"
  using assms get_nothing get_item by (cases "items q") blast+

end

interpretation kq: bounded_queue kbuf_put keyboard_get_char kbd_ok pending 255
  by unfold_locales (simp_all add: kbuf_put_ok pending_put get_char_empty get_char_first)

section \<open>Interrupts and readers interleaved\<close>

text \<open>
  The keyboard with the characters typed so far and the characters read so far. An interrupt comes
  with any scan code; a reader asks for one character.
\<close>

record kbd_system =
  kbd :: keyboard
  typed :: "u8 list"
  got :: "u8 list"

definition sc_char :: "u8 \<Rightarrow> u8" where
  "sc_char sc = (if sc = 0xFA \<or> sc = 0xAA \<or> sc = 0x00 \<or> sc = 0xFF then 0 else scancode_to_char sc)"

inductive kbd_step :: "kbd_system \<Rightarrow> kbd_system \<Rightarrow> bool" where
  irq: "(k', io') = keyboard_input_handler sc (kbd x) io \<Longrightarrow> sc_char sc \<noteq> 0 \<Longrightarrow>
    kbd_step x (x\<lparr>kbd := k', typed := typed x @ [sc_char sc]\<rparr>)"
| irq_silent: "(k', io') = keyboard_input_handler sc (kbd x) io \<Longrightarrow> sc_char sc = 0 \<Longrightarrow>
    kbd_step x (x\<lparr>kbd := k'\<rparr>)"
| read: "(c, k') = keyboard_get_char (kbd x) \<Longrightarrow> c \<noteq> 0 \<Longrightarrow>
    kbd_step x (x\<lparr>kbd := k', got := got x @ [c]\<rparr>)"
| read_none: "(0, k') = keyboard_get_char (kbd x) \<Longrightarrow> kbd_step x (x\<lparr>kbd := k'\<rparr>)"

inductive_cases kbd_stepE: "kbd_step x y"

text \<open>Runs in which the readers never fall more than 255 characters behind.\<close>

inductive kbd_run :: "kbd_system \<Rightarrow> bool" where
  start: "kbd_run \<lparr>kbd = kbd_bss, typed = [], got = []\<rparr>"
| step: "kbd_run x \<Longrightarrow> kbd_step x y \<Longrightarrow> length (typed y) \<le> length (got y) + 255 \<Longrightarrow> kbd_run y"

lemma handler_queue:
  "keyboard_input_handler sc k io = (if sc_char sc \<noteq> 0 then kbuf_put (sc_char sc) k else k, pic_eoi 1 io)"
  by (simp add: keyboard_input_handler_def sc_char_def Let_def)

lemma kbd_run_inv:
  "kbd_run x \<Longrightarrow> kbd_ok (kbd x) \<and> typed x = got x @ pending (kbd x) \<and> 0 \<notin> set (typed x)"
proof (induction rule: kbd_run.induct)
  case start
  then show ?case by (simp add: kbd_bss_ok)
next
  case (step x y)
  note inv = step.IH
  from step.hyps(2) show ?case
  proof (cases rule: kbd_step.cases)
    case (irq k' io' sc io)
    then have "k' = kbuf_put (sc_char sc) (kbd x)" by (simp add: handler_queue)
    moreover have "length (pending (kbd x)) < 255"
      using step.hyps(3) inv irq(1) by simp
    ultimately show ?thesis using inv irq kq.put_items [of "kbd x"] kq.put_ok [of "kbd x"] by auto
  next
    case (irq_silent k' io' sc io)
    then show ?thesis using inv by (auto simp: handler_queue)
  next
    case (read c k')
    have "kbd_ok (kbd x)" using inv by simp
    then show ?thesis using inv read by (cases rule: kq.get_cases) auto
  next
    case (read_none k')
    have "kbd_ok (kbd x)" using inv by simp
    then show ?thesis using inv read_none by (cases rule: kq.get_cases) auto
  qed
qed

section \<open>Readers that are interrupted\<close>

text \<open>
  The statements of \<open>keyboard_get_char\<close> one by one: the test for an empty ring, the load of the
  character, the store of the new tail with the return. An interrupt may come between any two of them;
  the handler itself runs with interrupts disabled.
\<close>

datatype reader = Start | Nonempty | Loaded u8

fun reader_step :: "reader \<Rightarrow> keyboard \<Rightarrow> u8 option \<times> reader \<times> keyboard" where
  "reader_step Start k = (if khead k = ktail k then (Some 0, Start, k) else (None, Nonempty, k))"
| "reader_step Nonempty k = (None, Loaded (kbuf k (ktail k)), k)"
| "reader_step (Loaded c) k = (Some c, Start, k\<lparr>ktail := (ktail k + 1) mod KBUF_SIZE\<rparr>)"

text \<open>The reader to its return, without interrupts.\<close>

definition reader_alone :: "keyboard \<Rightarrow> u8 \<times> keyboard" where
  "reader_alone k =
     (case reader_step Start k of
        (Some c, _, k) \<Rightarrow> (c, k)
      | (None, p, k) \<Rightarrow>
          let (_, p, k) = reader_step p k;
              (r, _, k) = reader_step p k
          in (the r, k))"

lemma reader_alone_get: "reader_alone k = keyboard_get_char k"
  by (simp add: reader_alone_def keyboard_get_char_def)

record kbd_fine = kbd_system +
  pc :: reader

definition chars_of :: "u8 \<Rightarrow> u8 list" where
  "chars_of c = (if c = 0 then [] else [c])"

inductive fine_step :: "kbd_fine \<Rightarrow> kbd_fine \<Rightarrow> bool" where
  irq: "keyboard_input_handler sc (kbd x) io = (k', io') \<Longrightarrow>
    fine_step x (x\<lparr>kbd := k', typed := typed x @ chars_of (sc_char sc)\<rparr>)"
| statement: "reader_step (pc x) (kbd x) = (r, p', k') \<Longrightarrow>
    fine_step x (x\<lparr>kbd := k', pc := p', got := got x @ (case r of None \<Rightarrow> [] | Some c \<Rightarrow> chars_of c)\<rparr>)"

inductive_cases fine_stepE: "fine_step x y"

inductive fine_run :: "kbd_fine \<Rightarrow> bool" where
  start: "fine_run \<lparr>kbd = kbd_bss, typed = [], got = [], pc = Start\<rparr>"
| step: "fine_run x \<Longrightarrow> fine_step x y \<Longrightarrow> length (typed y) \<le> length (got y) + 255 \<Longrightarrow> fine_run y"

text \<open>The same state without the reader's place.\<close>

definition whole_reads :: "kbd_fine \<Rightarrow> kbd_system" where
  "whole_reads x = \<lparr>kbd = kbd x, typed = typed x, got = got x\<rparr>"

definition reader_ready :: "reader \<Rightarrow> keyboard \<Rightarrow> bool" where
  "reader_ready p k =
     (case p of
        Start \<Rightarrow> True
      | Nonempty \<Rightarrow> pending k \<noteq> []
      | Loaded c \<Rightarrow> \<exists>cs. pending k = c # cs)"

lemma reader_ready_put:
  "reader_ready p k \<Longrightarrow> kbd_ok k \<Longrightarrow> length (pending k) < 255 \<Longrightarrow> reader_ready p (kbuf_put c k)"
  by (auto simp: reader_ready_def kq.put_items simp del: length_pending split: reader.splits)

lemma pending_head:
  assumes "kbd_ok k" and "pending k = c # cs"
  shows "khead k \<noteq> ktail k" "kbuf k (ktail k) = c"
proof -
  show "khead k \<noteq> ktail k" using pending_empty [OF assms(1)] assms(2) by simp
  then show "kbuf k (ktail k) = c" using get_char_first [OF assms] by (auto simp: keyboard_get_char_def)
qed

text \<open>A step of the fine system is a step of the one with whole reads, or changes nothing there.\<close>

lemma fine_irq_whole:
  assumes "kbd_run (whole_reads x)" and "reader_ready (pc x) (kbd x)"
    and h: "keyboard_input_handler sc (kbd x) io = (k', io')"
    and len: "length (typed x @ chars_of (sc_char sc)) \<le> length (got x) + 255"
  shows "kbd_run (whole_reads (x\<lparr>kbd := k', typed := typed x @ chars_of (sc_char sc)\<rparr>)) \<and> reader_ready (pc x) k'"
proof -
  have inv: "kbd_ok (kbd x)" "typed x = got x @ pending (kbd x)"
    using kbd_run_inv [OF assms(1)] by (simp_all add: whole_reads_def)
  show ?thesis
  proof (cases "sc_char sc = 0")
    case True
    then show ?thesis using assms h by (simp add: handler_queue chars_of_def whole_reads_def)
  next
    case False
    then have k': "k' = kbuf_put (sc_char sc) (kbd x)" using h by (simp add: handler_queue)
    have room: "length (pending (kbd x)) < 255" using len False inv(2) by (simp add: chars_of_def)
    have "kbd_step (whole_reads x) ((whole_reads x)\<lparr>kbd := k', typed := typed (whole_reads x) @ [sc_char sc]\<rparr>)"
      by (rule kbd_step.irq [where io = io and io' = io', OF _ False]) (simp add: whole_reads_def h)
    from kbd_run.step [OF assms(1) this] len False reader_ready_put [OF assms(2) inv(1) room] k' show ?thesis
      by (simp add: whole_reads_def chars_of_def)
  qed
qed

lemma fine_statement_whole:
  assumes run: "kbd_run (whole_reads x)" and ready: "reader_ready (pc x) (kbd x)"
    and st: "reader_step (pc x) (kbd x) = (r, p', k')"
  shows "kbd_run (whole_reads (x\<lparr>kbd := k', pc := p', got := got x @ (case r of None \<Rightarrow> [] | Some c \<Rightarrow> chars_of c)\<rparr>)) \<and>
    reader_ready p' k'"
proof -
  have inv: "kbd_ok (kbd x)" "typed x = got x @ pending (kbd x)" "0 \<notin> set (typed x)"
    using kbd_run_inv [OF run] by (auto simp: whole_reads_def)
  show ?thesis
  proof (cases "pc x")
    case Start
    then show ?thesis using st run inv(1) pending_empty [OF inv(1)]
      by (auto simp: whole_reads_def chars_of_def reader_ready_def split: if_splits)
  next
    case Nonempty
    then obtain c cs where cs: "pending (kbd x) = c # cs" using ready by (cases "pending (kbd x)") (auto simp: reader_ready_def)
    then show ?thesis using st run Nonempty pending_head [OF inv(1) cs] by (auto simp: whole_reads_def reader_ready_def)
  next
    case (Loaded c)
    then obtain cs where cs: "pending (kbd x) = c # cs" using ready by (auto simp: reader_ready_def)
    have c: "c \<noteq> 0" using inv(2,3) cs by auto
    have get: "keyboard_get_char (kbd x) = (c, k')" using st Loaded pending_head [OF inv(1) cs]
      by (simp add: keyboard_get_char_def)
    have "kbd_step (whole_reads x) ((whole_reads x)\<lparr>kbd := k', got := got (whole_reads x) @ [c]\<rparr>)"
      by (rule kbd_step.read [OF _ c]) (simp add: whole_reads_def get)
    moreover have "length (typed x) \<le> length (got x) + 255"
      using inv(2) pending_count_lt [of "kbd x"] by simp
    ultimately show ?thesis using kbd_run.step [OF run] st Loaded c
      by (auto simp: whole_reads_def chars_of_def reader_ready_def)
  qed
qed

lemma fine_run_whole: "fine_run x \<Longrightarrow> kbd_run (whole_reads x) \<and> reader_ready (pc x) (kbd x)"
proof (induction rule: fine_run.induct)
  case start
  then show ?case using kbd_run.start by (simp add: whole_reads_def reader_ready_def)
next
  case (step x y)
  from step.hyps(2) show ?case
  proof (cases rule: fine_step.cases)
    case (irq sc io k' io')
    then show ?thesis using fine_irq_whole [of x sc io k' io'] step.IH step.hyps(3) by simp
  next
    case (statement r p' k')
    then show ?thesis using fine_statement_whole [of x r p' k'] step.IH by simp
  qed
qed

section \<open>Start-up\<close>

text \<open>One round of the loop that empties the output buffer, when it finds the buffer full.\<close>

definition flush_round :: "device \<Rightarrow> io_log \<Rightarrow> io_log" where
  "flush_round dev io = snd (inb dev 0x60 (snd (inb dev 0x64 io)))"

lemma flush_unfold:
  "kbd_flush dev io = (if dev io 0x64 AND 1 = 0 then Some (io @ [In 0x64 (dev io 0x64)])
     else kbd_flush dev (flush_round dev io))"
  by (subst kbd_flush.simps) (simp add: inb_def Let_def flush_round_def)

lemma flush_returns: "dev ((flush_round dev ^^ n) io) 0x64 AND 1 = 0 \<Longrightarrow> \<exists>io'. kbd_flush dev io = Some io'"
proof (induction n arbitrary: io)
  case 0
  then show ?case by (subst flush_unfold) simp
next
  case (Suc n)
  then show ?case by (subst flush_unfold) (simp add: funpow_Suc_right del: funpow.simps)
qed

lemma flush_returned: "kbd_flush dev io = Some io' \<Longrightarrow> \<exists>n. dev ((flush_round dev ^^ n) io) 0x64 AND 1 = 0"
proof -
  assume ret: "kbd_flush dev io = Some io'"
  show ?thesis
  proof (rule kbd_flush.raw_induct [where P = "\<lambda>dev io io'. \<exists>n. dev ((flush_round dev ^^ n) io) 0x64 AND 1 = 0", OF _ ret])
    fix f dev io io'
    assume IH: "\<And>dev io io'. f dev io = Some io' \<Longrightarrow> \<exists>n. dev ((flush_round dev ^^ n) io) 0x64 AND 1 = 0"
      and r: "(let (v, io) = inb dev 0x64 io in if v AND 0x01 \<noteq> 0 then let (_, io) = inb dev 0x60 io in f dev io else Some io) = Some io'"
    show "\<exists>n. dev ((flush_round dev ^^ n) io) 0x64 AND 1 = 0"
    proof (cases "dev io 0x64 AND 1 = 0")
      case True
      then show ?thesis by (intro exI [of _ 0]) simp
    next
      case False
      then have "f dev (flush_round dev io) = Some io'" using r by (simp add: inb_def Let_def flush_round_def)
      from IH [OF this] obtain n where "dev ((flush_round dev ^^ n) (flush_round dev io)) 0x64 AND 1 = 0" ..
      then show ?thesis by (intro exI [of _ "Suc n"]) (simp add: funpow_Suc_right del: funpow.simps)
    qed
  qed
qed

text \<open>Waiting for a controller that keeps its output buffer empty, and for the serial line.\<close>

lemma poll_first:
  "\<not> again (dev io 0x64) \<Longrightarrow> 2 \<le> n \<Longrightarrow> kbd_poll dev again n io = (n - 1, io @ [In 0x64 (dev io 0x64)])"
  by (cases n) (simp_all add: inb_def Let_def)

lemma flush_first: "dev io 0x64 AND 1 = 0 \<Longrightarrow> kbd_flush dev io = Some (io @ [In 0x64 (dev io 0x64)])"
  by (subst kbd_flush.simps) (simp add: inb_def Let_def)

lemma kb_log_returns: "ready dev COM1 \<Longrightarrow> \<exists>io'. kb_log dev s io = Some io'"
  unfolding kb_log_def by (rule write_buf_returns)

lemma kb_log_never: "never_ready dev COM1 \<Longrightarrow> kb_log dev (CHR ''K'' # s) io = None"
  unfolding kb_log_def lit_def by (simp add: write_buf_never del: serial_write_buf.simps)

lemma keyboard_init_never: "never_ready dev COM1 \<Longrightarrow> keyboard_init dev io = None"
  by (simp add: keyboard_init_def Let_def case_prod_beta kb_log_never)

section \<open>Properties\<close>

text \<open>
  C20: In every interleaving of keyboard interrupts and readers in which readers never fall more than
  255 characters behind, the characters typed are the characters read followed by those in the ring
  buffer, none of them 0, and a reader gets 0 only if everything typed has been read.
\<close>

theorem keyboard_fifo:
  assumes "kbd_run x"
  shows "typed x = got x @ pending (kbd x) \<and> length (pending (kbd x)) \<le> 255 \<and> 0 \<notin> set (got x) \<and>
    (fst (keyboard_get_char (kbd x)) = 0 \<longleftrightarrow> typed x = got x)"
proof -
  have inv: "kbd_ok (kbd x)" "typed x = got x @ pending (kbd x)" "0 \<notin> set (typed x)"
    using kbd_run_inv [OF assms] by blast+
  have "fst (keyboard_get_char (kbd x)) = 0 \<longleftrightarrow> pending (kbd x) = []"
    using inv by (cases rule: kq.get_cases [OF inv(1)]) auto
  then show ?thesis using inv pending_count_lt [of "kbd x"] by simp
qed

theorem keyboard_fifo_witness:
  "\<exists>k io. keyboard_input_handler 0x1E kbd_bss [] = (k, io) \<and> typed \<lparr>kbd = k, typed = [97], got = []\<rparr> = pending k"
proof -
  let ?x = "\<lparr>kbd = kbd_bss, typed = [], got = []\<rparr>" and ?k = "kbuf_put 97 kbd_bss"
  have ch: "sc_char 0x1E = 97" by (simp add: sc_char_def scancode_to_char_def normal_map_def)
  then have h: "keyboard_input_handler 0x1E kbd_bss [] = (?k, pic_eoi 1 [])" by (simp add: handler_queue)
  have "kbd_step ?x (?x\<lparr>kbd := ?k, typed := typed ?x @ [sc_char 0x1E]\<rparr>)"
    by (rule kbd_step.irq [where io = "[]" and io' = "pic_eoi 1 []"]) (use ch h in simp_all)
  then have "kbd_step ?x \<lparr>kbd = ?k, typed = [97], got = []\<rparr>" using ch by simp
  from kbd_run.step [OF kbd_run.start this] have "kbd_run \<lparr>kbd = ?k, typed = [97], got = []\<rparr>" by simp
  from keyboard_fifo [OF this] h show ?thesis by auto
qed

text \<open>
  C39: With 255 unread characters in the ring buffer the next key makes all of them unreadable: the
  buffer counts as empty and the next read returns 0.
\<close>

theorem keyboard_overflow_loses_all:
  assumes "kbd_ok k" and "length (pending k) = 255" and "sc_char sc \<noteq> 0"
  shows "case keyboard_input_handler sc k io of (k', io') \<Rightarrow> pending k' = [] \<and> keyboard_get_char k' = (0, k')"
proof -
  have "pending (kbuf_put (sc_char sc) k) = []" using pending_put_full [OF assms(1)] assms(2) by simp
  moreover have "kbd_ok (kbuf_put (sc_char sc) k)" using kq.put_ok [OF assms(1)] .
  ultimately show ?thesis using assms(3) kq.get_nothing by (simp add: handler_queue)
qed

theorem keyboard_overflow_loses_all_witness:
  "\<exists>k k' io'. length (pending k) = 255 \<and> keyboard_input_handler 0x1E k [] = (k', io') \<and>
     keyboard_get_char k' = (0, k')"
proof -
  define k where "k = fold kbuf_put (replicate 255 97) kbd_bss"
  have "kbd_ok k \<and> pending k = pending kbd_bss @ replicate 255 97"
    unfolding k_def by (rule kq.puts_items) (simp_all add: kbd_bss_ok)
  then have k: "kbd_ok k" "length (pending k) = 255" by (simp_all only: length_append length_replicate kbd_bss_ok) simp_all
  have "sc_char 0x1E \<noteq> 0" by (simp add: sc_char_def scancode_to_char_def normal_map_def)
  from keyboard_overflow_loses_all [OF k this, of "[]"] k(2) show ?thesis
    by (auto split: prod.splits)
qed

lemma keyboard_init_steps:
  assumes r: "ready dev COM1"
  shows "(\<exists>io'. keyboard_init dev io = Some io') \<longleftrightarrow>
    (let (timeout1, io1) = kbd_poll dev (\<lambda>v. v AND 0x02 \<noteq> 0) 10000 io;
         io2 = the (kb_log dev ''KB: Disabling KB'' io1);
         (timeout2, io3) = kbd_poll dev (\<lambda>v. v AND 0x02 \<noteq> 0) 10000 (outb 0x64 0xAD io2)
     in timeout1 = 0 \<or> timeout2 = 0 \<or> (\<exists>io'. kbd_flush dev (outb 0x64 0xA7 io3) = Some io'))"
proof -
  note log = kb_log_returns [OF r]
  have rest: "(\<exists>io'. x \<bind> f = Some io') \<longleftrightarrow> (\<exists>io'. x = Some io')"
    if "\<And>io. \<exists>io'. f io = Some io'" for x :: "io_log option" and f using that by (cases x) auto
  have tail: "\<exists>io'. (kb_log dev s io \<bind> (\<lambda>io. if P io then kb_log dev t (g io)
      else kb_log dev u (h io) \<bind> (\<lambda>io. if Q io then kb_log dev v (i io) else kb_log dev w (j io)))) = Some io'"
    for s t u v w P Q io and g h i j :: "io_log \<Rightarrow> io_log"
  proof -
    obtain a where "kb_log dev s io = Some a" using log by blast
    moreover obtain c where "kb_log dev u (h a) = Some c" using log by blast
    ultimately show ?thesis using log by simp
  qed
  obtain a where a: "kb_log dev ''KB: Disabling KB'' (snd (kbd_poll dev (\<lambda>v. v AND 0x02 \<noteq> 0) 10000 io)) = Some a"
    using log by blast
  show ?thesis
    unfolding keyboard_init_def Let_def case_prod_beta using log a
    by (simp add: rest tail)
qed

lemma keyboard_init_returns:
  assumes "ready dev COM1" and "\<And>io. dev io 0x64 AND 0x01 = 0"
  shows "\<exists>io'. keyboard_init dev io = Some io'"
proof -
  have "kbd_flush dev io = Some (io @ [In 0x64 (dev io 0x64)])" for io using assms(2) by (intro flush_first) simp
  then show ?thesis using keyboard_init_steps [OF assms(1), of io] by (simp add: case_prod_beta Let_def)
qed

text \<open>
  C11: With keyboard interrupts between any two statements of keyboard_get_char, and readers never
  more than 255 characters behind, every run is one in which reads happen as a whole: a reader about
  to store the new tail returns exactly the character and leaves exactly the state that the
  uninterrupted keyboard_get_char would at that moment.
\<close>

theorem keyboard_reader_interrupted:
  assumes "fine_run x"
  shows "kbd_run (whole_reads x) \<and>
    (\<forall>c. pc x = Loaded c \<longrightarrow>
      reader_step (pc x) (kbd x) = (Some (fst (keyboard_get_char (kbd x))), Start, snd (keyboard_get_char (kbd x))))"
proof -
  have run: "kbd_run (whole_reads x)" "reader_ready (pc x) (kbd x)" using fine_run_whole [OF assms] by blast+
  have "kbd_ok (kbd x)" using kbd_run_inv [OF run(1)] by (simp add: whole_reads_def)
  then show ?thesis using run pending_head [of "kbd x"] by (auto simp: reader_ready_def keyboard_get_char_def)
qed

text \<open>A second key while the reader holds the first character.\<close>

theorem keyboard_reader_interrupted_witness:
  "\<exists>k. kbd_run \<lparr>kbd = k, typed = [97, 98], got = []\<rparr> \<and> reader_step (Loaded 97) k = (Some (fst (keyboard_get_char k)), Start, snd (keyboard_get_char k))"
proof -
  let ?k1 = "kbuf_put 97 kbd_bss" and ?k2 = "kbuf_put 98 (kbuf_put 97 kbd_bss)"
  have ch: "sc_char 0x1E = 97" "sc_char 0x30 = 98" by (simp_all add: sc_char_def scancode_to_char_def normal_map_def)
  then have h: "keyboard_input_handler 0x1E kbd_bss [] = (?k1, pic_eoi 1 [])" "keyboard_input_handler 0x30 ?k1 [] = (?k2, pic_eoi 1 [])"
    by (simp_all add: handler_queue)
  have k1: "khead ?k1 \<noteq> ktail ?k1" "kbuf ?k1 (ktail ?k1) = 97" by (simp_all add: kbuf_put_def kbd_bss_def)
  note irq = fine_step.irq [where x = "\<lparr>kbd = a, typed = b, got = c, pc = d\<rparr>" for a b c d, simplified]
  note stm = fine_step.statement [where x = "\<lparr>kbd = a, typed = b, got = c, pc = d\<rparr>" for a b c d, simplified]
  have 1: "fine_run \<lparr>kbd = ?k1, typed = [97], got = [], pc = Start\<rparr>"
    by (rule fine_run.step [OF fine_run.start]) (use irq [OF h(1), of "[]" "[]" Start] ch in \<open>simp_all add: chars_of_def\<close>)
  have 2: "fine_run \<lparr>kbd = ?k1, typed = [97], got = [], pc = Nonempty\<rparr>"
    by (rule fine_run.step [OF 1]) (use stm [of Start ?k1 None Nonempty ?k1 "[97]" "[]"] k1 in simp_all)
  have 3: "fine_run \<lparr>kbd = ?k1, typed = [97], got = [], pc = Loaded 97\<rparr>"
    by (rule fine_run.step [OF 2]) (use stm [of Nonempty ?k1 None "Loaded 97" ?k1 "[97]" "[]"] k1 in simp_all)
  have 4: "fine_run \<lparr>kbd = ?k2, typed = [97, 98], got = [], pc = Loaded 97\<rparr>"
    by (rule fine_run.step [OF 3]) (use irq [OF h(2), of "[97]" "[]" "Loaded 97"] ch in \<open>simp_all add: chars_of_def\<close>)
  from keyboard_reader_interrupted [OF 4] show ?thesis by (auto simp: whole_reads_def simp del: reader_step.simps)
qed

text \<open>
  C24: On a ready serial line keyboard_init returns if and only if the controller stays busy through
  one of the first two bounded waits, or its status port at some round of the loop that empties the
  output buffer reports it empty: that loop has no timeout, in contrast to the waits for the
  controller around it, so a controller that keeps offering data stops the start for ever. On a line
  that is never ready keyboard_init does not return whatever the controller does, because each of its
  messages waits without a timeout.
\<close>

theorem keyboard_init_returns_iff:
  "(ready dev COM1 \<longrightarrow> (\<exists>io'. keyboard_init dev io = Some io') =
      (let (timeout1, io1) = kbd_poll dev (\<lambda>v. v AND 0x02 \<noteq> 0) 10000 io;
           io2 = the (kb_log dev ''KB: Disabling KB'' io1);
           (timeout2, io3) = kbd_poll dev (\<lambda>v. v AND 0x02 \<noteq> 0) 10000 (outb 0x64 0xAD io2)
       in timeout1 = 0 \<or> timeout2 = 0 \<or>
          (\<exists>n. dev ((flush_round dev ^^ n) (outb 0x64 0xA7 io3)) 0x64 AND 0x01 = 0))) \<and>
   (never_ready dev COM1 \<longrightarrow> keyboard_init dev io = None)"
proof -
  have flush: "(\<exists>io'. kbd_flush dev io = Some io') \<longleftrightarrow> (\<exists>n. dev ((flush_round dev ^^ n) io) 0x64 AND 1 = 0)" for io
    using flush_returns [of dev _ io] flush_returned [of dev io] by blast
  show ?thesis using keyboard_init_steps [of dev io, unfolded flush] keyboard_init_never by blast
qed

text \<open>
  A quiet controller on a ready line; one that always offers data, on a ready line; and a machine that
  answers 0 on every port, whose serial line is never ready.
\<close>

theorem keyboard_init_returns_iff_witness:
  "(\<exists>io'. keyboard_init (\<lambda>_ port. if port = 0x64 then 0 else 0x20) [] = Some io') \<and>
   keyboard_init (\<lambda>_ port. if port = 0x64 then 1 else 0x20) [] = None \<and> keyboard_init (\<lambda>_ _. 0) [] = None"
proof -
  let ?q = "\<lambda>(_ :: io_log) port :: u16. if port = 0x64 then 0 else 0x20 :: u8"
  let ?d = "\<lambda>(_ :: io_log) port :: u16. if port = 0x64 then 1 else 0x20 :: u8"
  have "ready ?q COM1" "ready ?d COM1" "never_ready (\<lambda>_ _. 0) COM1" by (simp_all add: ready_def never_ready_def)
  then show ?thesis
    using keyboard_init_returns_iff [of ?q "[]"] keyboard_init_returns_iff [of ?d "[]"]
      keyboard_init_returns_iff [of "\<lambda>_ _. 0" "[]"] by (simp add: poll_first Let_def)
qed

end
