(* ===== verification/Fb.thy ===== *)
theory Fb
  imports Ports Cstring
begin

text \<open>
  The text console of \<open>kernel/drivers/fb.c\<close>: the 4000 bytes of video memory (character and
  attribute of each of the 80 x 25 cells), the cursor, the current colours, and the port log for the
  hardware cursor.
\<close>

section \<open>State\<close>

record framebuffer =
  vram :: "nat \<Rightarrow> u8"
  cursor_pos :: u32
  current_fg :: u8
  current_bg :: u8
  fb_io :: io_log

definition FB_BLACK :: u8 where [simp]: "FB_BLACK = 0x0"
definition FB_LIGHT_GRAY :: u8 where [simp]: "FB_LIGHT_GRAY = 0x7"

definition fb_boot :: framebuffer where
  "fb_boot = \<lparr>vram = (\<lambda>_. 0), cursor_pos = 0, current_fg = FB_LIGHT_GRAY, current_bg = FB_BLACK, fb_io = []\<rparr>"

section \<open>Operations\<close>

definition fb_write_cell :: "u32 \<Rightarrow> u8 \<Rightarrow> u8 \<Rightarrow> u8 \<Rightarrow> framebuffer \<Rightarrow> framebuffer" where
  "fb_write_cell pos c fg bg s =
     (if pos < 80 * 25 then
        let index = pos * 2;
            s = s\<lparr>vram := (vram s)(unat index := c)\<rparr>
        in s\<lparr>vram := (vram s)(unat (index + 1) := push_bit 4 (fg AND 0x0F) OR (bg AND 0x0F))\<rparr>
      else s)"

definition fb_set_color :: "u8 \<Rightarrow> u8 \<Rightarrow> framebuffer \<Rightarrow> framebuffer" where
  "fb_set_color foreground background s =
     s\<lparr>current_fg := foreground AND 0x0F, current_bg := background AND 0x0F\<rparr>"

definition fb_get_color :: "framebuffer \<Rightarrow> u8 \<times> u8" where
  "fb_get_color s = (current_fg s, current_bg s)"

definition fb_set_cursor :: "u32 \<Rightarrow> framebuffer \<Rightarrow> framebuffer" where
  "fb_set_cursor position s =
     (let position = (if position \<ge> 80 * 25 then 80 * 25 - 1 else position);
          io = fb_io s;
          io = outb 0x3D4 0x0F io;
          io = outb 0x3D5 (ucast (position AND 0xFF)) io;
          io = outb 0x3D4 0x0E io;
          io = outb 0x3D5 (ucast (drop_bit 8 position AND 0xFF)) io
      in s\<lparr>fb_io := io\<rparr>)"

definition fb_clear :: "framebuffer \<Rightarrow> framebuffer" where
  "fb_clear s =
     (let s = fold (\<lambda>i s. fb_write_cell (of_nat i) 32 (current_fg s) (current_bg s) s) [0..<80 * 25] s;
          s = s\<lparr>cursor_pos := 0\<rparr>
      in fb_set_cursor 0 s)"

definition fb_init :: "framebuffer \<Rightarrow> framebuffer" where
  "fb_init s = (fb_clear s)\<lparr>cursor_pos := 0, current_fg := FB_LIGHT_GRAY, current_bg := FB_BLACK\<rparr>"

definition fb_clear_line :: "u32 \<Rightarrow> framebuffer \<Rightarrow> framebuffer" where
  "fb_clear_line line s =
     (if line < 25 then
        let start = line * 80
        in fold (\<lambda>i s. fb_write_cell (start + of_nat i) 32 (current_fg s) (current_bg s) s) [0..<80] s
      else s)"

definition fb_scroll :: "framebuffer \<Rightarrow> framebuffer" where
  "fb_scroll s =
     (let s = fold (\<lambda>i s. let src_index = i * 2; dst_index = (i - 80) * 2;
                           s = s\<lparr>vram := (vram s)(dst_index := vram s src_index)\<rparr>
                       in s\<lparr>vram := (vram s)(dst_index + 1 := vram s (src_index + 1))\<rparr>)
                [80..<80 * 25] s
      in fb_clear_line 24 s)"

text \<open>The body of the loop of \<open>fb_write\<close>, for one character.\<close>

definition fb_write_char :: "u8 \<Rightarrow> framebuffer \<Rightarrow> framebuffer" where
  "fb_write_char c s =
     (let s =
        (if c = 10 then s\<lparr>cursor_pos := (cursor_pos s + 80) div 80 * 80\<rparr>
         else if c = 9 then
           fold (\<lambda>j s. let s = fb_write_cell (cursor_pos s) 32 (current_fg s) (current_bg s) s
                       in s\<lparr>cursor_pos := cursor_pos s + 1\<rparr>) [0..<4] s
         else if c = 13 then s\<lparr>cursor_pos := cursor_pos s div 80 * 80\<rparr>
         else if c = 8 then
           if cursor_pos s > 0 then
             let s = s\<lparr>cursor_pos := cursor_pos s - 1\<rparr>
             in fb_write_cell (cursor_pos s) 32 (current_fg s) (current_bg s) s
           else s
         else
           let s = fb_write_cell (cursor_pos s) c (current_fg s) (current_bg s) s
           in s\<lparr>cursor_pos := cursor_pos s + 1\<rparr>)
      in if cursor_pos s \<ge> 80 * 25 then (fb_scroll s)\<lparr>cursor_pos := 80 * 24\<rparr> else s)"

text \<open>\<open>fb_write\<close> on the bytes at an address; and on a buffer that is known to be there.\<close>

definition fb_write_bytes :: "u8 list \<Rightarrow> framebuffer \<Rightarrow> framebuffer" where
  "fb_write_bytes cs s = (let s = fold fb_write_char cs s in fb_set_cursor (cursor_pos s) s)"

definition fb_write :: "u32 \<Rightarrow> u32 \<Rightarrow> mem \<Rightarrow> framebuffer \<Rightarrow> u32 \<times> framebuffer" where
  "fb_write buf len m s =
     (if buf = 0 \<or> len = 0 then (0, s)
      else (len, fb_write_bytes (map (\<lambda>i. m (buf + of_nat i)) [0..<unat len]) s))"

definition fb_putchar :: "u8 \<Rightarrow> framebuffer \<Rightarrow> framebuffer" where
  "fb_putchar c s = fb_write_bytes [c] s"

partial_function (option) fb_strlen_loop :: "u32 \<Rightarrow> u32 \<Rightarrow> mem \<Rightarrow> u32 option" where
  "fb_strlen_loop str len m =
     (if str \<noteq> 0 \<and> m (str + len) \<noteq> 0 then fb_strlen_loop str (len + 1) m else Some len)"

definition fb_strlen :: "u32 \<Rightarrow> mem \<Rightarrow> u32 option" where
  "fb_strlen str m = fb_strlen_loop str 0 m"

definition fb_puts :: "u32 \<Rightarrow> mem \<Rightarrow> framebuffer \<Rightarrow> framebuffer option" where
  "fb_puts str m s =
     (if str \<noteq> 0 then do {
        len \<leftarrow> fb_strlen str m;
        let len = len + 1;
        Some (snd (fb_write str len m s))
      } else Some s)"

definition fb_direct_write :: "u32 \<Rightarrow> u8 \<Rightarrow> u8 \<Rightarrow> u8 \<Rightarrow> framebuffer \<Rightarrow> framebuffer" where
  "fb_direct_write position c fg bg s =
     (if position < 80 * 25 then fb_write_cell position c fg bg s else s)"

section \<open>The screen as a list of characters\<close>

definition screen :: "framebuffer \<Rightarrow> u8 list" where
  "screen s = map (\<lambda>i. vram s (2 * i)) [0..<2000]"

text \<open>
  The specification: 2000 cells and a position. A character goes to the position; newline, carriage
  return, tab and backspace move it; leaving the screen moves everything up one line.
\<close>

definition tty_move :: "u8 \<Rightarrow> u8 list \<times> nat \<Rightarrow> u8 list \<times> nat" where
  "tty_move c x =
     (case x of (cs, p) \<Rightarrow>
       if c = 10 then (cs, (p div 80 + 1) * 80)
       else if c = 9 then (cs[p := 32, p + 1 := 32, p + 2 := 32, p + 3 := 32], p + 4)
       else if c = 13 then (cs, p div 80 * 80)
       else if c = 8 then (if p > 0 then (cs[p - 1 := 32], p - 1) else (cs, p))
       else (cs[p := c], p + 1))"

definition tty_scroll :: "u8 list \<times> nat \<Rightarrow> u8 list \<times> nat" where
  "tty_scroll x = (case x of (cs, p) \<Rightarrow> if p \<ge> 2000 then (drop 80 cs @ replicate 80 32, 1920) else (cs, p))"

definition tty_put :: "u8 \<Rightarrow> u8 list \<times> nat \<Rightarrow> u8 list \<times> nat" where
  "tty_put c x = tty_scroll (tty_move c x)"

definition tty_of :: "framebuffer \<Rightarrow> u8 list \<times> nat" where
  "tty_of s = (screen s, unat (cursor_pos s))"

lemma length_screen [simp]: "length (screen s) = 2000"
  by (simp add: screen_def)

lemma screen_nth: "i < 2000 \<Longrightarrow> screen s ! i = vram s (2 * i)"
  by (simp add: screen_def)

lemma cell_frame [simp]:
  "cursor_pos (fb_write_cell pos c fg bg s) = cursor_pos s"
  "current_fg (fb_write_cell pos c fg bg s) = current_fg s"
  "current_bg (fb_write_cell pos c fg bg s) = current_bg s"
  "fb_io (fb_write_cell pos c fg bg s) = fb_io s"
  by (simp_all add: fb_write_cell_def Let_def)

lemma cell_vram:
  "vram (fb_write_cell pos c fg bg s) =
     (if pos < 2000 then (vram s)(2 * unat pos := c,
        2 * unat pos + 1 := push_bit 4 (fg AND 0x0F) OR (bg AND 0x0F)) else vram s)"
proof (cases "pos < 2000")
  case True
  then have "unat pos < 2000" by (simp add: word_less_nat_alt)
  then have "unat (pos * 2) = 2 * unat pos" "unat (pos * 2 + 1) = 2 * unat pos + 1"
    by (simp_all add: unat_word_ariths)
  then show ?thesis using True by (simp add: fb_write_cell_def Let_def)
qed (simp add: fb_write_cell_def)

lemma screen_cell: "screen (fb_write_cell pos c fg bg s) = (screen s)[unat pos := c]"
proof (rule nth_equalityI)
  fix i assume "i < length (screen (fb_write_cell pos c fg bg s))"
  then have i: "i < 2000" by simp
  have "2 * i \<noteq> 2 * k + 1" for k by presburger
  then show "screen (fb_write_cell pos c fg bg s) ! i = (screen s)[unat pos := c] ! i"
    using i by (auto simp: screen_nth cell_vram nth_list_update word_less_nat_alt)
qed simp

lemma screen_cong: "vram s = vram t \<Longrightarrow> screen s = screen t"
  by (simp add: screen_def)

lemma screen_frame [simp]:
  "screen (s\<lparr>cursor_pos := p\<rparr>) = screen s" "screen (s\<lparr>fb_io := io\<rparr>) = screen s"
  "screen (s\<lparr>current_fg := f\<rparr>) = screen s" "screen (s\<lparr>current_bg := f\<rparr>) = screen s"
  by (simp_all add: screen_def)

lemma set_cursor_frame [simp]:
  "screen (fb_set_cursor p s) = screen s" "cursor_pos (fb_set_cursor p s) = cursor_pos s"
  "vram (fb_set_cursor p s) = vram s"
  by (simp_all add: fb_set_cursor_def Let_def)

section \<open>Clearing and scrolling\<close>

lemma fill_screen:
  assumes "unat st + n \<le> 2000"
  shows "screen (fold (\<lambda>i s. fb_write_cell (st + of_nat i) 32 (current_fg s) (current_bg s) s) [0..<n] s) =
    take (unat st) (screen s) @ replicate n 32 @ drop (unat st + n) (screen s)"
    and "cursor_pos (fold (\<lambda>i s. fb_write_cell (st + of_nat i) 32 (current_fg s) (current_bg s) s) [0..<n] s) = cursor_pos s"
  using assms
proof (induction n)
  case (Suc n)
  {
    case 1
    have "unat (st + of_nat n) = unat st + n" using 1 by (intro no_wrap_off) simp
    then show ?case using 1 Suc.IH(1) 
      by (simp add: screen_cell list_update_append replicate_append_same [symmetric] Cons_nth_drop_Suc [symmetric])
  next
    case 2
    then show ?case using Suc.IH(2) by simp
  }
qed simp_all

text \<open>The copy loop of \<open>fb_scroll\<close>.\<close>

definition scroll_step :: "nat \<Rightarrow> framebuffer \<Rightarrow> framebuffer" where
  "scroll_step i s =
     (let src_index = i * 2; dst_index = (i - 80) * 2;
          s = s\<lparr>vram := (vram s)(dst_index := vram s src_index)\<rparr>
      in s\<lparr>vram := (vram s)(dst_index + 1 := vram s (src_index + 1))\<rparr>)"

lemma scroll_step_vram:
  "80 \<le> i \<Longrightarrow> vram (scroll_step i s) =
     (vram s)((i - 80) * 2 := vram s (i * 2), (i - 80) * 2 + 1 := vram s (i * 2 + 1))"
proof -
  have "Suc (i * 2) \<noteq> (i - 80) * 2" by presburger
  then show ?thesis by (simp add: scroll_step_def Let_def)
qed

lemma scroll_loop:
  "vram (fold scroll_step [80..<80 + m] s) k = (if k < 2 * m then vram s (k + 160) else vram s k)"
proof (induction m arbitrary: k)
  case (Suc m)
  let ?v = "vram (fold scroll_step [80..<80 + m] s)"
  have keep: "?v (160 + 2 * m) = vram s (160 + 2 * m)" "?v (161 + 2 * m) = vram s (161 + 2 * m)"
    unfolding Suc.IH by simp_all
  have "vram (fold scroll_step [80..<80 + Suc m] s) k = vram (scroll_step (80 + m) (fold scroll_step [80..<80 + m] s)) k"
  proof -
    have "[80..<80 + Suc m] = [80..<80 + m] @ [80 + m]"
      unfolding add_Suc_right by (rule upt_Suc_append) simp
    then show ?thesis by (simp only: fold_append fold.simps o_apply id_apply)
  qed
  also have "\<dots> = (?v(2 * m := ?v (160 + 2 * m), 2 * m + 1 := ?v (161 + 2 * m))) k"
    using scroll_step_vram [of "80 + m" "fold scroll_step [80..<80 + m] s"] by (simp add: algebra_simps)
  also have "\<dots> = (if k < 2 * Suc m then vram s (k + 160) else vram s k)"
    unfolding keep fun_upd_apply Suc.IH by (auto simp: add.commute)
  finally show ?case .
qed simp

text \<open>The number of cells below the first line, kept folded.\<close>

definition rest_cells :: nat where
  "rest_cells = 1920"

lemma fb_scroll_eq: "fb_scroll s = fb_clear_line 24 (fold scroll_step [80..<80 + rest_cells] s)"
proof -
  have "80 * 25 = 80 + rest_cells" by (simp add: rest_cells_def)
  then show ?thesis unfolding fb_scroll_def scroll_step_def [abs_def] Let_def by (simp only:)
qed

lemma two_rest_cells: "2 * rest_cells = 3840"
  by (simp add: rest_cells_def)

lemma scroll_loop_frame [simp]:
  "cursor_pos (fold scroll_step is' s) = cursor_pos s" "current_fg (fold scroll_step is' s) = current_fg s"
  by (induction is' arbitrary: s) (simp_all add: scroll_step_def Let_def)

lemma fb_clear_line_screen:
  assumes "line < 25"
  shows "screen (fb_clear_line line s) =
    take (80 * unat line) (screen s) @ replicate 80 32 @ drop (80 * unat line + 80) (screen s)"
    and "cursor_pos (fb_clear_line line s) = cursor_pos s"
proof -
  have l: "unat line < 25" using assms by (simp add: word_less_nat_alt)
  then have st: "unat (line * 80) = 80 * unat line" by (simp add: unat_word_ariths)
  then have "unat (line * 80) + 80 \<le> 2000" using l by simp
  from fill_screen [OF this, of s] show "screen (fb_clear_line line s) =
      take (80 * unat line) (screen s) @ replicate 80 32 @ drop (80 * unat line + 80) (screen s)"
    "cursor_pos (fb_clear_line line s) = cursor_pos s"
    using assms st by (simp_all add: fb_clear_line_def Let_def)
qed

lemma fb_scroll_screen: "screen (fb_scroll s) = drop 80 (screen s) @ replicate 80 32"
proof -
  let ?t = "fold scroll_step [80..<80 + rest_cells] s"
  have "take 1920 (screen ?t) = drop 80 (screen s)"
  proof (rule nth_equalityI)
    fix i assume "i < length (take 1920 (screen ?t))"
    then have i: "i < 1920" by simp
    then have "vram ?t (2 * i) = vram s (2 * i + 160)" unfolding scroll_loop two_rest_cells by simp
    moreover have "2 * i + 160 = 2 * (80 + i)" by simp
    ultimately show "take 1920 (screen ?t) ! i = drop 80 (screen s) ! i"
      using i by (simp add: screen_nth)
  qed simp
  then show ?thesis unfolding fb_scroll_eq using fb_clear_line_screen(1) [of 24 ?t] by simp
qed

lemma cursor_upd: "cursor_pos (s\<lparr>cursor_pos := p\<rparr>) = p"
  by simp

lemma fb_clear_screen: "tty_of (fb_clear s) = (replicate 2000 32, 0)"
proof -
  have "unat (0 :: u32) + 80 * 25 \<le> 2000" by simp
  note fill = fill_screen(1) [OF this, of s, unfolded add_0]
  have "screen (fb_clear s) =
      screen (fold (\<lambda>i s. fb_write_cell (of_nat i) 32 (current_fg s) (current_bg s) s) [0..<80 * 25] s)"
    unfolding fb_clear_def Let_def set_cursor_frame screen_frame ..
  also have "\<dots> = replicate 2000 32" unfolding fill by simp
  finally have "screen (fb_clear s) = replicate 2000 32" .
  moreover have "cursor_pos (fb_clear s) = 0"
    unfolding fb_clear_def Let_def set_cursor_frame by (rule cursor_upd)
  ultimately show ?thesis by (simp add: tty_of_def)
qed

section \<open>Refinement\<close>

lemma tab_cells:
  assumes "unat (cursor_pos s) < 2000"
  shows "tty_of (fold (\<lambda>j s. let s = fb_write_cell (cursor_pos s) 32 (current_fg s) (current_bg s) s
      in s\<lparr>cursor_pos := cursor_pos s + 1\<rparr>) [0..<4] s) =
    ((screen s)[unat (cursor_pos s) := 32, unat (cursor_pos s) + 1 := 32, unat (cursor_pos s) + 2 := 32,
        unat (cursor_pos s) + 3 := 32], unat (cursor_pos s) + 4)"
proof -
  have u: "unat (cursor_pos s + of_nat k) = unat (cursor_pos s) + k" if "k \<le> 4" for k
    using assms that by (intro no_wrap_off) simp
  have "[0..<4] = [0, 1, 2, 3 :: nat]" by (simp add: upt_rec numeral_eq_Suc)
  then show ?thesis
    using u [of 1] u [of 2] u [of 3] u [of 4]
    by (simp add: tty_of_def Let_def screen_cell add.assoc)
qed

lemma scroll_tty:
  assumes "unat (cursor_pos s) < 2 ^ 31"
  shows "tty_of (if cursor_pos s \<ge> 80 * 25 then (fb_scroll s)\<lparr>cursor_pos := 80 * 24\<rparr> else s) =
    tty_scroll (tty_of s)"
  by (simp add: tty_of_def tty_scroll_def fb_scroll_screen word_le_nat_alt)

text \<open>The cases of the loop body before the screen is scrolled.\<close>

definition fb_move :: "u8 \<Rightarrow> framebuffer \<Rightarrow> framebuffer" where
  "fb_move c s =
     (if c = 10 then s\<lparr>cursor_pos := (cursor_pos s + 80) div 80 * 80\<rparr>
      else if c = 9 then
        fold (\<lambda>j s. let s = fb_write_cell (cursor_pos s) 32 (current_fg s) (current_bg s) s
                    in s\<lparr>cursor_pos := cursor_pos s + 1\<rparr>) [0..<4] s
      else if c = 13 then s\<lparr>cursor_pos := cursor_pos s div 80 * 80\<rparr>
      else if c = 8 then
        if cursor_pos s > 0 then
          let s = s\<lparr>cursor_pos := cursor_pos s - 1\<rparr>
          in fb_write_cell (cursor_pos s) 32 (current_fg s) (current_bg s) s
        else s
      else
        let s = fb_write_cell (cursor_pos s) c (current_fg s) (current_bg s) s
        in s\<lparr>cursor_pos := cursor_pos s + 1\<rparr>)"

lemma fb_write_char_move:
  "fb_write_char c s = (let s = fb_move c s in
     if cursor_pos s \<ge> 80 * 25 then (fb_scroll s)\<lparr>cursor_pos := 80 * 24\<rparr> else s)"
  unfolding fb_write_char_def fb_move_def ..

lemma fb_move_tty:
  assumes "unat (cursor_pos s) < 2000"
  shows "tty_of (fb_move c s) = tty_move c (tty_of s)"
proof -
  let ?p = "cursor_pos s"
  have "unat ((?p + 80) div 80 * 80) = (unat ?p + 80) div 80 * 80"
    using assms by (simp add: unat_word_ariths unat_div)
  moreover have "(unat ?p + 80) div 80 * 80 = (unat ?p div 80 + 1) * 80" by (subst div_add_self2) simp_all
  moreover have "unat (?p div 80 * 80) = unat ?p div 80 * 80"
    using assms by (simp add: unat_word_ariths unat_div)
  moreover have "unat (?p + 1) = unat ?p + 1" using assms by (simp add: unat_word_ariths)
  moreover have "?p > 0 \<Longrightarrow> unat (?p - 1) = unat ?p - 1" by (simp add: unat_sub word_le_nat_alt word_less_nat_alt)
  ultimately show ?thesis
    using tab_cells [OF assms]
    by (simp add: fb_move_def tty_move_def tty_of_def Let_def screen_cell word_less_nat_alt del: upt_rec_numeral)
qed

lemma tty_move_bound: "snd x < 2000 \<Longrightarrow> snd (tty_move c x) < 2 ^ 31"
  by (auto simp: tty_move_def split: prod.splits)

lemma fb_write_char_tty:
  assumes "unat (cursor_pos s) < 2000"
  shows "tty_of (fb_write_char c s) = tty_put c (tty_of s)"
proof -
  have bound: "unat (cursor_pos (fb_move c s)) < 2 ^ 31"
  proof -
    have "snd (tty_of s) < 2000" using assms by (simp add: tty_of_def)
    from tty_move_bound [OF this, of c] have "snd (tty_of (fb_move c s)) < 2 ^ 31"
      unfolding fb_move_tty [OF assms] .
    then show ?thesis by (simp only: tty_of_def snd_conv)
  qed
  show ?thesis
    unfolding fb_write_char_move Let_def scroll_tty [OF bound] tty_put_def fb_move_tty [OF assms] ..
qed

lemma tty_scroll_bound: "snd (tty_scroll x) < 2000"
  by (simp add: tty_scroll_def split: prod.splits)

lemma fb_write_chars_tty:
  "unat (cursor_pos s) < 2000 \<Longrightarrow>
   tty_of (fold fb_write_char cs s) = fold tty_put cs (tty_of s) \<and> unat (cursor_pos (fold fb_write_char cs s)) < 2000"
proof (induction cs arbitrary: s)
  case (Cons c cs)
  have "unat (cursor_pos (fb_write_char c s)) < 2000"
    using tty_scroll_bound [of "tty_move c (tty_of s)"] fb_write_char_tty [OF Cons.prems, of c]
    by (simp add: tty_put_def tty_of_def prod_eq_iff)
  from Cons.IH [OF this] show ?case using fb_write_char_tty [OF Cons.prems, of c] by simp
qed simp

section \<open>Memory outside the screen\<close>

lemma cell_outside: "4000 \<le> k \<Longrightarrow> vram (fb_write_cell pos c fg bg s) k = vram s k"
  by (simp add: cell_vram word_less_nat_alt)

lemma fold_outside:
  "(\<And>i s. vram (f i s) k = vram s k) \<Longrightarrow> vram (fold f xs s) k = vram s k"
  by (induction xs arbitrary: s) simp_all

lemma clear_line_outside: "4000 \<le> k \<Longrightarrow> vram (fb_clear_line line s) k = vram s k"
  unfolding fb_clear_line_def Let_def by (cases "line < 25") (simp_all only: if_True if_False fold_outside cell_outside)

lemma fb_scroll_outside: "4000 \<le> k \<Longrightarrow> vram (fb_scroll s) k = vram s k"
  unfolding fb_scroll_eq by (simp only: clear_line_outside scroll_loop two_rest_cells) simp

lemma fb_write_char_outside:
  assumes "4000 \<le> k"
  shows "vram (fb_write_char c s) k = vram s k"
proof -
  have "vram (fb_move c s) k = vram s k"
    unfolding fb_move_def Let_def using assms
    by (simp add: cell_outside) (intro impI fold_outside, simp add: cell_outside)
  then show ?thesis by (simp add: fb_write_char_move Let_def fb_scroll_outside [OF assms])
qed

section \<open>Strings\<close>

lemma fb_strlen_spec: "cstr m (str + k) xs \<Longrightarrow> str \<noteq> 0 \<Longrightarrow> fb_strlen_loop str k m = Some (k + of_nat (length xs))"
proof (induction xs arbitrary: k)
  case Nil
  then show ?case by (subst fb_strlen_loop.simps) simp
next
  case (Cons x xs)
  then show ?case by (subst fb_strlen_loop.simps) (simp add: add.assoc)
qed

lemma cstr_bytes: "cstr m p xs \<Longrightarrow> map (\<lambda>i. m (p + of_nat i)) [0..<Suc (length xs)] = xs @ [0]"
proof (rule nth_equalityI)
  fix i assume a: "cstr m p xs" "i < length (map (\<lambda>i. m (p + of_nat i)) [0..<Suc (length xs)])"
  then show "map (\<lambda>i. m (p + of_nat i)) [0..<Suc (length xs)] ! i = (xs @ [0]) ! i"
    using cstr_nth [OF a(1), of i] cstr_end [OF a(1)]
    by (cases "i = length xs") (simp_all add: nth_append del: upt_Suc)
qed simp

section \<open>Properties\<close>

text \<open>
  C21: fb_write of a non-null buffer refines a terminal of 2000 cells: the screen and the cursor
  afterwards are those of feeding the bytes to the terminal one by one, the cursor stays on the screen
  and no byte behind the 4000 of video memory is touched.
\<close>

theorem fb_write_refines:
  assumes "unat (cursor_pos s) < 2000" and "buf \<noteq> 0"
  shows "case fb_write buf len m s of (n, s') \<Rightarrow>
    n = len \<and> unat (cursor_pos s') < 2000 \<and>
    tty_of s' = fold tty_put (map (\<lambda>i. m (buf + of_nat i)) [0..<unat len]) (tty_of s) \<and>
    (\<forall>k\<ge>4000. vram s' k = vram s k)"
proof (cases "len = 0")
  case True
  then show ?thesis using assms by (simp add: fb_write_def)
next
  case False
  let ?cs = "map (\<lambda>i. m (buf + of_nat i)) [0..<unat len]"
  have "vram (fold fb_write_char ?cs s) k = vram s k" if "4000 \<le> k" for k
    using fb_write_char_outside [OF that] by (rule fold_outside)
  then show ?thesis
    using fb_write_chars_tty [OF assms(1), of ?cs] assms(2) False
    by (simp add: fb_write_def fb_write_bytes_def Let_def tty_of_def)
qed

theorem fb_write_refines_witness:
  "tty_of (snd (fb_write 16 1 (\<lambda>_. 65) fb_boot)) = tty_put 65 (tty_of fb_boot)"
  using fb_write_refines [of fb_boot 16 1 "\<lambda>_. 65"] by (simp add: fb_boot_def split: prod.splits)

theorem fb_puts_writes_nul:
  assumes "unat (cursor_pos s) < 2000" and "cstr m str xs" and "str \<noteq> 0" and "Suc (length xs) < 2 ^ 32"
  shows "\<exists>s'. fb_puts str m s = Some s' \<and> tty_of s' = tty_put 0 (fold tty_put xs (tty_of s))"
proof -
  have len: "fb_strlen str m = Some (of_nat (length xs))"
    using fb_strlen_spec [of m str 0 xs] assms(2,3) by (simp add: fb_strlen_def)
  have n: "unat (of_nat (length xs) + 1 :: u32) = Suc (length xs)"
  proof -
    have "(of_nat (length xs) + 1 :: u32) = of_nat (Suc (length xs))" by simp
    then show ?thesis using unat_of_nat_small [where 'a = 32, of "Suc (length xs)"] assms(4)
      by (simp only: len_num1 len_num0 len_bit0 mult_1) simp
  qed
  then have "of_nat (length xs) + 1 \<noteq> (0 :: u32)" by auto
  then have "fb_write str (of_nat (length xs) + 1) m s = (of_nat (length xs) + 1, fb_write_bytes (xs @ [0]) s)"
    using assms(3) unfolding fb_write_def n cstr_bytes [OF assms(2)] by simp
  moreover have "tty_of (fb_write_bytes (xs @ [0]) s) = tty_put 0 (fold tty_put xs (tty_of s))"
    using fb_write_chars_tty [OF assms(1), of "xs @ [0]"]
    by (simp add: fb_write_bytes_def Let_def tty_of_def)
  ultimately show ?thesis using len assms(3) by (simp add: fb_puts_def Let_def)
qed

theorem fb_puts_writes_nul_witness:
  "\<exists>s'. fb_puts 16 ((\<lambda>_. 0)(16 := 65)) fb_boot = Some s' \<and> cursor_pos s' = 2"
proof -
  have "cstr ((\<lambda>_. 0)(16 := 65)) 16 [65]" "unat (cursor_pos fb_boot) < 2000" by (simp_all add: fb_boot_def)
  from fb_puts_writes_nul [OF this(2,1)] obtain s' where
    s': "fb_puts 16 ((\<lambda>_. 0)(16 := 65)) fb_boot = Some s'" "tty_of s' = tty_put 0 (tty_put 65 (tty_of fb_boot))"
    by auto
  then have "unat (cursor_pos s') = 2"
    by (simp add: tty_of_def tty_put_def tty_move_def tty_scroll_def fb_boot_def)
  then have "unat (cursor_pos s') = unat (2 :: u32)" by simp
  then have "cursor_pos s' = 2" by (rule unsigned_word_eqI)
  with s'(1) show ?thesis by blast
qed

end
