(* ===== verification/FsTypes.thy ===== *)
theory FsTypes
  imports Kmalloc Keyboard Fb
begin

text \<open>
  The data of the file layer (\<open>kernel/fs/vfs.h\<close>, \<open>kernel/fs/ramfs.h\<close>, \<open>kernel/fs/devfs.c\<close>,
  \<open>kernel/process/loader.h\<close>): constants, records and the state that the virtual file system, the
  two file systems and the module loader share with memory, console, keyboard and heap. A C string
  is the list of its bytes before the NUL, so \<open>strcmp(a, b) == 0\<close> is \<open>a = b\<close> (theorem
  \<open>strcmp_orders\<close>); an \<open>int\<close> result is a 32-bit word, negative when \<open>sint\<close> of it is.
\<close>

section \<open>Constants\<close>

definition MAX_FS_NAME :: nat where [simp]: "MAX_FS_NAME = 16"
definition MAX_PATH :: nat where [simp]: "MAX_PATH = 256"
definition MAX_OPEN_FILES :: nat where [simp]: "MAX_OPEN_FILES = 32"
definition MAX_RAMFS_FILES :: nat where [simp]: "MAX_RAMFS_FILES = 64"
definition MAX_MODULES :: u32 where [simp]: "MAX_MODULES = 16"

definition O_RDONLY :: u32 where [simp]: "O_RDONLY = 0x0001"
definition O_WRONLY :: u32 where [simp]: "O_WRONLY = 0x0002"
definition O_RDWR :: u32 where [simp]: "O_RDWR = 0x0003"

definition FT_REGULAR :: u32 where [simp]: "FT_REGULAR = 1"
definition FT_CHAR_DEVICE :: u32 where [simp]: "FT_CHAR_DEVICE = 3"

definition ENOENT :: u32 where [simp]: "ENOENT = - 1"
definition EACCES :: u32 where [simp]: "EACCES = - 2"
definition EMFILE :: u32 where [simp]: "EMFILE = - 3"
definition EBADF :: u32 where [simp]: "EBADF = - 4"
definition EINVAL :: u32 where [simp]: "EINVAL = - 5"
definition EIO :: u32 where [simp]: "EIO = - 6"
definition ENOMEM :: u32 where [simp]: "ENOMEM = - 7"

definition DEVICE_CONSOLE :: u32 where [simp]: "DEVICE_CONSOLE = 1"
definition DEVICE_NULL :: u32 where [simp]: "DEVICE_NULL = 2"
definition DEVICE_ZERO :: u32 where [simp]: "DEVICE_ZERO = 3"

section \<open>Records\<close>

record file_stat =
  st_size :: u32
  st_mode :: u32
  st_type :: u32
  st_inode :: u32

record module_info =
  mod_name :: "u8 list"
  mod_start :: u32
  mod_end :: u32
  mod_size :: u32

record ramfs_file =
  rf_name :: "u8 list"
  rf_data :: u32
  rf_size :: u32
  rf_mode :: u32
  rf_type :: u32

text \<open>An open file of the RAM file system: the index in \<open>files\<close>, or \<open>None\<close> for \<open>NULL\<close>.\<close>

record ramfs_private =
  rh_file :: "nat option"
  rh_pos :: u32

record devfs_private =
  dh_device :: u32
  dh_pos :: u32

text \<open>The two operation tables, \<open>ramfs_ops\<close> and \<open>devfs_ops\<close>; every entry of both is set.\<close>

datatype fs_ops = Ramfs_ops | Devfs_ops

record filesystem =
  fs_name :: "u8 list"
  fs_table :: fs_ops

record file_handle =
  fh_fs :: "filesystem option"
  fh_private :: u32
  fh_pos :: u32
  fh_flags :: u32
  fh_ref :: nat

record world =
  wmem :: mem
  wkbd :: keyboard
  wcon :: framebuffer
  wheap :: heap_manager
  modules :: "module_info list"
  ramfs_base :: u32
  ramfs_files :: "ramfs_file list"
  ramfs_handles :: "nat \<Rightarrow> ramfs_private"
  devfs_handles :: "nat \<Rightarrow> devfs_private"
  fs_list :: "filesystem list"
  open_files :: "nat \<Rightarrow> file_handle"

definition no_ramfs_handle :: ramfs_private where
  "no_ramfs_handle = \<lparr>rh_file = None, rh_pos = 0\<rparr>"

definition no_devfs_handle :: devfs_private where
  "no_devfs_handle = \<lparr>dh_device = 0, dh_pos = 0\<rparr>"

definition no_file_handle :: file_handle where
  "no_file_handle = \<lparr>fh_fs = None, fh_private = 0, fh_pos = 0, fh_flags = 0, fh_ref = 0\<rparr>"

text \<open>The zero-initialised file layer of a kernel that has just been loaded.\<close>

definition world_bss :: world where
  "world_bss = \<lparr>wmem = (\<lambda>_. 0), wkbd = kbd_bss, wcon = fb_boot, wheap = heap_bss, modules = [],
     ramfs_base = 0, ramfs_files = [], ramfs_handles = (\<lambda>_. no_ramfs_handle),
     devfs_handles = (\<lambda>_. no_devfs_handle), fs_list = [], open_files = (\<lambda>_. no_file_handle)\<rparr>"

text \<open>The range check that every operation on a descriptor or a handle starts with.\<close>

definition out_of_table :: "u32 \<Rightarrow> bool" where
  "out_of_table h \<longleftrightarrow> sint h < 0 \<or> sint h \<ge> int MAX_OPEN_FILES"

definition free_slot :: "(nat \<Rightarrow> bool) \<Rightarrow> nat \<Rightarrow> nat option" where
  "free_slot unused start = List.find unused [start..<MAX_OPEN_FILES]"

section \<open>Tables\<close>

lemma sint_small: "uint (h :: u32) < 2 ^ 31 \<Longrightarrow> sint h = uint h"
proof -
  assume lt: "uint h < 2 ^ 31"
  have "- (2 ^ 31) \<le> uint h" by (rule order_trans [of _ 0]) simp_all
  then have "signed_take_bit 31 (uint h) = uint h" using lt by (rule signed_take_bit_int_eq_self)
  then show ?thesis by (simp add: sint_uint)
qed

lemma uint_of_sint: "0 \<le> sint (h :: u32) \<Longrightarrow> uint h = sint h"
  using sint_less [of h] by (simp add: uint_sint take_bit_int_eq_self)

lemma sint_of_nat_slot: "n < 32 \<Longrightarrow> sint (of_nat n :: u32) = int n"
proof -
  assume n: "n < 32"
  have "uint (of_nat n :: u32) = int n" using n by (simp add: unsigned_of_nat take_bit_nat_eq_self)
  then show ?thesis using n by (subst sint_small) simp_all
qed

lemma out_of_table_unat: "\<not> out_of_table h \<longleftrightarrow> unat h < 32"
proof
  assume "\<not> out_of_table h"
  then have s: "0 \<le> sint h" "sint h < 32" by (simp_all add: out_of_table_def)
  then have "uint h < 32" using uint_of_sint [OF s(1)] by simp
  then show "unat h < 32" by (simp flip: nat_uint_eq)
next
  assume h: "unat h < 32"
  have "sint (of_nat (unat h) :: u32) = int (unat h)" using sint_of_nat_slot [OF h] .
  then have "sint h = int (unat h)" by simp
  then have "0 \<le> sint h" "sint h < 32" using h by linarith+
  then show "\<not> out_of_table h" by (simp add: out_of_table_def)
qed

lemma out_of_table_of_nat [simp]: "n < 32 \<Longrightarrow> \<not> out_of_table (of_nat n)"
  unfolding out_of_table_unat by (simp add: unat_of_nat_small)

lemma free_slot_Some:
  "free_slot P st = Some i \<Longrightarrow> P i \<and> st \<le> i \<and> i < 32"
  by (auto simp: free_slot_def find_Some_iff)

lemma free_slot_None: "free_slot P st = None \<longleftrightarrow> (\<forall>i. st \<le> i \<and> i < 32 \<longrightarrow> \<not> P i)"
  by (auto simp: free_slot_def find_None_iff)

section \<open>What a file system promises\<close>

text \<open>
  The contract of \<open>struct file_operations\<close>: a successful open gives a handle of the table that was
  not in use and closing it undoes the open; a failed open changes nothing; a handle that is not
  open is refused with \<open>EBADF\<close>; reading, writing and seeking open or close nothing. \<open>clean\<close> says that
  the entries of closed handles are zero.
\<close>

locale file_system =
  fixes fopen :: "u8 list \<Rightarrow> u32 \<Rightarrow> 's \<Rightarrow> u32 \<times> 's"
    and fclose :: "u32 \<Rightarrow> 's \<Rightarrow> u32 \<times> 's"
    and fread :: "u32 \<Rightarrow> u32 \<Rightarrow> u32 \<Rightarrow> 's \<Rightarrow> u32 \<times> 's"
    and fwrite :: "u32 \<Rightarrow> u32 \<Rightarrow> u32 \<Rightarrow> 's \<Rightarrow> u32 \<times> 's"
    and fseek :: "u32 \<Rightarrow> u32 \<Rightarrow> u32 \<Rightarrow> 's \<Rightarrow> u32 \<times> 's"
    and opened :: "'s \<Rightarrow> nat \<Rightarrow> bool"
    and clean :: "'s \<Rightarrow> bool"
  assumes open_ok: "clean s \<Longrightarrow> fopen path flags s = (h, s') \<Longrightarrow> 0 \<le> sint h \<Longrightarrow>
      unat h < 32 \<and> \<not> opened s (unat h) \<and> opened s' = (opened s)(unat h := True) \<and> clean s' \<and> fclose h s' = (0, s)"
    and open_err: "fopen path flags s = (h, s') \<Longrightarrow> sint h < 0 \<Longrightarrow> s' = s"
    and close_ok: "clean s \<Longrightarrow> unat h < 32 \<Longrightarrow> opened s (unat h) \<Longrightarrow>
      \<exists>s'. fclose h s = (0, s') \<and> clean s' \<and> opened s' = (opened s)(unat h := False)"
    and not_open: "out_of_table h \<or> \<not> opened s (unat h) \<Longrightarrow>
      fclose h s = (EBADF, s) \<and> fread h buf n s = (EBADF, s)"
    and read_keeps: "opened (snd (fread h buf n s)) = opened s"
    and read_clean: "clean s \<Longrightarrow> clean (snd (fread h buf n s))"
    and write_keeps: "opened (snd (fwrite h buf n s)) = opened s"
    and write_clean: "clean s \<Longrightarrow> clean (snd (fwrite h buf n s))"
    and seek_keeps: "opened (snd (fseek h off wh s)) = opened s"
    and seek_clean: "clean s \<Longrightarrow> clean (snd (fseek h off wh s))"
begin

lemma two_opens_differ:
  assumes "clean s" and "fopen p f s = (h1, s1)" and "0 \<le> sint h1"
    and "fopen q g s1 = (h2, s2)" and "0 \<le> sint h2"
  shows "unat h1 \<noteq> unat h2"
proof -
  have "opened s1 (unat h1)" "clean s1" using open_ok [OF assms(1-3)] by simp_all
  moreover have "\<not> opened s1 (unat h2)" using open_ok [OF calculation(2) assms(4,5)] by simp
  ultimately show ?thesis by auto
qed

lemma closed_is_refused:
  assumes "clean s" and "unat h < 32" and "opened s (unat h)" and "fclose h s = (r, s1)"
  shows "r = 0 \<and> fread h buf n s1 = (EBADF, s1) \<and> fclose h s1 = (EBADF, s1)"
proof -
  have "r = 0" "opened s1 = (opened s)(unat h := False)" using close_ok [OF assms(1-3)] assms(4) by auto
  then show ?thesis using not_open [of h s1 buf n] by simp
qed

end

end
