(* ===== verification/Ramfs.thy ===== *)
theory Ramfs
  imports FsTypes
begin

text \<open>
  The module loader (\<open>kernel/process/loader.c\<close>) and the RAM file system over its modules
  (\<open>kernel/fs/ramfs.c\<close>). Registration with the virtual file system is in the theory of that
  component.
\<close>

section \<open>Loader\<close>

text \<open>A module as the boot loader passes it: start, end and name (\<open>None\<close> for a null pointer).\<close>

type_synonym grub_module = "u32 \<times> u32 \<times> u8 list option"

definition default_name :: "nat \<Rightarrow> u8 list" where
  "default_name i =
     (if i = 0 then [104, 101, 108, 108, 111]
      else if i = 1 then [102, 105, 108, 101, 95, 116, 101, 115, 116]
      else if i = 2 then [100, 101, 109, 111]
      else [117, 115, 101, 114, 95, 112, 114, 111, 103, 114, 97, 109])"

text \<open>\<open>strncpy\<close> to a buffer of \<open>n\<close> bytes, followed by the store of a NUL at its end.\<close>

definition name_buffer :: "nat \<Rightarrow> u8 list \<Rightarrow> u8 list" where
  "name_buffer n s = take (n - 1) s"

definition loader_module :: "nat \<Rightarrow> grub_module \<Rightarrow> module_info" where
  "loader_module i g =
     (case g of (mstart, mend, name) \<Rightarrow>
       \<lparr>mod_name = (case name of Some s \<Rightarrow> name_buffer 32 s | None \<Rightarrow> default_name i),
        mod_start = mstart, mod_end = mend, mod_size = mend - mstart\<rparr>)"

definition loader_init :: "u32 \<Rightarrow> (nat \<Rightarrow> grub_module) \<Rightarrow> world \<Rightarrow> world" where
  "loader_init mods_count grub w =
     (let mods_count = (if mods_count > MAX_MODULES then MAX_MODULES else mods_count)
      in w\<lparr>modules := map (\<lambda>i. loader_module i (grub i)) [0..<unat mods_count]\<rparr>)"

definition loader_find_module :: "u8 list \<Rightarrow> world \<Rightarrow> module_info option" where
  "loader_find_module name w = List.find (\<lambda>m. mod_name m = name) (modules w)"

definition loader_get_module_count :: "world \<Rightarrow> u32" where
  "loader_get_module_count w = of_nat (length (modules w))"

definition loader_get_module :: "u32 \<Rightarrow> world \<Rightarrow> module_info option" where
  "loader_get_module index w =
     (if index \<ge> loader_get_module_count w then None else Some (modules w ! unat index))"

section \<open>Operations of the RAM file system\<close>

definition ramfs_find_file :: "u8 list \<Rightarrow> world \<Rightarrow> nat option" where
  "ramfs_find_file path w =
     (let filename = dropWhile (\<lambda>c. c = 47) path
      in List.find (\<lambda>i. rf_name (ramfs_files w ! i) = filename) [0..<length (ramfs_files w)])"

definition ramfs_open :: "u8 list \<Rightarrow> u32 \<Rightarrow> world \<Rightarrow> u32 \<times> world" where
  "ramfs_open path flags w =
     (case ramfs_find_file path w of
        None \<Rightarrow> (ENOENT, w)
      | Some file \<Rightarrow>
          if flags AND O_WRONLY \<noteq> 0 \<and> rf_mode (ramfs_files w ! file) AND 0x92 = 0 then (EACCES, w)
          else case free_slot (\<lambda>i. rh_file (ramfs_handles w i) = None) 0 of
                 None \<Rightarrow> (EMFILE, w)
               | Some handle \<Rightarrow>
                   (of_nat handle,
                    w\<lparr>ramfs_handles := (ramfs_handles w)(handle := \<lparr>rh_file = Some file, rh_pos = 0\<rparr>)\<rparr>))"

definition ramfs_bad :: "u32 \<Rightarrow> world \<Rightarrow> bool" where
  "ramfs_bad handle w \<longleftrightarrow> out_of_table handle \<or> rh_file (ramfs_handles w (unat handle)) = None"

definition ramfs_close :: "u32 \<Rightarrow> world \<Rightarrow> u32 \<times> world" where
  "ramfs_close handle w =
     (if ramfs_bad handle w then (EBADF, w)
      else (0, w\<lparr>ramfs_handles := (ramfs_handles w)(unat handle := \<lparr>rh_file = None, rh_pos = 0\<rparr>)\<rparr>))"

text \<open>The file of a handle that is open.\<close>

definition handle_file :: "u32 \<Rightarrow> world \<Rightarrow> ramfs_file" where
  "handle_file handle w = ramfs_files w ! the (rh_file (ramfs_handles w (unat handle)))"

definition set_ramfs_pos :: "u32 \<Rightarrow> u32 \<Rightarrow> world \<Rightarrow> world" where
  "set_ramfs_pos handle p w =
     w\<lparr>ramfs_handles := (ramfs_handles w)(unat handle := (ramfs_handles w (unat handle))\<lparr>rh_pos := p\<rparr>)\<rparr>"

definition ramfs_read :: "u32 \<Rightarrow> u32 \<Rightarrow> u32 \<Rightarrow> world \<Rightarrow> u32 \<times> world" where
  "ramfs_read handle buf count w =
     (if ramfs_bad handle w then (EBADF, w)
      else
        let pos = rh_pos (ramfs_handles w (unat handle));
            file = handle_file handle w
        in if pos \<ge> rf_size file then (0, w)
           else
             let to_read = count;
                 to_read = (if pos + to_read > rf_size file then rf_size file - pos else to_read);
                 w = w\<lparr>wmem := memcpy buf (rf_data file + pos) to_read (wmem w)\<rparr>;
                 w = set_ramfs_pos handle (pos + to_read) w
             in (to_read, w))"

definition ramfs_write :: "u32 \<Rightarrow> u32 \<Rightarrow> u32 \<Rightarrow> world \<Rightarrow> u32 \<times> world" where
  "ramfs_write handle buf count w = (EACCES, w)"

definition ramfs_seek :: "u32 \<Rightarrow> u32 \<Rightarrow> u32 \<Rightarrow> world \<Rightarrow> u32 \<times> world" where
  "ramfs_seek handle offset whence w =
     (if ramfs_bad handle w then (EBADF, w)
      else
        let pos = rh_pos (ramfs_handles w (unat handle));
            file = handle_file handle w
        in if whence \<noteq> 0 \<and> whence \<noteq> 1 \<and> whence \<noteq> 2 then (EINVAL, w)
           else
             let pos = (if whence = 0 then offset
                        else if whence = 1 then pos + offset
                        else rf_size file + offset);
                 pos = (if pos > rf_size file then rf_size file else pos)
             in (pos, set_ramfs_pos handle pos w))"

definition ramfs_ioctl :: "u32 \<Rightarrow> u32 \<Rightarrow> u32 \<Rightarrow> world \<Rightarrow> u32 \<times> world" where
  "ramfs_ioctl handle request argp w = (EINVAL, w)"

text \<open>\<open>sizeof(struct ramfs_file)\<close> is 272; the address of the file serves as its inode number.\<close>

definition ramfs_stat :: "u8 list \<Rightarrow> world \<Rightarrow> u32 \<times> file_stat option" where
  "ramfs_stat path w =
     (case ramfs_find_file path w of
        None \<Rightarrow> (ENOENT, None)
      | Some i \<Rightarrow>
          let file = ramfs_files w ! i
          in (0, Some \<lparr>st_size = rf_size file, st_mode = rf_mode file, st_type = rf_type file,
                       st_inode = ramfs_base w + 272 * of_nat i\<rparr>))"

text \<open>The loop of \<open>ramfs_init\<close> that turns the boot modules into files.\<close>

fun ramfs_add_modules :: "nat \<Rightarrow> nat \<Rightarrow> world \<Rightarrow> world" where
  "ramfs_add_modules i 0 w = w"
| "ramfs_add_modules i (Suc k) w =
     (if length (ramfs_files w) < MAX_RAMFS_FILES then
        let w = (case loader_get_module (of_nat i) w of
                   None \<Rightarrow> w
                 | Some m \<Rightarrow>
                     w\<lparr>ramfs_files := ramfs_files w @
                       [\<lparr>rf_name = name_buffer MAX_PATH (mod_name m), rf_data = mod_start m, rf_size = mod_size m,
                         rf_mode = 0x124, rf_type = FT_REGULAR\<rparr>]\<rparr>)
        in ramfs_add_modules (Suc i) k w
      else w)"

definition ramfs_load :: "world \<Rightarrow> world" where
  "ramfs_load w =
     (let w = w\<lparr>ramfs_files := [], ramfs_handles := (\<lambda>_. no_ramfs_handle)\<rparr>
      in ramfs_add_modules 0 (unat (loader_get_module_count w)) w)"

section \<open>Handles\<close>

definition ramfs_opened :: "world \<Rightarrow> nat \<Rightarrow> bool" where
  "ramfs_opened w i \<longleftrightarrow> rh_file (ramfs_handles w i) \<noteq> None"

definition ramfs_clean :: "world \<Rightarrow> bool" where
  "ramfs_clean w \<longleftrightarrow> (\<forall>i. rh_file (ramfs_handles w i) = None \<longrightarrow> ramfs_handles w i = no_ramfs_handle)"

lemma ramfs_bad_iff: "ramfs_bad h w \<longleftrightarrow> out_of_table h \<or> \<not> ramfs_opened w (unat h)"
  by (simp add: ramfs_bad_def ramfs_opened_def)

lemma ramfs_open_cases:
  obtains (none) e where "ramfs_open path flags w = (e, w)" and "sint e < 0"
  | (some) fi i where "ramfs_open path flags w =
        (of_nat i, w\<lparr>ramfs_handles := (ramfs_handles w)(i := \<lparr>rh_file = Some fi, rh_pos = 0\<rparr>)\<rparr>)"
      and "i < 32" and "\<not> ramfs_opened w i"
      and "ramfs_find_file path w = Some fi"
proof (cases "ramfs_find_file path w")
  case None
  then show thesis using none [of ENOENT] by (simp add: ramfs_open_def)
next
  case (Some fi)
  show thesis
  proof (cases "flags AND O_WRONLY \<noteq> 0 \<and> rf_mode (ramfs_files w ! fi) AND 0x92 = 0")
    case True
    then show thesis using Some none [of EACCES] by (simp add: ramfs_open_def)
  next
    case ok: False
    show thesis
    proof (cases "free_slot (\<lambda>i. rh_file (ramfs_handles w i) = None) 0")
      case None
      then show thesis using Some ok none [of EMFILE] by (simp add: ramfs_open_def)
    next
      case (Some i)
      then have "ramfs_open path flags w =
          (of_nat i, w\<lparr>ramfs_handles := (ramfs_handles w)(i := \<lparr>rh_file = Some fi, rh_pos = 0\<rparr>)\<rparr>)"
        using ok \<open>ramfs_find_file path w = Some fi\<close> by (simp add: ramfs_open_def if_not_P)
      then show thesis
        using \<open>ramfs_find_file path w = Some fi\<close> free_slot_Some [OF Some] some [of i fi]
        by (simp add: ramfs_opened_def)
    qed
  qed
qed

lemma ramfs_pos_opened [simp]:
  "\<not> ramfs_bad h w \<Longrightarrow> ramfs_opened (set_ramfs_pos h p w) = ramfs_opened w"
  "\<not> ramfs_bad h w \<Longrightarrow> ramfs_clean w \<Longrightarrow> ramfs_clean (set_ramfs_pos h p w)"
  by (auto simp: fun_eq_iff ramfs_opened_def ramfs_clean_def set_ramfs_pos_def ramfs_bad_def)

lemma ramfs_mem_opened [simp]:
  "ramfs_opened (w\<lparr>wmem := m\<rparr>) = ramfs_opened w" "ramfs_clean (w\<lparr>wmem := m\<rparr>) = ramfs_clean w"
  "ramfs_bad h (w\<lparr>wmem := m\<rparr>) = ramfs_bad h w"
  by (simp_all add: fun_eq_iff ramfs_opened_def ramfs_clean_def ramfs_bad_def)

interpretation rfs: file_system ramfs_open ramfs_close ramfs_read ramfs_write ramfs_seek ramfs_opened ramfs_clean
proof
  fix s s' :: world and path flags h
  assume o: "ramfs_open path flags s = (h, s')"
  show "s' = s" if "sint h < 0"
  proof (rule ramfs_open_cases [of path flags s])
    fix fi i
    assume "ramfs_open path flags s = (of_nat i, s\<lparr>ramfs_handles := (ramfs_handles s)(i := \<lparr>rh_file = Some fi, rh_pos = 0\<rparr>)\<rparr>)"
      and "i < 32"
    then show ?thesis using that o sint_of_nat_slot [of i] by simp
  qed (use o in simp)
  show "unat h < 32 \<and> \<not> ramfs_opened s (unat h) \<and> ramfs_opened s' = (ramfs_opened s)(unat h := True) \<and>
      ramfs_clean s' \<and> ramfs_close h s' = (0, s)" if c: "ramfs_clean s" and "0 \<le> sint h"
  proof (cases rule: ramfs_open_cases [of path flags s])
    case (none e)
    then show ?thesis using o that by simp
  next
    case (some fi i)
    have u: "unat h = i" "h = of_nat i" using some o by (simp_all add: unat_of_nat_small)
    have s': "s' = s\<lparr>ramfs_handles := (ramfs_handles s)(i := \<lparr>rh_file = Some fi, rh_pos = 0\<rparr>)\<rparr>"
      using some o by simp
    have "\<not> ramfs_bad h s'" using some(2) u unfolding s' by (simp add: ramfs_bad_def)
    moreover have "(ramfs_handles s)(i := \<lparr>rh_file = None, rh_pos = 0\<rparr>) = ramfs_handles s"
      using c some(3) by (auto simp: ramfs_clean_def ramfs_opened_def no_ramfs_handle_def)
    ultimately have "ramfs_close h s' = (0, s)"
      using u by (simp add: ramfs_close_def s')
    then show ?thesis using u some(2,3) c
      by (auto simp: s' ramfs_opened_def ramfs_clean_def fun_eq_iff)
  qed
next
  fix s :: world and h buf n off wh
  show "\<exists>s'. ramfs_close h s = (0, s') \<and> ramfs_clean s' \<and> ramfs_opened s' = (ramfs_opened s)(unat h := False)"
    if "ramfs_clean s" and "unat h < 32" and "ramfs_opened s (unat h)"
  proof -
    have "\<not> ramfs_bad h s" using that by (simp add: ramfs_bad_iff out_of_table_unat [symmetric])
    then show ?thesis using that
      by (auto simp: ramfs_close_def ramfs_clean_def ramfs_opened_def no_ramfs_handle_def fun_eq_iff)
  qed
  show "ramfs_close h s = (EBADF, s) \<and> ramfs_read h buf n s = (EBADF, s)"
    if "out_of_table h \<or> \<not> ramfs_opened s (unat h)"
    using that by (simp add: ramfs_close_def ramfs_read_def ramfs_bad_iff)
  show "ramfs_opened (snd (ramfs_read h buf n s)) = ramfs_opened s"
    by (simp add: ramfs_read_def Let_def)
  show "ramfs_clean (snd (ramfs_read h buf n s))" if "ramfs_clean s"
    using that by (simp add: ramfs_read_def Let_def)
  show "ramfs_opened (snd (ramfs_seek h off wh s)) = ramfs_opened s"
    by (simp add: ramfs_seek_def Let_def)
  show "ramfs_clean (snd (ramfs_seek h off wh s))" if "ramfs_clean s"
    using that by (simp add: ramfs_seek_def Let_def)
qed (simp_all add: ramfs_write_def)

section \<open>Reading and seeking\<close>

definition file_bytes :: "ramfs_file \<Rightarrow> mem \<Rightarrow> u8 list" where
  "file_bytes f m = map (\<lambda>i. m (rf_data f + of_nat i)) [0..<unat (rf_size f)]"

lemma length_file_bytes [simp]: "length (file_bytes f m) = unat (rf_size f)"
  by (simp add: file_bytes_def)

lemma file_bytes_nth: "i < unat (rf_size f) \<Longrightarrow> file_bytes f m ! i = m (rf_data f + of_nat i)"
  by (simp add: file_bytes_def)

abbreviation handle_pos :: "u32 \<Rightarrow> world \<Rightarrow> u32" where
  "handle_pos h w \<equiv> rh_pos (ramfs_handles w (unat h))"

lemma set_ramfs_pos_simps [simp]:
  "handle_pos h (set_ramfs_pos h p w) = p" "wmem (set_ramfs_pos h p w) = wmem w"
  by (simp_all add: set_ramfs_pos_def)

lemma u32_lt: "unat (x :: u32) < 4294967296"
proof -
  have "unat x < 2 ^ LENGTH(32)" by (rule unsigned_less)
  then show ?thesis by simp
qed

lemma ramfs_read_clamp:
  assumes "pos < size'" and "unat pos + unat count < 2 ^ 32"
  shows "(if pos + count > size' then size' - pos else (count :: u32)) =
    of_nat (min (unat count) (unat size' - unat pos))"
proof -
  have s: "unat (pos + count) = unat pos + unat count" using assms(2) by (simp add: unat_word_ariths)
  have d: "unat (size' - pos) = unat size' - unat pos" using assms(1) by (intro unat_sub) simp
  show ?thesis
  proof (cases "pos + count > size'")
    case True
    then have "min (unat count) (unat size' - unat pos) = unat (size' - pos)"
      using s d by (simp add: word_less_nat_alt)
    then show ?thesis using True by simp
  next
    case False
    then have "min (unat count) (unat size' - unat pos) = unat count"
      using s by (simp add: word_less_nat_alt)
    then show ?thesis using False by simp
  qed
qed

lemma uint_add_sint:
  "uint (b + off :: u32) = (int (unat b) + sint off) mod 4294967296"
proof -
  have "uint (b + off) = (uint b + uint off) mod 4294967296" by (simp add: uint_word_ariths)
  also have "uint off = sint off mod 4294967296" by (simp add: uint_sint take_bit_eq_mod)
  finally show ?thesis by (simp add: mod_simps)
qed

lemma sint_nonneg_u32: "unat (x :: u32) < 2 ^ 31 \<Longrightarrow> sint x = int (unat x)"
  by (subst sint_small) (simp_all flip: nat_uint_eq)

lemma seek_clamp:
  fixes b off size' :: u32
  assumes "unat b \<le> unat size'" and "unat size' < 2 ^ 31"
  shows "sint (if b + off > size' then size' else b + off) =
    (if 0 \<le> int (unat b) + sint off \<and> int (unat b) + sint off \<le> int (unat size')
     then int (unat b) + sint off else int (unat size'))"
proof -
  let ?t = "int (unat b) + sint off"
  have "- 2147483648 \<le> sint off" "sint off < 2147483648" "unat size' < 2147483648"
    using sint_less [of off] sint_greater_eq [of off] assms(2) by simp_all
  then have range: "- 2147483648 \<le> ?t" "?t < 4294967296" using assms(1) by linarith+
  have gt: "b + off > size' \<longleftrightarrow> int (unat size') < ?t mod 4294967296"
    by (simp add: word_less_def uint_add_sint)
  show ?thesis
  proof (cases "0 \<le> ?t")
    case True
    then have m: "?t mod 4294967296 = ?t" using range by simp
    show ?thesis
    proof (cases "?t \<le> int (unat size')")
      case le: True
      have "int (unat (b + off)) = ?t" using uint_add_sint [of b off] m by simp
      moreover have "unat (b + off) < 2 ^ 31" using calculation le assms(2) by linarith
      ultimately show ?thesis using le True gt m by (simp add: sint_nonneg_u32)
    next
      case False
      then show ?thesis using gt m assms(2) by (simp add: sint_nonneg_u32)
    qed
  next
    case False
    have "?t mod 4294967296 = (?t + 4294967296) mod 4294967296" by simp
    also have "\<dots> = ?t + 4294967296" using False range by (intro mod_pos_pos_trivial) simp_all
    finally have eq: "?t mod 4294967296 = ?t + 4294967296" .
    have "unat size' < 2147483648" using assms(2) by simp
    then have "b + off > size'" unfolding gt eq using range(1) by linarith
    then show ?thesis using False assms(2) by (simp add: sint_nonneg_u32)
  qed
qed

lemma ramfs_read_file:
  assumes "\<not> ramfs_bad h w" and "unat (handle_pos h w) + unat count < 2 ^ 32"
    and "unat (rf_data (handle_file h w)) + unat (rf_size (handle_file h w)) \<le> 2 ^ 32"
    and "unat buf + unat count \<le> 2 ^ 32"
    and "unat buf + unat count \<le> unat (rf_data (handle_file h w)) \<or>
      unat (rf_data (handle_file h w)) + unat (rf_size (handle_file h w)) \<le> unat buf"
  shows "case ramfs_read h buf count w of (r, w') \<Rightarrow>
    let n = min (unat count) (unat (rf_size (handle_file h w)) - unat (handle_pos h w))
    in r = of_nat n \<and> handle_pos h w' = handle_pos h w + of_nat n \<and>
       (\<forall>i<n. wmem w' (buf + of_nat i) =
          file_bytes (handle_file h w) (wmem w) ! (unat (handle_pos h w) + i)) \<and>
       (\<forall>a. a \<notin> span buf n \<longrightarrow> wmem w' a = wmem w a)"
proof (cases "handle_pos h w < rf_size (handle_file h w)")
  case False
  then have "unat (rf_size (handle_file h w)) - unat (handle_pos h w) = 0" by (simp add: word_less_nat_alt)
  then show ?thesis using assms(1) False by (simp add: ramfs_read_def Let_def not_less)
next
  case True
  let ?pos = "handle_pos h w" and ?f = "handle_file h w"
  let ?n = "min (unat count) (unat (rf_size ?f) - unat ?pos)"
  have lt: "unat ?pos < unat (rf_size ?f)" using True by (simp add: word_less_nat_alt)
  have n: "?n < 2 ^ 32" using u32_lt [of count] by simp
  then have un: "unat (of_nat ?n :: u32) = ?n" by (intro unat_of_nat_small) simp
  have src: "unat (rf_data ?f + ?pos) = unat (rf_data ?f) + unat ?pos"
    using assms(3) lt by (intro unat_add_no_wrap) simp
  let ?m = "memcpy buf (rf_data ?f + ?pos) (of_nat ?n) (wmem w)"
  have copied: "?m a = (if a - buf < of_nat ?n then wmem w (rf_data ?f + ?pos + (a - buf)) else wmem w a)" for a
  proof (rule memcpy_byte)
    show "unat buf + unat (of_nat ?n :: u32) \<le> 2 ^ 32" unfolding un using assms(4) by simp
    show "unat (rf_data ?f + ?pos) + unat (of_nat ?n :: u32) \<le> 2 ^ 32" unfolding un src using assms(3) lt by simp
    show "buf < rf_data ?f + ?pos \<or> unat (rf_data ?f + ?pos) + unat (of_nat ?n :: u32) \<le> unat buf"
      unfolding un src word_less_nat_alt using assms(5) lt by auto
  qed
  have r: "ramfs_read h buf count w =
      (of_nat ?n, set_ramfs_pos h (?pos + of_nat ?n) (w\<lparr>wmem := ?m\<rparr>))"
    using assms(1) True unfolding ramfs_read_def Let_def ramfs_read_clamp [OF True assms(2)]
    by (simp add: not_le [symmetric] del: of_nat_diff)
  have "\<forall>i<?n. ?m (buf + of_nat i) = file_bytes ?f (wmem w) ! (unat ?pos + i)"
  proof (intro allI impI)
    fix i assume i: "i < ?n"
    then have "(buf + of_nat i) - buf < of_nat ?n" using un by (intro off_lt) simp
    then have "?m (buf + of_nat i) = wmem w (rf_data ?f + ?pos + of_nat i)" unfolding copied by simp
    moreover have "rf_data ?f + of_nat (unat ?pos + i) = rf_data ?f + ?pos + of_nat i" by (simp add: add.assoc)
    moreover have "file_bytes ?f (wmem w) ! (unat ?pos + i) = wmem w (rf_data ?f + of_nat (unat ?pos + i))"
      by (rule file_bytes_nth) (use i lt in linarith)
    ultimately show "?m (buf + of_nat i) = file_bytes ?f (wmem w) ! (unat ?pos + i)" by (simp add: add.assoc)
  qed
  moreover have "\<forall>a. a \<notin> span buf ?n \<longrightarrow> ?m a = wmem w a"
    using n un by (auto simp: copied span_iff word_less_nat_alt)
  ultimately show ?thesis unfolding r by (simp add: Let_def)
qed

section \<open>Properties\<close>

text \<open>
  C36: ramfs_read of a file that lies in memory without wrapping, into a buffer apart from it and with
  position plus count below 2^32, returns the number of bytes left or asked for, whichever is smaller,
  copies exactly these bytes of the file from the position on, advances the position by it and changes
  no other byte.
\<close>

theorem ramfs_read_spec:
  assumes "\<not> ramfs_bad h w" and "unat (handle_pos h w) + unat count < 2 ^ 32"
    and "unat (rf_data (handle_file h w)) + unat (rf_size (handle_file h w)) \<le> 2 ^ 32"
    and "unat buf + unat count \<le> 2 ^ 32"
    and "unat buf + unat count \<le> unat (rf_data (handle_file h w)) \<or>
      unat (rf_data (handle_file h w)) + unat (rf_size (handle_file h w)) \<le> unat buf"
  shows "case ramfs_read h buf count w of (r, w') \<Rightarrow>
    let n = min (unat count) (unat (rf_size (handle_file h w)) - unat (handle_pos h w))
    in r = of_nat n \<and> handle_pos h w' = handle_pos h w + of_nat n \<and>
       (\<forall>i<n. wmem w' (buf + of_nat i) =
          file_bytes (handle_file h w) (wmem w) ! (unat (handle_pos h w) + i)) \<and>
       (\<forall>a. a \<notin> span buf n \<longrightarrow> wmem w' a = wmem w a)"
  using assms by (rule ramfs_read_file)

text \<open>One file of 10 bytes at address 4096, opened and read up to position 4.\<close>

definition demo_world :: "u32 \<Rightarrow> world" where
  "demo_world p = world_bss\<lparr>ramfs_files := [\<lparr>rf_name = [102], rf_data = 4096, rf_size = 10, rf_mode = 0x124, rf_type = 1\<rparr>],
     ramfs_handles := (\<lambda>_. no_ramfs_handle)(0 := \<lparr>rh_file = Some 0, rh_pos = p\<rparr>)\<rparr>"

lemma demo_world_simps [simp]:
  "\<not> ramfs_bad 0 (demo_world p)" "rh_pos (ramfs_handles (demo_world p) 0) = p"
  "rf_data (handle_file 0 (demo_world p)) = 4096" "rf_size (handle_file 0 (demo_world p)) = 10"
  by (simp_all add: demo_world_def ramfs_bad_def handle_file_def out_of_table_def)

theorem ramfs_read_spec_witness:
  "\<exists>w'. ramfs_read 0 64 100 (demo_world 4) = (6, w') \<and> handle_pos 0 w' = 10"
  using ramfs_read_spec [of 0 "demo_world 4" 100 64] by (auto simp: Let_def split: prod.splits)

text \<open>
  C40: When position plus count wraps around 2^32 the clamp of ramfs_read does not apply: it copies
  and reports count bytes, more than the file has left.
\<close>

theorem ramfs_read_overruns:
  assumes "\<not> ramfs_bad h w" and "handle_pos h w < rf_size (handle_file h w)"
    and "2 ^ 32 \<le> unat (handle_pos h w) + unat count"
  shows "fst (ramfs_read h buf count w) = count \<and>
    unat (rf_size (handle_file h w)) - unat (handle_pos h w) < unat count \<and>
    wmem (snd (ramfs_read h buf count w)) =
      memcpy buf (rf_data (handle_file h w) + handle_pos h w) count (wmem w)"
proof -
  let ?pos = "handle_pos h w" and ?f = "handle_file h w"
  have b: "unat ?pos < 2 ^ 32" "unat count < 2 ^ 32" using u32_lt [of ?pos] u32_lt [of count] by simp_all
  have "unat (?pos + count) = unat ?pos + unat count - 2 ^ 32"
    using assms(3) b by (simp add: unat_word_ariths le_mod_geq)
  then have "\<not> ?pos + count > rf_size ?f" using assms(2) b by (simp add: word_less_nat_alt)
  moreover have "unat (rf_size ?f) - unat ?pos < unat count"
    using assms(2,3) u32_lt [of "rf_size ?f"] by (simp add: word_less_nat_alt)
  ultimately show ?thesis using assms(1,2) by (simp add: ramfs_read_def Let_def linorder_not_le [THEN iffD2, OF assms(2)])
qed

theorem ramfs_read_overruns_witness:
  "fst (ramfs_read 0 64 0xFFFFFFFF (demo_world 4)) = 0xFFFFFFFF"
  using ramfs_read_overruns [of 0 "demo_world 4" "0xFFFFFFFF" 64] by simp

theorem ramfs_seek_clamps:
  assumes "\<not> ramfs_bad h w" and "whence \<in> {0, 1, 2}"
    and "unat (handle_pos h w) \<le> unat (rf_size (handle_file h w))" and "unat (rf_size (handle_file h w)) < 2 ^ 31"
  shows "case ramfs_seek h offset whence w of (r, w') \<Rightarrow>
    let size' = int (unat (rf_size (handle_file h w)));
        base = (if whence = 0 then 0 else if whence = 1 then int (unat (handle_pos h w)) else size');
        target = base + sint offset
    in sint r = (if 0 \<le> target \<and> target \<le> size' then target else size') \<and> handle_pos h w' = r"
proof -
  let ?pos = "handle_pos h w" and ?f = "handle_file h w"
  let ?b = "if whence = 0 then 0 else if whence = 1 then ?pos else rf_size ?f"
  let ?p = "if ?b + offset > rf_size ?f then rf_size ?f else ?b + offset"
  have "unat ?b \<le> unat (rf_size ?f)" using assms(3) by simp
  note clamp = seek_clamp [OF this assms(4), of offset]
  have r: "ramfs_seek h offset whence w = (?p, set_ramfs_pos h ?p w)"
    using assms(1,2) by (auto simp: ramfs_seek_def Let_def)
  have b: "int (unat ?b) = (if whence = 0 then 0 else if whence = 1 then int (unat ?pos) else int (unat (rf_size ?f)))"
    by simp
  show ?thesis unfolding r Let_def prod.case clamp b [symmetric] by simp
qed

theorem ramfs_seek_clamps_witness:
  "sint (fst (ramfs_seek 0 (- 3) 2 (demo_world 4))) = 7 \<and>
   sint (fst (ramfs_seek 0 (- 1) 0 (demo_world 4))) = 10"
  using ramfs_seek_clamps [of 0 "demo_world 4" 2 "- 3"] ramfs_seek_clamps [of 0 "demo_world 4" 0 "- 1"]
  by (simp_all add: Let_def case_prod_beta)

end
