(* ===== verification/Devfs.thy ===== *)
theory Devfs
  imports FsTypes
begin

text \<open>
  The device file system of \<open>kernel/fs/devfs.c\<close>: console, null and zero. The console reads the
  keyboard's ring buffer and writes the text console. Registration with the virtual file system is
  in the theory of that component.
\<close>

section \<open>Operations\<close>

definition devfs_resolve_device :: "u8 list \<Rightarrow> u32" where
  "devfs_resolve_device path =
     (if path = [47, 100, 101, 118, 47, 99, 111, 110, 115, 111, 108, 101] then DEVICE_CONSOLE
      else if path = [47, 100, 101, 118, 47, 110, 117, 108, 108] then DEVICE_NULL
      else if path = [47, 100, 101, 118, 47, 122, 101, 114, 111] then DEVICE_ZERO
      else - 1)"

definition devfs_open :: "u8 list \<Rightarrow> u32 \<Rightarrow> world \<Rightarrow> u32 \<times> world" where
  "devfs_open path flags w =
     (let device = devfs_resolve_device path
      in if device = - 1 then (ENOENT, w)
      else case free_slot (\<lambda>i. dh_device (devfs_handles w i) = 0) 0 of
             None \<Rightarrow> (EMFILE, w)
           | Some handle \<Rightarrow>
               (of_nat handle,
                w\<lparr>devfs_handles := (devfs_handles w)(handle := \<lparr>dh_device = device, dh_pos = 0\<rparr>)\<rparr>))"

definition devfs_bad :: "u32 \<Rightarrow> world \<Rightarrow> bool" where
  "devfs_bad handle w \<longleftrightarrow> out_of_table handle \<or> dh_device (devfs_handles w (unat handle)) = 0"

definition devfs_close :: "u32 \<Rightarrow> world \<Rightarrow> u32 \<times> world" where
  "devfs_close handle w =
     (if devfs_bad handle w then (EBADF, w)
      else (0, w\<lparr>devfs_handles := (devfs_handles w)(unat handle := \<lparr>dh_device = 0, dh_pos = 0\<rparr>)\<rparr>))"

text \<open>The loop of a console read, which ends at a newline or when the keyboard has nothing.\<close>

function console_read_loop :: "u32 \<Rightarrow> u32 \<Rightarrow> u32 \<Rightarrow> world \<Rightarrow> u32 \<times> world" where
  "console_read_loop buffer count read_count w =
     (if read_count < count then
        let (c, k) = keyboard_get_char (wkbd w);
            w = w\<lparr>wkbd := k\<rparr>
        in if c \<noteq> 0 then
             let w = w\<lparr>wmem := (wmem w)(buffer + read_count := c)\<rparr>;
                 read_count = read_count + 1
             in if c = 10 then (read_count, w) else console_read_loop buffer count read_count w
           else (read_count, w)
      else (read_count, w))"
  by pat_completeness auto

lemma unat_count_up: "i < (n :: u32) \<Longrightarrow> unat (i + 1) = Suc (unat i)"
proof -
  assume "i < n"
  then have "unat i < unat n" by (simp add: word_less_nat_alt)
  moreover have "unat n < 2 ^ LENGTH(32)" by (rule unsigned_less)
  ultimately show ?thesis by (simp add: unat_word_ariths)
qed

termination console_read_loop
  by (relation "measure (\<lambda>(buffer, count, read_count, w). unat count - unat read_count)")
    (auto simp: unat_count_up word_less_nat_alt)

declare console_read_loop.simps [simp del]

definition devfs_read :: "u32 \<Rightarrow> u32 \<Rightarrow> u32 \<Rightarrow> world \<Rightarrow> u32 \<times> world" where
  "devfs_read handle buf count w =
     (if devfs_bad handle w then (EBADF, w)
      else
        let device = dh_device (devfs_handles w (unat handle))
        in if device = DEVICE_CONSOLE then console_read_loop buf count 0 w
           else if device = DEVICE_NULL then (0, w)
           else if device = DEVICE_ZERO then (count, w\<lparr>wmem := memset buf 0 count (wmem w)\<rparr>)
           else (EIO, w))"

text \<open>The loop over a buffer that passes its bytes to \<open>fb_putchar\<close>.\<close>

definition put_bytes :: "u32 \<Rightarrow> u32 \<Rightarrow> world \<Rightarrow> world" where
  "put_bytes buffer count w =
     fold (\<lambda>i w. w\<lparr>wcon := fb_putchar (wmem w (buffer + of_nat i)) (wcon w)\<rparr>) [0..<unat count] w"

definition devfs_write :: "u32 \<Rightarrow> u32 \<Rightarrow> u32 \<Rightarrow> world \<Rightarrow> u32 \<times> world" where
  "devfs_write handle buf count w =
     (if devfs_bad handle w then (EBADF, w)
      else
        let device = dh_device (devfs_handles w (unat handle))
        in if device = DEVICE_CONSOLE then (count, put_bytes buf count w)
           else if device = DEVICE_NULL then (count, w)
           else if device = DEVICE_ZERO then (count, w)
           else (EIO, w))"

definition devfs_seek :: "u32 \<Rightarrow> u32 \<Rightarrow> u32 \<Rightarrow> world \<Rightarrow> u32 \<times> world" where
  "devfs_seek handle offset whence w = (EINVAL, w)"

text \<open>The store of a 32-bit zero.\<close>

definition store_zero32 :: "u32 \<Rightarrow> mem \<Rightarrow> mem" where
  "store_zero32 p m = m(p := 0, p + 1 := 0, p + 2 := 0, p + 3 := 0)"

definition devfs_ioctl :: "u32 \<Rightarrow> u32 \<Rightarrow> u32 \<Rightarrow> world \<Rightarrow> u32 \<times> world" where
  "devfs_ioctl handle request argp w =
     (if devfs_bad handle w then (EBADF, w)
      else if dh_device (devfs_handles w (unat handle)) = DEVICE_CONSOLE then
        if request = 1 then (0, w\<lparr>wcon := fb_clear (wcon w)\<rparr>)
        else if request = 2 \<and> argp \<noteq> 0 then (0, w\<lparr>wmem := store_zero32 argp (wmem w)\<rparr>)
        else (EINVAL, w)
      else (EINVAL, w))"

definition devfs_stat :: "u8 list \<Rightarrow> world \<Rightarrow> u32 \<times> file_stat option" where
  "devfs_stat path w =
     (let device = devfs_resolve_device path
      in if device = - 1 then (ENOENT, None)
         else (0, Some \<lparr>st_size = 0, st_mode = 0x1B6, st_type = FT_CHAR_DEVICE, st_inode = device\<rparr>))"

text \<open>\<open>devfs_init\<close> up to the registration.\<close>

definition devfs_load :: "world \<Rightarrow> world" where
  "devfs_load w = w\<lparr>devfs_handles := (\<lambda>_. no_devfs_handle)\<rparr>"

section \<open>Handles\<close>

definition devfs_opened :: "world \<Rightarrow> nat \<Rightarrow> bool" where
  "devfs_opened w i \<longleftrightarrow> dh_device (devfs_handles w i) \<noteq> 0"

definition devfs_clean :: "world \<Rightarrow> bool" where
  "devfs_clean w \<longleftrightarrow> (\<forall>i. dh_device (devfs_handles w i) = 0 \<longrightarrow> devfs_handles w i = no_devfs_handle)"

lemma devfs_bad_iff: "devfs_bad h w \<longleftrightarrow> out_of_table h \<or> \<not> devfs_opened w (unat h)"
  by (simp add: devfs_bad_def devfs_opened_def)

lemma resolve_device_nonzero: "devfs_resolve_device path \<noteq> 0"
  by (simp add: devfs_resolve_device_def)

lemma devfs_open_cases:
  obtains (none) e where "devfs_open path flags w = (e, w)" and "sint e < 0"
  | (some) d i where "devfs_open path flags w =
        (of_nat i, w\<lparr>devfs_handles := (devfs_handles w)(i := \<lparr>dh_device = d, dh_pos = 0\<rparr>)\<rparr>)"
      and "i < 32" and "\<not> devfs_opened w i" and "d = devfs_resolve_device path" and "d \<noteq> 0"
proof (cases "devfs_resolve_device path = - 1")
  case True
  then show thesis using none [of ENOENT] by (simp add: devfs_open_def)
next
  case dev: False
  show thesis
  proof (cases "free_slot (\<lambda>i. dh_device (devfs_handles w i) = 0) 0")
    case None
    then show thesis using dev none [of EMFILE] by (simp add: devfs_open_def)
  next
    case (Some i)
    then show thesis using dev free_slot_Some [OF Some] resolve_device_nonzero [of path]
        some [of i "devfs_resolve_device path"]
      by (simp add: devfs_open_def devfs_opened_def)
  qed
qed

lemma console_read_handles: "devfs_handles (snd (console_read_loop buf count rc w)) = devfs_handles w"
proof (induction buf count rc w rule: console_read_loop.induct)
  case (1 buf count rc w)
  show ?case
    by (subst console_read_loop.simps) (auto simp: Let_def split: prod.splits dest: 1 [rotated -1])
qed

lemma put_bytes_handles: "devfs_handles (put_bytes buf count w) = devfs_handles w"
proof -
  have "devfs_handles (fold (\<lambda>i w. w\<lparr>wcon := fb_putchar (wmem w (buf + of_nat i)) (wcon w)\<rparr>) xs w) = devfs_handles w" for xs
    by (induction xs arbitrary: w) simp_all
  then show ?thesis by (simp add: put_bytes_def)
qed

lemma devfs_read_handles [simp]: "devfs_handles (snd (devfs_read h buf n w)) = devfs_handles w"
  by (simp add: devfs_read_def Let_def console_read_handles)

lemma devfs_write_handles [simp]: "devfs_handles (snd (devfs_write h buf n w)) = devfs_handles w"
  by (simp add: devfs_write_def Let_def put_bytes_handles)

lemma devfs_opened_cong: "devfs_handles w = devfs_handles v \<Longrightarrow> devfs_opened w = devfs_opened v"
  by (simp add: fun_eq_iff devfs_opened_def)

lemma devfs_clean_cong: "devfs_handles w = devfs_handles v \<Longrightarrow> devfs_clean w = devfs_clean v"
  by (simp add: devfs_clean_def)

interpretation dfs: file_system devfs_open devfs_close devfs_read devfs_write devfs_seek devfs_opened devfs_clean
proof
  fix s s' :: world and path flags h
  assume o: "devfs_open path flags s = (h, s')"
  show "s' = s" if "sint h < 0"
  proof (rule devfs_open_cases [of path flags s])
    fix d i
    assume "devfs_open path flags s = (of_nat i, s\<lparr>devfs_handles := (devfs_handles s)(i := \<lparr>dh_device = d, dh_pos = 0\<rparr>)\<rparr>)"
      and "i < 32"
    then show ?thesis using that o sint_of_nat_slot [of i] by simp
  qed (use o in simp)
  show "unat h < 32 \<and> \<not> devfs_opened s (unat h) \<and> devfs_opened s' = (devfs_opened s)(unat h := True) \<and>
      devfs_clean s' \<and> devfs_close h s' = (0, s)" if c: "devfs_clean s" and "0 \<le> sint h"
  proof (cases rule: devfs_open_cases [of path flags s])
    case (none e)
    then show ?thesis using o that by simp
  next
    case (some d i)
    have u: "unat h = i" "h = of_nat i" using some o by (simp_all add: unat_of_nat_small)
    have s': "s' = s\<lparr>devfs_handles := (devfs_handles s)(i := \<lparr>dh_device = d, dh_pos = 0\<rparr>)\<rparr>"
      using some o by simp
    have "\<not> devfs_bad h s'" using some(2,5) u unfolding s' by (simp add: devfs_bad_def)
    moreover have "(devfs_handles s)(i := \<lparr>dh_device = 0, dh_pos = 0\<rparr>) = devfs_handles s"
      using c some(3) by (auto simp: devfs_clean_def devfs_opened_def no_devfs_handle_def)
    ultimately have "devfs_close h s' = (0, s)"
      using u by (simp add: devfs_close_def s')
    then show ?thesis using u some(2,3,5) c
      by (auto simp: s' devfs_opened_def devfs_clean_def fun_eq_iff)
  qed
next
  fix s :: world and h buf n off wh
  show "\<exists>s'. devfs_close h s = (0, s') \<and> devfs_clean s' \<and> devfs_opened s' = (devfs_opened s)(unat h := False)"
    if "devfs_clean s" and "unat h < 32" and "devfs_opened s (unat h)"
  proof -
    have "\<not> devfs_bad h s" using that by (simp add: devfs_bad_iff out_of_table_unat [symmetric])
    then show ?thesis using that
      by (auto simp: devfs_close_def devfs_clean_def devfs_opened_def no_devfs_handle_def fun_eq_iff)
  qed
  show "devfs_close h s = (EBADF, s) \<and> devfs_read h buf n s = (EBADF, s)"
    if "out_of_table h \<or> \<not> devfs_opened s (unat h)"
    using that by (simp add: devfs_close_def devfs_read_def devfs_bad_iff)
  show "devfs_opened (snd (devfs_read h buf n s)) = devfs_opened s"
    by (intro devfs_opened_cong) simp
  show "devfs_clean (snd (devfs_read h buf n s))" if "devfs_clean s"
    using that devfs_clean_cong [of "snd (devfs_read h buf n s)" s] by simp
  show "devfs_opened (snd (devfs_write h buf n s)) = devfs_opened s"
    by (intro devfs_opened_cong) simp
  show "devfs_clean (snd (devfs_write h buf n s))" if "devfs_clean s"
    using that devfs_clean_cong [of "snd (devfs_write h buf n s)" s] by simp
qed (simp_all add: devfs_seek_def)

section \<open>Reading the console\<close>

text \<open>
  What a reader of \<open>n\<close> bytes gets from a queue of characters: at most \<open>n\<close>, and nothing after a
  newline.
\<close>

fun console_line :: "nat \<Rightarrow> u8 list \<Rightarrow> u8 list" where
  "console_line 0 q = []"
| "console_line (Suc n) [] = []"
| "console_line (Suc n) (c # q) = (if c = 10 then [c] else c # console_line n q)"

lemma console_line_prefix: "console_line n q = take (length (console_line n q)) q"
  by (induction n q rule: console_line.induct) simp_all

lemma console_line_complete:
  "10 \<notin> set q \<Longrightarrow> console_line n q = take n q"
  by (induction n q rule: console_line.induct) auto

lemma console_read_loop_spec:
  "kbd_ok (wkbd w) \<Longrightarrow> pending (wkbd w) = q \<Longrightarrow> 0 \<notin> set q \<Longrightarrow> unat rc + n = unat count \<Longrightarrow>
   \<exists>k. console_read_loop buf count rc w =
       (rc + of_nat (length (console_line n q)),
        w\<lparr>wkbd := k, wmem := store (buf + rc) (console_line n q) (wmem w)\<rparr>) \<and>
     kbd_ok k \<and> pending k = drop (length (console_line n q)) q"
proof (induction n q arbitrary: rc w rule: console_line.induct)
  case (1 q)
  then have "\<not> rc < count" by (simp add: word_less_nat_alt)
  then show ?case using 1 by (intro exI [of _ "wkbd w"]) (simp add: console_read_loop.simps)
next
  case (2 n)
  then have "rc < count" by (simp add: word_less_nat_alt)
  then show ?case using 2 kq.get_nothing [OF 2(1,2)]
    by (intro exI [of _ "wkbd w"]) (simp add: console_read_loop.simps)
next
  case (3 n c q)
  have lt: "rc < count" using 3(5) by (simp add: word_less_nat_alt)
  obtain k where k: "keyboard_get_char (wkbd w) = (c, k)" "kbd_ok k" "pending k = q"
    using kq.get_item [OF 3(2,3)] by blast
  have c: "c \<noteq> 0" "0 \<notin> set q" using 3(4) by auto
  let ?w = "w\<lparr>wkbd := k, wmem := (wmem w)(buf + rc := c)\<rparr>"
  have step: "console_read_loop buf count rc w =
      (if c = 10 then (rc + 1, ?w) else console_read_loop buf count (rc + 1) ?w)"
    using lt k c by (subst console_read_loop.simps) (simp add: Let_def)
  show ?case
  proof (cases "c = 10")
    case True
    then show ?thesis using k by (intro exI [of _ k]) (simp add: step fun_upd_def)
  next
    case False
    have "unat (rc + 1) + n = unat count" using unat_count_up [OF lt] 3(5) by simp
    then have "\<exists>k'. console_read_loop buf count (rc + 1) ?w =
       (rc + 1 + of_nat (length (console_line n q)),
        ?w\<lparr>wkbd := k', wmem := store (buf + (rc + 1)) (console_line n q) (wmem ?w)\<rparr>) \<and>
     kbd_ok k' \<and> pending k' = drop (length (console_line n q)) q"
      using k c by (intro 3(1) [OF False]) simp_all
    then show ?thesis using False by (auto simp: step add.assoc)
  qed
qed

section \<open>Properties\<close>

theorem devfs_console_read:
  assumes "\<not> devfs_bad h w" and "dh_device (devfs_handles w (unat h)) = DEVICE_CONSOLE"
    and "kbd_ok (wkbd w)" and "0 \<notin> set (pending (wkbd w))"
  shows "let l = console_line (unat count) (pending (wkbd w))
    in \<exists>k. devfs_read h buf count w =
         (of_nat (length l), w\<lparr>wkbd := k, wmem := store buf l (wmem w)\<rparr>) \<and>
       kbd_ok k \<and> pending (wkbd w) = l @ pending k"
proof -
  let ?q = "pending (wkbd w)"
  let ?l = "console_line (unat count) ?q"
  obtain k where k: "console_read_loop buf count 0 w =
       (of_nat (length ?l), w\<lparr>wkbd := k, wmem := store buf ?l (wmem w)\<rparr>)"
    "kbd_ok k" "pending k = drop (length ?l) ?q"
    using console_read_loop_spec [OF assms(3) refl assms(4), of 0 "unat count" count buf] by auto
  have "?q = ?l @ pending k"
    unfolding k(3) using console_line_prefix [of "unat count" ?q] by (metis append_take_drop_id)
  then show ?thesis using assms(1,2) k by (auto simp: devfs_read_def Let_def)
qed

text \<open>The console opened as handle 0 and two characters typed.\<close>

definition typed_world :: world where
  "typed_world = world_bss\<lparr>wkbd := kbuf_put 10 (kbuf_put 97 kbd_bss),
     devfs_handles := (\<lambda>_. no_devfs_handle)(0 := \<lparr>dh_device = 1, dh_pos = 0\<rparr>)\<rparr>"

lemma typed_world_kbd: "kbd_ok (wkbd typed_world) \<and> pending (wkbd typed_world) = [97, 10]"
  using kq.puts_items [of kbd_bss "[97, 10]"] by (simp add: typed_world_def kbd_bss_ok)

theorem devfs_console_read_witness:
  "\<exists>k. devfs_read 0 64 100 typed_world = (2, typed_world\<lparr>wkbd := k, wmem := (wmem typed_world)(64 := 97, 65 := 10)\<rparr>)"
proof -
  have "\<not> devfs_bad 0 typed_world" "dh_device (devfs_handles typed_world (unat 0)) = DEVICE_CONSOLE"
    by (simp_all add: devfs_bad_def typed_world_def out_of_table_def)
  moreover have "0 \<notin> set (pending (wkbd typed_world))" using typed_world_kbd by simp
  ultimately have "let l = console_line (unat (100 :: u32)) (pending (wkbd typed_world))
    in \<exists>k. devfs_read 0 64 100 typed_world =
         (of_nat (length l), typed_world\<lparr>wkbd := k, wmem := store 64 l (wmem typed_world)\<rparr>) \<and>
       kbd_ok k \<and> pending (wkbd typed_world) = l @ pending k"
    using typed_world_kbd by (intro devfs_console_read) simp_all
  moreover have "unat (100 :: u32) = Suc (Suc 98)" by simp
  then have "console_line (unat (100 :: u32)) [97, 10] = [97, 10]"
    by (simp only: console_line.simps) simp
  ultimately show ?thesis using typed_world_kbd by (auto simp: Let_def)
qed

end
