(* ===== verification/Vfs.thy ===== *)
theory Vfs
  imports Ramfs Devfs
begin

text \<open>
  The virtual file system of \<open>kernel/fs/vfs.c\<close>: registration of file systems, the descriptor table
  and the dispatch of every operation to the file system that a descriptor belongs to. A null pointer
  as argument is \<open>None\<close> or \<open>0\<close>; the result of an operation is the C \<open>int\<close> as a word; \<open>None\<close> as a whole
  means that \<open>kmalloc\<close> does not return.
\<close>

section \<open>Dispatch through the operation tables\<close>

definition fs_open :: "fs_ops \<Rightarrow> u8 list \<Rightarrow> u32 \<Rightarrow> world \<Rightarrow> u32 \<times> world" where
  "fs_open t = (case t of Ramfs_ops \<Rightarrow> ramfs_open | Devfs_ops \<Rightarrow> devfs_open)"

definition fs_close :: "fs_ops \<Rightarrow> u32 \<Rightarrow> world \<Rightarrow> u32 \<times> world" where
  "fs_close t = (case t of Ramfs_ops \<Rightarrow> ramfs_close | Devfs_ops \<Rightarrow> devfs_close)"

definition fs_read :: "fs_ops \<Rightarrow> u32 \<Rightarrow> u32 \<Rightarrow> u32 \<Rightarrow> world \<Rightarrow> u32 \<times> world" where
  "fs_read t = (case t of Ramfs_ops \<Rightarrow> ramfs_read | Devfs_ops \<Rightarrow> devfs_read)"

definition fs_write :: "fs_ops \<Rightarrow> u32 \<Rightarrow> u32 \<Rightarrow> u32 \<Rightarrow> world \<Rightarrow> u32 \<times> world" where
  "fs_write t = (case t of Ramfs_ops \<Rightarrow> ramfs_write | Devfs_ops \<Rightarrow> devfs_write)"

definition fs_seek :: "fs_ops \<Rightarrow> u32 \<Rightarrow> u32 \<Rightarrow> u32 \<Rightarrow> world \<Rightarrow> u32 \<times> world" where
  "fs_seek t = (case t of Ramfs_ops \<Rightarrow> ramfs_seek | Devfs_ops \<Rightarrow> devfs_seek)"

definition fs_ioctl :: "fs_ops \<Rightarrow> u32 \<Rightarrow> u32 \<Rightarrow> u32 \<Rightarrow> world \<Rightarrow> u32 \<times> world" where
  "fs_ioctl t = (case t of Ramfs_ops \<Rightarrow> ramfs_ioctl | Devfs_ops \<Rightarrow> devfs_ioctl)"

definition fs_stat :: "fs_ops \<Rightarrow> u8 list \<Rightarrow> world \<Rightarrow> u32 \<times> file_stat option" where
  "fs_stat t = (case t of Ramfs_ops \<Rightarrow> ramfs_stat | Devfs_ops \<Rightarrow> devfs_stat)"

section \<open>Operations\<close>

definition std_handle :: "u32 \<Rightarrow> file_handle" where
  "std_handle flags = no_file_handle\<lparr>fh_fs := None, fh_flags := flags, fh_ref := 1\<rparr>"

definition vfs_init :: "world \<Rightarrow> world" where
  "vfs_init w =
     (let w = w\<lparr>open_files := (\<lambda>_. no_file_handle)\<rparr>;
          w = w\<lparr>fs_list := []\<rparr>
      in w\<lparr>open_files := (open_files w)(0 := std_handle O_RDONLY, 1 := std_handle O_WRONLY, 2 := std_handle O_WRONLY)\<rparr>)"

text \<open>\<open>sizeof(struct filesystem)\<close> is 24.\<close>

definition vfs_register_fs :: "u8 list option \<Rightarrow> fs_ops option \<Rightarrow> world \<Rightarrow> (u32 \<times> world) option" where
  "vfs_register_fs name ops w =
     (case (name, ops) of
        (Some name, Some ops) \<Rightarrow> do {
          (new_fs, heap) \<leftarrow> kmalloc 24 (wheap w);
          let w = w\<lparr>wheap := heap\<rparr>;
          if new_fs = 0 then Some (ENOMEM, w)
          else Some (0, w\<lparr>fs_list := \<lparr>fs_name = name_buffer MAX_FS_NAME name, fs_table = ops\<rparr> # fs_list w\<rparr>)
        }
      | _ \<Rightarrow> Some (EINVAL, w))"

definition vfs_find_registered :: "u8 list \<Rightarrow> world \<Rightarrow> filesystem option" where
  "vfs_find_registered name w = List.find (\<lambda>fs. fs_name fs = name) (fs_list w)"

definition ramfs_name :: "u8 list" where "ramfs_name = [114, 97, 109, 102, 115]"
definition devfs_name :: "u8 list" where "devfs_name = [100, 101, 118, 102, 115]"

definition vfs_resolve_fs :: "u8 list \<Rightarrow> world \<Rightarrow> filesystem option" where
  "vfs_resolve_fs path w =
     (let name = ramfs_name;
          name = (if take 5 path = [47, 100, 101, 118, 47] then devfs_name else name)
      in vfs_find_registered name w)"

definition vfs_open :: "u8 list option \<Rightarrow> u32 \<Rightarrow> world \<Rightarrow> u32 \<times> world" where
  "vfs_open path flags w =
     (case path of
        None \<Rightarrow> (EINVAL, w)
      | Some path \<Rightarrow>
          (case vfs_resolve_fs path w of
             None \<Rightarrow> (ENOENT, w)
           | Some fs \<Rightarrow>
               (case free_slot (\<lambda>i. fh_ref (open_files w i) = 0) 3 of
                  None \<Rightarrow> (EMFILE, w)
                | Some fd \<Rightarrow>
                    let (result, w) = fs_open (fs_table fs) path flags w
                    in if sint result < 0 then (result, w)
                       else (of_nat fd,
                         w\<lparr>open_files := (open_files w)(fd := \<lparr>fh_fs = Some fs, fh_private = result,
                           fh_pos = 0, fh_flags = flags, fh_ref = 1\<rparr>)\<rparr>))))"

definition vfs_bad :: "u32 \<Rightarrow> world \<Rightarrow> bool" where
  "vfs_bad fd w \<longleftrightarrow> out_of_table fd \<or> fh_ref (open_files w (unat fd)) = 0"

definition set_fh :: "u32 \<Rightarrow> file_handle \<Rightarrow> world \<Rightarrow> world" where
  "set_fh fd h w = w\<lparr>open_files := (open_files w)(unat fd := h)\<rparr>"

definition vfs_close :: "u32 \<Rightarrow> world \<Rightarrow> u32 \<times> world" where
  "vfs_close fd w =
     (if vfs_bad fd w then (EBADF, w)
      else
        let fh = open_files w (unat fd);
            fh = fh\<lparr>fh_ref := fh_ref fh - 1\<rparr>;
            w = set_fh fd fh w
        in if fh_ref fh > 0 then (0, w)
           else
             let w = (case fh_fs fh of
                        Some fs \<Rightarrow> snd (fs_close (fs_table fs) (fh_private fh) w)
                      | None \<Rightarrow> w)
             in (0, set_fh fd no_file_handle w))"

text \<open>The position of a descriptor moves by a positive result.\<close>

definition add_pos :: "u32 \<Rightarrow> u32 \<Rightarrow> world \<Rightarrow> world" where
  "add_pos fd result w =
     (let fh = open_files w (unat fd)
      in if sint result > 0 then set_fh fd (fh\<lparr>fh_pos := fh_pos fh + result\<rparr>) w else w)"

definition vfs_read :: "u32 \<Rightarrow> u32 \<Rightarrow> u32 \<Rightarrow> world \<Rightarrow> u32 \<times> world" where
  "vfs_read fd buf count w =
     (if vfs_bad fd w then (EBADF, w)
      else
        let fh = open_files w (unat fd)
        in if fh_flags fh AND O_RDONLY = 0 \<and> fh_flags fh AND O_RDWR = 0 then (EACCES, w)
           else
             (case fh_fs fh of
                None \<Rightarrow> (EIO, w)
              | Some fs \<Rightarrow>
                  let (result, w) = fs_read (fs_table fs) (fh_private fh) buf count w
                  in (result, add_pos fd result w)))"

definition vfs_write :: "u32 \<Rightarrow> u32 \<Rightarrow> u32 \<Rightarrow> world \<Rightarrow> u32 \<times> world" where
  "vfs_write fd buf count w =
     (if vfs_bad fd w then (EBADF, w)
      else
        let fh = open_files w (unat fd)
        in if fh_flags fh AND O_WRONLY = 0 \<and> fh_flags fh AND O_RDWR = 0 then (EACCES, w)
           else if fd = 1 \<or> fd = 2 then (count, put_bytes buf count w)
           else
             (case fh_fs fh of
                None \<Rightarrow> (EIO, w)
              | Some fs \<Rightarrow>
                  let (result, w) = fs_write (fs_table fs) (fh_private fh) buf count w
                  in (result, add_pos fd result w)))"

definition vfs_seek :: "u32 \<Rightarrow> u32 \<Rightarrow> u32 \<Rightarrow> world \<Rightarrow> u32 \<times> world" where
  "vfs_seek fd offset whence w =
     (if vfs_bad fd w then (EBADF, w)
      else
        let fh = open_files w (unat fd)
        in case fh_fs fh of
             None \<Rightarrow> (EIO, w)
           | Some fs \<Rightarrow> fs_seek (fs_table fs) (fh_private fh) offset whence w)"

definition vfs_ioctl :: "u32 \<Rightarrow> u32 \<Rightarrow> u32 \<Rightarrow> world \<Rightarrow> u32 \<times> world" where
  "vfs_ioctl fd request argp w =
     (if vfs_bad fd w then (EBADF, w)
      else
        let fh = open_files w (unat fd)
        in case fh_fs fh of
             None \<Rightarrow> (EINVAL, w)
           | Some fs \<Rightarrow> fs_ioctl (fs_table fs) (fh_private fh) request argp w)"

definition vfs_stat :: "u8 list option \<Rightarrow> u32 \<Rightarrow> world \<Rightarrow> u32 \<times> file_stat option" where
  "vfs_stat path stat w =
     (case path of
        None \<Rightarrow> (EINVAL, None)
      | Some path \<Rightarrow>
          if stat = 0 then (EINVAL, None)
          else
            (case vfs_resolve_fs path w of
               None \<Rightarrow> (ENOENT, None)
             | Some fs \<Rightarrow> fs_stat (fs_table fs) path w))"

definition ramfs_init :: "world \<Rightarrow> world option" where
  "ramfs_init w = do {
     (r, w) \<leftarrow> vfs_register_fs (Some ramfs_name) (Some Ramfs_ops) (ramfs_load w);
     Some w
   }"

definition devfs_init :: "world \<Rightarrow> world option" where
  "devfs_init w = do {
     (r, w) \<leftarrow> vfs_register_fs (Some devfs_name) (Some Devfs_ops) (devfs_load w);
     Some w
   }"

definition boot_vfs_init :: "world \<Rightarrow> world option" where
  "boot_vfs_init w = do {
     let w = vfs_init w;
     w \<leftarrow> ramfs_init w;
     devfs_init w
   }"

section \<open>The tables honour the contract of a file system\<close>

definition fs_opened :: "fs_ops \<Rightarrow> world \<Rightarrow> nat \<Rightarrow> bool" where
  "fs_opened t = (case t of Ramfs_ops \<Rightarrow> ramfs_opened | Devfs_ops \<Rightarrow> devfs_opened)"

definition fs_clean :: "fs_ops \<Rightarrow> world \<Rightarrow> bool" where
  "fs_clean t = (case t of Ramfs_ops \<Rightarrow> ramfs_clean | Devfs_ops \<Rightarrow> devfs_clean)"

lemmas fs_defs = fs_open_def fs_close_def fs_read_def fs_write_def fs_seek_def fs_ioctl_def
  fs_opened_def fs_clean_def

interpretation fs: file_system "fs_open t" "fs_close t" "fs_read t" "fs_write t" "fs_seek t"
  "fs_opened t" "fs_clean t" for t
  by (cases t) (simp_all add: fs_defs rfs.file_system_axioms dfs.file_system_axioms)

text \<open>An operation of one file system leaves the descriptors, the registrations and the other alone.\<close>

definition fs_frame :: "fs_ops \<Rightarrow> world \<Rightarrow> world \<Rightarrow> bool" where
  "fs_frame t w w' \<longleftrightarrow> open_files w' = open_files w \<and> fs_list w' = fs_list w \<and>
     (case t of Ramfs_ops \<Rightarrow> devfs_handles w' = devfs_handles w | Devfs_ops \<Rightarrow> ramfs_handles w' = ramfs_handles w)"

lemma fs_frame_files: "fs_frame t w w' \<Longrightarrow> open_files w' = open_files w \<and> fs_list w' = fs_list w"
  by (simp add: fs_frame_def)

lemma ramfs_opened_cong: "ramfs_handles w = ramfs_handles v \<Longrightarrow> ramfs_opened w = ramfs_opened v"
  by (simp add: fun_eq_iff ramfs_opened_def)

lemma fs_frame_other:
  "fs_frame t w w' \<Longrightarrow> u \<noteq> t \<Longrightarrow> fs_opened u w' = fs_opened u w \<and> fs_clean u w' = fs_clean u w"
  using ramfs_opened_cong [of w' w] devfs_opened_cong [of w' w] devfs_clean_cong [of w' w]
  by (cases t; cases u) (simp_all add: fs_frame_def fs_defs ramfs_clean_def)

lemma console_read_frame:
  "open_files (snd (console_read_loop b n rc w)) = open_files w \<and>
   fs_list (snd (console_read_loop b n rc w)) = fs_list w \<and>
   ramfs_handles (snd (console_read_loop b n rc w)) = ramfs_handles w"
proof (induction b n rc w rule: console_read_loop.induct)
  case (1 b n rc w)
  show ?case
    by (subst (1 2 3) console_read_loop.simps) (auto simp: Let_def split: prod.splits dest: 1 [rotated -1])
qed

lemma put_bytes_frame:
  "open_files (put_bytes b n w) = open_files w" "fs_list (put_bytes b n w) = fs_list w"
  "ramfs_handles (put_bytes b n w) = ramfs_handles w" "devfs_handles (put_bytes b n w) = devfs_handles w"
proof -
  let ?f = "\<lambda>i w. w\<lparr>wcon := fb_putchar (wmem w (b + of_nat i)) (wcon w)\<rparr>"
  have "open_files (fold ?f xs w) = open_files w \<and> fs_list (fold ?f xs w) = fs_list w \<and>
      ramfs_handles (fold ?f xs w) = ramfs_handles w \<and> devfs_handles (fold ?f xs w) = devfs_handles w" for xs
    by (induction xs arbitrary: w) simp_all
  then show "open_files (put_bytes b n w) = open_files w" "fs_list (put_bytes b n w) = fs_list w"
    "ramfs_handles (put_bytes b n w) = ramfs_handles w" "devfs_handles (put_bytes b n w) = devfs_handles w"
    by (simp_all add: put_bytes_def)
qed

lemma fs_ops_frame:
  "fs_frame t w (snd (fs_open t path flags w))" "fs_frame t w (snd (fs_close t h w))"
  "fs_frame t w (snd (fs_read t h b n w))" "fs_frame t w (snd (fs_write t h b n w))"
  "fs_frame t w (snd (fs_seek t h off wh w))" "fs_frame t w (snd (fs_ioctl t h rq ap w))"
  by (cases t; simp add: fs_frame_def fs_defs Let_def
      ramfs_open_def ramfs_close_def ramfs_read_def ramfs_write_def ramfs_seek_def ramfs_ioctl_def set_ramfs_pos_def
      devfs_open_def devfs_close_def devfs_read_def devfs_write_def devfs_seek_def devfs_ioctl_def
      console_read_frame put_bytes_frame split: option.splits)+

lemma fs_ioctl_keeps: "fs_opened t (snd (fs_ioctl t h rq ap w)) = fs_opened t w"
  "fs_clean t (snd (fs_ioctl t h rq ap w)) = fs_clean t w"
  by (cases t; simp add: fs_defs ramfs_ioctl_def devfs_ioctl_def devfs_opened_def devfs_clean_def fun_eq_iff)+

section \<open>Descriptors and handles\<close>

text \<open>The handle that an open descriptor owns: which file system and which entry of its table.\<close>

definition owner :: "file_handle \<Rightarrow> (fs_ops \<times> nat) option" where
  "owner h = (if fh_ref h = 0 then None else map_option (\<lambda>fs. (fs_table fs, unat (fh_private h))) (fh_fs h))"

definition table_ok :: "(nat \<Rightarrow> file_handle) \<Rightarrow> bool" where
  "table_ok f \<longleftrightarrow>
     (\<forall>fd. fh_ref (f fd) \<le> 1) \<and> (\<forall>fd. fh_ref (f fd) = 0 \<longrightarrow> f fd = no_file_handle) \<and>
     (\<forall>fd. 32 \<le> fd \<longrightarrow> fh_ref (f fd) = 0) \<and>
     (\<forall>fd fd' x. owner (f fd) = Some x \<and> owner (f fd') = Some x \<longrightarrow> fd = fd') \<and>
     (\<forall>fd t i. owner (f fd) = Some (t, i) \<longrightarrow> i < 32)"

definition vfs_inv :: "world \<Rightarrow> bool" where
  "vfs_inv w \<longleftrightarrow> (\<forall>t. fs_clean t w) \<and> table_ok (open_files w) \<and>
     (\<forall>t i. fs_opened t w i \<longleftrightarrow> (\<exists>fd. owner (open_files w fd) = Some (t, i)))"

lemma owner_no_file [simp]: "owner no_file_handle = None"
  by (simp add: owner_def no_file_handle_def)

lemma owner_pos [simp]: "owner (h\<lparr>fh_pos := p\<rparr>) = owner h"
  by (simp add: owner_def)

lemma no_file_ref [simp]: "fh_ref no_file_handle = 0"
  by (simp add: no_file_handle_def)

lemma owner_new [simp]:
  "owner \<lparr>fh_fs = Some fs, fh_private = h, fh_pos = p, fh_flags = fl, fh_ref = Suc 0\<rparr> = Some (fs_table fs, unat h)"
  by (simp add: owner_def)

lemma owner_upd:
  "owner (f fd) = None \<Longrightarrow> (\<exists>e. owner ((f(fd := h)) e) = Some x) \<longleftrightarrow> owner h = Some x \<or> (\<exists>e. owner (f e) = Some x)"
  by (metis fun_upd_apply option.distinct(1))

lemma table_ok_new:
  assumes "table_ok f" and "fd < 32" and "fh_ref h = 1" and "owner h = Some (t, i)" and "i < 32"
    and "\<And>e. owner (f e) \<noteq> Some (t, i)"
  shows "table_ok (f(fd := h))"
  using assms by (auto simp: table_ok_def)

lemma table_ok_close:
  assumes "table_ok f"
  shows "table_ok (f(fd := no_file_handle))"
  using assms by (auto simp: table_ok_def)

lemma table_ok_pos:
  assumes "table_ok f" and "fh_ref (f fd) \<noteq> 0"
  shows "table_ok (f(fd := (f fd)\<lparr>fh_pos := p\<rparr>))"
  using assms by (auto simp: table_ok_def)

lemma table_ok_owner: "table_ok f \<Longrightarrow> owner (f fd) = Some x \<Longrightarrow> owner (f fd') = Some x \<Longrightarrow> fd' = fd"
  by (auto simp: table_ok_def)

lemma owner_close:
  assumes "table_ok f" and "owner (f fd) = Some y"
  shows "(\<exists>e. owner ((f(fd := no_file_handle)) e) = Some x) \<longleftrightarrow> x \<noteq> y \<and> (\<exists>e. owner (f e) = Some x)"
proof -
  have "owner ((f(fd := no_file_handle)) e) = Some x \<longleftrightarrow> x \<noteq> y \<and> owner (f e) = Some x" for e
  proof (cases "e = fd")
    case True
    then show ?thesis using assms(2) by auto
  next
    case False
    then have "owner (f e) \<noteq> Some y" using table_ok_owner [OF assms] by blast
    then show ?thesis using False by auto
  qed
  then show ?thesis by simp
qed

lemma files_upd_keeps [simp]:
  "fs_opened t (w\<lparr>open_files := f\<rparr>) = fs_opened t w" "fs_clean t (w\<lparr>open_files := f\<rparr>) = fs_clean t w"
  by (cases t; simp add: fs_defs ramfs_opened_def ramfs_clean_def devfs_opened_def devfs_clean_def fun_eq_iff)+

lemma files_restore [simp]: "w\<lparr>open_files := open_files w\<rparr> = w"
  by simp

text \<open>The outcomes of an open and of a close.\<close>

lemma vfs_open_cases:
  obtains (err) e where "vfs_open path flags w = (e, w)" and "sint e < 0"
  | (ok) p fs fd h w1 where "vfs_open path flags w = (of_nat fd, w1\<lparr>open_files := (open_files w)(fd :=
        \<lparr>fh_fs = Some fs, fh_private = h, fh_pos = 0, fh_flags = flags, fh_ref = 1\<rparr>)\<rparr>)"
      and "3 \<le> fd" and "fd < 32" and "fh_ref (open_files w fd) = 0"
      and "path = Some p" and "vfs_resolve_fs p w = Some fs"
      and "fs_open (fs_table fs) p flags w = (h, w1)" and "0 \<le> sint h"
proof (cases path)
  case None
  then show thesis using err [of EINVAL] by (simp add: vfs_open_def)
next
  case p: (Some p)
  show thesis
  proof (cases "vfs_resolve_fs p w")
    case None
    then show thesis using p err [of ENOENT] by (simp add: vfs_open_def)
  next
    case fs: (Some fs)
    obtain h w1 where o: "fs_open (fs_table fs) p flags w = (h, w1)" by fastforce
    show thesis
    proof (cases "free_slot (\<lambda>i. fh_ref (open_files w i) = 0) 3")
      case None
      then show thesis using p fs err [of EMFILE] by (simp add: vfs_open_def)
    next
      case (Some fd)
      show thesis
      proof (cases "sint h < 0")
        case True
        then show thesis using p fs o Some fs.open_err [OF o] err [of h] by (simp add: vfs_open_def)
      next
        case False
        have "open_files w1 = open_files w"
          using fs_frame_files [OF fs_ops_frame(1) [of "fs_table fs" w p flags]] o by simp
        then show thesis using p fs o Some False free_slot_Some [OF Some]
          by (intro ok [where fd = fd and fs = fs and p = p and h = h and ?w1.0 = w1]) (simp_all add: vfs_open_def)
      qed
    qed
  qed
qed

lemma vfs_inv_open:
  assumes inv: "vfs_inv w"
  shows "vfs_inv (snd (vfs_open path flags w))"
proof (cases rule: vfs_open_cases [of path flags w])
  case (ok p fs fd h w1)
  let ?t = "fs_table fs"
  have clean: "fs_clean ?t w" using inv by (simp add: vfs_inv_def)
  note opened = fs.open_ok [OF clean ok(7,8)]
  have frame: "fs_frame ?t w w1" using fs_ops_frame(1) [of ?t w p flags] ok(7) by simp
  have fresh: "owner (open_files w e) \<noteq> Some (?t, unat h)" for e
    using opened inv by (auto simp: vfs_inv_def)
  have none: "owner (open_files w fd) = None" using ok(4) by (simp add: owner_def)
  have "table_ok ((open_files w)(fd := \<lparr>fh_fs = Some fs, fh_private = h, fh_pos = 0, fh_flags = flags, fh_ref = 1\<rparr>))"
    by (rule table_ok_new [OF _ ok(3) _ _ _ fresh]) (use inv opened in \<open>simp_all add: vfs_inv_def\<close>)
  moreover have "fs_clean u w1" for u
    using inv opened fs_frame_other [OF frame, of u] by (cases "u = ?t") (simp_all add: vfs_inv_def)
  moreover have "fs_opened u w1 i \<longleftrightarrow> fs_opened u w i \<or> (u, i) = (?t, unat h)" for u i
    using opened fs_frame_other [OF frame, of u] by (cases "u = ?t") auto
  ultimately show ?thesis
    using inv none by (auto simp: ok(1) vfs_inv_def owner_upd simp del: fun_upd_apply)
qed (use inv in simp)

lemma vfs_inv_fs:
  assumes inv: "vfs_inv w" and frame: "fs_frame t w w'"
    and "fs_opened t w' = fs_opened t w" and "fs_clean t w \<Longrightarrow> fs_clean t w'"
  shows "vfs_inv w'"
proof -
  have "fs_clean u w' \<and> fs_opened u w' = fs_opened u w" for u
    using assms(3,4) fs_frame_other [OF frame, of u] inv by (cases "u = t") (auto simp: vfs_inv_def)
  then show ?thesis using inv fs_frame_files [OF frame] by (simp add: vfs_inv_def)
qed

lemma vfs_inv_add_pos:
  assumes inv: "vfs_inv w" and "fh_ref (open_files w (unat fd)) \<noteq> 0"
  shows "vfs_inv (add_pos fd r w)"
proof -
  let ?f = "open_files w"
  let ?g = "?f(unat fd := (?f (unat fd))\<lparr>fh_pos := fh_pos (?f (unat fd)) + r\<rparr>)"
  have "owner (?g e) = owner (?f e)" for e by simp
  then show ?thesis using inv table_ok_pos [of "open_files w" "unat fd", OF _ assms(2)]
    by (auto simp: vfs_inv_def add_pos_def set_fh_def Let_def)
qed

lemma vfs_bad_ref: "\<not> vfs_bad fd w \<Longrightarrow> fh_ref (open_files w (unat fd)) \<noteq> 0"
  by (simp add: vfs_bad_def)

lemma vfs_inv_read:
  assumes inv: "vfs_inv w"
  shows "vfs_inv (snd (vfs_read fd b n w))"
proof -
  have "vfs_inv (add_pos fd (fst r) (snd r))"
    if "\<not> vfs_bad fd w" and r: "r = fs_read t h b n w" for r t h
  proof -
    have "vfs_inv (snd r)"
      unfolding r by (rule vfs_inv_fs [OF inv fs_ops_frame(3) fs.read_keeps fs.read_clean])
    moreover have "open_files (snd r) = open_files w"
      unfolding r using fs_frame_files [OF fs_ops_frame(3)] by blast
    ultimately show ?thesis using vfs_bad_ref [OF that(1)] by (intro vfs_inv_add_pos) simp_all
  qed
  then show ?thesis using inv
    by (simp add: vfs_read_def Let_def case_prod_beta split: option.split)
qed

lemma vfs_inv_other:
  assumes "vfs_inv w" and "open_files w' = open_files w" and "ramfs_handles w' = ramfs_handles w"
    and "devfs_handles w' = devfs_handles w"
  shows "vfs_inv w'"
proof -
  have "fs_clean t w' = fs_clean t w \<and> fs_opened t w' = fs_opened t w" for t
    using ramfs_opened_cong [OF assms(3)] devfs_opened_cong [OF assms(4)] devfs_clean_cong [OF assms(4)] assms(3)
    by (cases t) (simp_all add: fs_defs ramfs_clean_def)
  then show ?thesis using assms(1,2) by (simp add: vfs_inv_def)
qed

lemma vfs_inv_write:
  assumes inv: "vfs_inv w"
  shows "vfs_inv (snd (vfs_write fd b n w))"
proof -
  have "vfs_inv (add_pos fd (fst r) (snd r))"
    if "\<not> vfs_bad fd w" and r: "r = fs_write t h b n w" for r t h
  proof -
    have "vfs_inv (snd r)"
      unfolding r by (rule vfs_inv_fs [OF inv fs_ops_frame(4) fs.write_keeps fs.write_clean])
    moreover have "open_files (snd r) = open_files w"
      unfolding r using fs_frame_files [OF fs_ops_frame(4)] by blast
    ultimately show ?thesis using vfs_bad_ref [OF that(1)] by (intro vfs_inv_add_pos) simp_all
  qed
  moreover have "vfs_inv (put_bytes b n w)" by (rule vfs_inv_other [OF inv]) (simp_all add: put_bytes_frame)
  ultimately show ?thesis using inv
    by (simp add: vfs_write_def Let_def case_prod_beta split: option.split)
qed

lemma vfs_inv_seek: "vfs_inv w \<Longrightarrow> vfs_inv (snd (vfs_seek fd off wh w))"
  using vfs_inv_fs [OF _ fs_ops_frame(5) fs.seek_keeps fs.seek_clean]
  by (simp add: vfs_seek_def Let_def split: option.split)

lemma vfs_inv_ioctl: "vfs_inv w \<Longrightarrow> vfs_inv (snd (vfs_ioctl fd rq ap w))"
  using vfs_inv_fs [OF _ fs_ops_frame(6) fs_ioctl_keeps(1)]
  by (simp add: vfs_ioctl_def Let_def fs_ioctl_keeps split: option.split)

text \<open>Closing a descriptor that is open: the file system's handle is closed and the slot cleared.\<close>

lemma fs_close_files:
  "fs_close t h (w\<lparr>open_files := f\<rparr>) = (fst (fs_close t h w), (snd (fs_close t h w))\<lparr>open_files := f\<rparr>)"
  by (cases t; simp add: fs_defs ramfs_close_def ramfs_bad_def devfs_close_def devfs_bad_def)

lemma vfs_close_eq:
  assumes "table_ok (open_files w)" and "\<not> vfs_bad fd w"
  shows "vfs_close fd w =
    (let fh = open_files w (unat fd)
     in (0, (case fh_fs fh of Some fs \<Rightarrow> snd (fs_close (fs_table fs) (fh_private fh) w) | None \<Rightarrow> w)
          \<lparr>open_files := (open_files w)(unat fd := no_file_handle)\<rparr>))"
proof -
  have "fh_ref (open_files w (unat fd)) = 1"
    using assms vfs_bad_ref [OF assms(2)] by (auto simp: table_ok_def intro: le_antisym)
  then show ?thesis using assms(2)
    by (simp add: vfs_close_def Let_def set_fh_def fs_close_files split: option.split)
qed

lemma vfs_close_bad: "vfs_bad fd w \<Longrightarrow> vfs_close fd w = (EBADF, w)"
  by (simp add: vfs_close_def)

lemma vfs_inv_close:
  assumes inv: "vfs_inv w"
  shows "vfs_inv (snd (vfs_close fd w))"
proof (cases "vfs_bad fd w")
  case True
  then show ?thesis using inv by (simp add: vfs_close_bad)
next
  case False
  let ?fh = "open_files w (unat fd)"
  have ok: "table_ok (open_files w)" using inv by (simp add: vfs_inv_def)
  note eq = vfs_close_eq [OF ok False]
  show ?thesis
  proof (cases "fh_fs ?fh")
    case None
    then have "owner ?fh = None" by (simp add: owner_def)
    then show ?thesis using inv None owner_upd [of "open_files w" "unat fd" no_file_handle]
      by (simp add: eq Let_def vfs_inv_def table_ok_close del: fun_upd_apply)
  next
    case (Some fs)
    let ?t = "fs_table fs" and ?h = "fh_private ?fh"
    let ?w = "snd (fs_close ?t ?h w)"
    have own: "owner ?fh = Some (?t, unat ?h)" using Some vfs_bad_ref [OF False] by (simp add: owner_def)
    then have "unat ?h < 32" "fs_opened ?t w (unat ?h)" "fs_clean ?t w"
      using inv by (auto simp: vfs_inv_def table_ok_def)
    then have closed: "fs_clean ?t ?w" "fs_opened ?t ?w = (fs_opened ?t w)(unat ?h := False)"
      using fs.close_ok [of ?t w ?h] by auto
    have "fs_clean u ?w" for u
      using closed fs_frame_other [OF fs_ops_frame(2), of u ?t ?h w] inv by (cases "u = ?t") (simp_all add: vfs_inv_def)
    moreover have "fs_opened u ?w i \<longleftrightarrow> (u, i) \<noteq> (?t, unat ?h) \<and> fs_opened u w i" for u i
      using closed fs_frame_other [OF fs_ops_frame(2), of u ?t ?h w] by (cases "u = ?t") auto
    ultimately show ?thesis
      using inv Some table_ok_close [OF ok] owner_close [OF ok own]
      by (simp add: eq Let_def vfs_inv_def del: fun_upd_apply)
  qed
qed

section \<open>Runs\<close>

text \<open>
  A call of the file layer, or anything else that changes memory, keyboard, console or heap (an
  interrupt, another part of the kernel, a user program).
\<close>

inductive vfs_step :: "world \<Rightarrow> world \<Rightarrow> bool" where
  open_call: "vfs_step w (snd (vfs_open path flags w))"
| close_call: "vfs_step w (snd (vfs_close fd w))"
| read_call: "vfs_step w (snd (vfs_read fd buf count w))"
| write_call: "vfs_step w (snd (vfs_write fd buf count w))"
| seek_call: "vfs_step w (snd (vfs_seek fd offset whence w))"
| ioctl_call: "vfs_step w (snd (vfs_ioctl fd request argp w))"
| outside: "vfs_step w (w\<lparr>wmem := m, wkbd := k, wcon := c, wheap := h\<rparr>)"

inductive_cases vfs_stepE: "vfs_step w w'"

inductive vfs_reach :: "world \<Rightarrow> bool" where
  boot: "boot_vfs_init w = Some w' \<Longrightarrow> vfs_reach w'"
| step: "vfs_reach w \<Longrightarrow> vfs_step w w' \<Longrightarrow> vfs_reach w'"

lemma vfs_inv_step: "vfs_step w w' \<Longrightarrow> vfs_inv w \<Longrightarrow> vfs_inv w'"
  by (erule vfs_stepE)
    (auto simp: vfs_inv_open vfs_inv_close vfs_inv_read vfs_inv_write vfs_inv_seek vfs_inv_ioctl
      intro: vfs_inv_other)

lemma register_frame:
  "vfs_register_fs name ops w = Some (r, w') \<Longrightarrow>
   open_files w' = open_files w \<and> ramfs_handles w' = ramfs_handles w \<and> devfs_handles w' = devfs_handles w"
  by (auto simp: vfs_register_fs_def Let_def split: option.splits if_splits bind_splits prod.splits)

lemma add_modules_frame:
  "open_files (ramfs_add_modules i n w) = open_files w \<and>
   ramfs_handles (ramfs_add_modules i n w) = ramfs_handles w \<and>
   devfs_handles (ramfs_add_modules i n w) = devfs_handles w"
  by (induction i n w rule: ramfs_add_modules.induct) (simp_all add: Let_def split: option.split)

lemma boot_handles:
  assumes "boot_vfs_init w = Some w'"
  shows "ramfs_handles w' = (\<lambda>_. no_ramfs_handle) \<and> devfs_handles w' = (\<lambda>_. no_devfs_handle) \<and>
    open_files w' = (\<lambda>_. no_file_handle)(0 := std_handle O_RDONLY, 1 := std_handle O_WRONLY, 2 := std_handle O_WRONLY)"
proof -
  obtain r1 w1 r2 where 1: "vfs_register_fs (Some ramfs_name) (Some Ramfs_ops) (ramfs_load (vfs_init w)) = Some (r1, w1)"
    and 2: "vfs_register_fs (Some devfs_name) (Some Devfs_ops) (devfs_load w1) = Some (r2, w')"
    using assms by (auto simp: boot_vfs_init_def ramfs_init_def devfs_init_def Let_def split: bind_splits prod.splits)
  have "open_files (ramfs_load (vfs_init w)) = open_files (vfs_init w)"
    "ramfs_handles (ramfs_load (vfs_init w)) = (\<lambda>_. no_ramfs_handle)"
    by (simp_all add: ramfs_load_def Let_def add_modules_frame)
  then show ?thesis using register_frame [OF 1] register_frame [OF 2]
    by (simp add: devfs_load_def vfs_init_def Let_def)
qed

lemma vfs_inv_boot:
  assumes "boot_vfs_init w = Some w'"
  shows "vfs_inv w'"
proof -
  note h = boot_handles [OF assms]
  have own: "owner (open_files w' fd) = None" for fd
    using h by (simp add: std_handle_def owner_def no_file_handle_def)
  have "table_ok (open_files w')"
    using h own by (auto simp: table_ok_def std_handle_def)
  moreover have "fs_clean t w' \<and> \<not> fs_opened t w' i" for t i
    using h by (cases t) (simp_all add: fs_defs ramfs_clean_def ramfs_opened_def no_ramfs_handle_def
        devfs_clean_def devfs_opened_def no_devfs_handle_def)
  ultimately show ?thesis using own by (simp add: vfs_inv_def)
qed

lemma vfs_reach_inv: "vfs_reach w \<Longrightarrow> vfs_inv w"
  by (induction rule: vfs_reach.induct) (auto intro: vfs_inv_boot vfs_inv_step)

section \<open>The files of the boot modules\<close>

definition module_file :: "module_info \<Rightarrow> ramfs_file" where
  "module_file m = \<lparr>rf_name = name_buffer MAX_PATH (mod_name m), rf_data = mod_start m, rf_size = mod_size m,
     rf_mode = 0x124, rf_type = FT_REGULAR\<rparr>"

lemma get_module: "i < length (modules w) \<Longrightarrow> length (modules w) \<le> 16 \<Longrightarrow>
  loader_get_module (of_nat i) w = Some (modules w ! i)"
  by (simp add: loader_get_module_def loader_get_module_count_def word_le_nat_alt unat_of_nat_small)

lemma add_modules_files:
  "i + n = length (modules w) \<Longrightarrow> length (modules w) \<le> 16 \<Longrightarrow> length (ramfs_files w) = i \<Longrightarrow>
   ramfs_files (ramfs_add_modules i n w) = ramfs_files w @ map module_file (drop i (modules w)) \<and>
   modules (ramfs_add_modules i n w) = modules w \<and> wmem (ramfs_add_modules i n w) = wmem w \<and>
   wheap (ramfs_add_modules i n w) = wheap w \<and> fs_list (ramfs_add_modules i n w) = fs_list w"
proof (induction i n w rule: ramfs_add_modules.induct)
  case (2 i k w)
  let ?w = "w\<lparr>ramfs_files := ramfs_files w @ [module_file (modules w ! i)]\<rparr>"
  have i: "i < length (modules w)" "length (ramfs_files w) < MAX_RAMFS_FILES" using 2 by simp_all
  have step: "ramfs_add_modules i (Suc k) w = ramfs_add_modules (Suc i) k ?w"
    using i get_module [OF i(1)] 2 by (simp add: module_file_def)
  have "drop i (modules w) = modules w ! i # drop (Suc i) (modules w)" using i(1) by (rule Cons_nth_drop_Suc [symmetric])
  moreover have "ramfs_files (ramfs_add_modules (Suc i) k ?w) = ramfs_files ?w @ map module_file (drop (Suc i) (modules ?w)) \<and>
     modules (ramfs_add_modules (Suc i) k ?w) = modules ?w \<and> wmem (ramfs_add_modules (Suc i) k ?w) = wmem ?w \<and>
     wheap (ramfs_add_modules (Suc i) k ?w) = wheap ?w \<and> fs_list (ramfs_add_modules (Suc i) k ?w) = fs_list ?w"
    using 2 i get_module [OF i(1)] by (intro "2.IH") (simp_all add: module_file_def)
  ultimately show ?case unfolding step by simp
qed simp

lemma ramfs_load_files:
  assumes "length (modules w) \<le> 16"
  shows "ramfs_files (ramfs_load w) = map module_file (modules w)" and "wmem (ramfs_load w) = wmem w"
    and "wheap (ramfs_load w) = wheap w" and "fs_list (ramfs_load w) = fs_list w"
proof -
  let ?w = "w\<lparr>ramfs_files := [], ramfs_handles := (\<lambda>_. no_ramfs_handle)\<rparr>"
  have "unat (loader_get_module_count ?w) = length (modules w)"
    using assms by (simp add: loader_get_module_count_def unat_of_nat_small)
  with add_modules_files [of 0 "length (modules w)" ?w] assms
  show "ramfs_files (ramfs_load w) = map module_file (modules w)" "wmem (ramfs_load w) = wmem w"
    "wheap (ramfs_load w) = wheap w" "fs_list (ramfs_load w) = fs_list w"
    by (simp_all add: ramfs_load_def Let_def)
qed

lemma find_index:
  "List.find P xs = Some x \<Longrightarrow> \<exists>i. List.find (\<lambda>i. P (xs ! i)) [0..<length xs] = Some i \<and> i < length xs \<and> xs ! i = x"
proof -
  assume "List.find P xs = Some x"
  then obtain i where i: "i < length xs" "P (xs ! i)" "x = xs ! i" "\<forall>j<i. \<not> P (xs ! j)"
    by (auto simp: find_Some_iff)
  then have "List.find (\<lambda>i. P (xs ! i)) [0..<length xs] = Some i"
    unfolding find_Some_iff by (intro exI [of _ i]) simp
  then show ?thesis using i by blast
qed

lemma find_map_cong: "List.find P [0..<length xs] = List.find Q [0..<length xs]" if "\<And>i. i < length xs \<Longrightarrow> P i = Q i"
  using that by (intro find_cong) auto

text \<open>What is in place after boot, when the heap has room for the two registrations.\<close>

lemma boot_result:
  assumes "kmalloc 24 (wheap w) = Some (p, h1)" and "p \<noteq> 0" and "kmalloc 24 h1 = Some (q, h2)" and "q \<noteq> 0"
    and "length (modules w) \<le> 16"
  obtains w' where "boot_vfs_init w = Some w'"
    and "fs_list w' = [\<lparr>fs_name = devfs_name, fs_table = Devfs_ops\<rparr>, \<lparr>fs_name = ramfs_name, fs_table = Ramfs_ops\<rparr>]"
    and "ramfs_files w' = map module_file (modules w)" and "wmem w' = wmem w"
proof -
  let ?v = "ramfs_load (vfs_init w)"
  have v: "wheap ?v = wheap w" "ramfs_files ?v = map module_file (modules w)" "wmem ?v = wmem w" "fs_list ?v = []"
    using ramfs_load_files [of "vfs_init w"] assms(5) by (simp_all add: vfs_init_def Let_def)
  show thesis
    by (rule that [of "devfs_load (?v\<lparr>wheap := h2, fs_list :=
          [\<lparr>fs_name = devfs_name, fs_table = Devfs_ops\<rparr>, \<lparr>fs_name = ramfs_name, fs_table = Ramfs_ops\<rparr>]\<rparr>)"])
      (use assms v in \<open>simp_all add: boot_vfs_init_def ramfs_init_def devfs_init_def vfs_register_fs_def Let_def
        name_buffer_def ramfs_name_def devfs_name_def devfs_load_def\<close>)
qed

lemma boot_result_heap:
  assumes "kmalloc 24 (wheap w) = Some (p, h1)" and "p \<noteq> 0" and "kmalloc 24 h1 = Some (q, h2)" and "q \<noteq> 0"
    and "length (modules w) \<le> 16" and "boot_vfs_init w = Some w'"
  shows "wheap w' = h2"
proof -
  have "wheap (ramfs_load (vfs_init w)) = wheap w"
    using ramfs_load_files [of "vfs_init w"] assms(5) by (simp add: vfs_init_def Let_def)
  then show ?thesis using assms
    by (auto simp: boot_vfs_init_def ramfs_init_def devfs_init_def vfs_register_fs_def Let_def devfs_load_def)
qed

lemma loader_module_count: "length (modules (loader_init n grub v)) \<le> 16"
proof -
  have "unat (if n > MAX_MODULES then MAX_MODULES else n) \<le> 16" by (simp add: word_less_nat_alt not_less)
  then show ?thesis by (simp add: loader_init_def Let_def)
qed

lemma module_name_short: "m \<in> set (modules (loader_init n grub v)) \<Longrightarrow> length (mod_name m) \<le> 31"
  by (auto simp: loader_init_def Let_def loader_module_def name_buffer_def default_name_def
      split: prod.splits option.splits)

lemma module_file_name: "length (mod_name m) \<le> 31 \<Longrightarrow> rf_name (module_file m) = mod_name m"
  by (simp add: module_file_def name_buffer_def)

lemma find_module_file:
  assumes "w = loader_init n grub v" and "loader_find_module name w = Some m"
    and "ramfs_files w' = map module_file (modules w)" and "dropWhile (\<lambda>c. c = 47) path = name"
  shows "\<exists>i. ramfs_find_file path w' = Some i \<and> ramfs_files w' ! i = module_file m"
proof -
  obtain i where i: "List.find (\<lambda>i. mod_name (modules w ! i) = name) [0..<length (modules w)] = Some i"
    "i < length (modules w)" "modules w ! i = m"
    using find_index [OF assms(2) [unfolded loader_find_module_def]] by blast
  have "List.find (\<lambda>j. rf_name (map module_file (modules w) ! j) = name) [0..<length (modules w)] =
      List.find (\<lambda>j. mod_name (modules w ! j) = name) [0..<length (modules w)]"
  proof (rule find_map_cong)
    fix j assume "j < length (modules w)"
    then show "(rf_name (map module_file (modules w) ! j) = name) = (mod_name (modules w ! j) = name)"
      using module_name_short [of "modules w ! j" n grub v] assms(1) by (simp add: module_file_name)
  qed
  then have "ramfs_find_file path w' = Some i"
    using i(1) by (simp add: ramfs_find_file_def assms(3,4))
  then show ?thesis using i(2,3) assms(3) by auto
qed

lemma first_free: "P st \<Longrightarrow> st < 32 \<Longrightarrow> free_slot P st = Some st"
  by (simp add: free_slot_def upt_conv_Cons)

text \<open>The first open after boot, of a path outside \<open>/dev/\<close>.\<close>

lemma first_open:
  assumes "boot_vfs_init w = Some w1"
    and "fs_list w1 = [\<lparr>fs_name = devfs_name, fs_table = Devfs_ops\<rparr>, \<lparr>fs_name = ramfs_name, fs_table = Ramfs_ops\<rparr>]"
    and "ramfs_find_file path w1 = Some i" and "take 5 path \<noteq> [47, 100, 101, 118, 47]"
  shows "vfs_open (Some path) O_RDONLY w1 =
    (3, w1\<lparr>ramfs_handles := (ramfs_handles w1)(0 := \<lparr>rh_file = Some i, rh_pos = 0\<rparr>),
         open_files := (open_files w1)(3 := \<lparr>fh_fs = Some \<lparr>fs_name = ramfs_name, fs_table = Ramfs_ops\<rparr>,
           fh_private = 0, fh_pos = 0, fh_flags = O_RDONLY, fh_ref = 1\<rparr>)\<rparr>)"
proof -
  note h = boot_handles [OF assms(1)]
  have r: "vfs_resolve_fs path w1 = Some \<lparr>fs_name = ramfs_name, fs_table = Ramfs_ops\<rparr>"
    using assms(2,4) by (simp add: vfs_resolve_fs_def vfs_find_registered_def ramfs_name_def devfs_name_def)
  have "free_slot (\<lambda>i. fh_ref (open_files w1 i) = 0) 3 = Some 3"
    by (rule first_free) (simp_all add: h)
  moreover have "free_slot (\<lambda>i. rh_file (ramfs_handles w1 i) = None) 0 = Some 0"
    by (rule first_free) (simp_all add: h no_ramfs_handle_def)
  ultimately show ?thesis using r assms(3)
    by (simp add: vfs_open_def fs_open_def ramfs_open_def Let_def)
qed

section \<open>A concrete boot\<close>

text \<open>The heap of the real boot has room for both registrations; one module \<open>f\<close> of 16 bytes.\<close>

lemma heap_two_small:
  assumes s: "heap_inv (unat a) (unat a + 0x100000) s [(a, 0x100000, True)]"
  obtains p h1 q h2 where "kmalloc 24 s = Some (p, h1)" and "p \<noteq> 0" and "kmalloc 24 h1 = Some (q, h2)" and "q \<noteq> 0"
proof -
  let ?bs = "[(a, need 24, False), (a + of_nat (need 24), 0x100000 - need 24, True)]"
  obtain s1 where s1: "kmalloc 24 s = Some (a + 16, s1)" "a + 16 \<noteq> 0" "heap_inv (unat a) (unat a + 0x100000) s1 ?bs"
    by (rule boot_kmalloc_list [OF s, of 24]) simp_all
  have "\<exists>q s2. kmalloc 24 s1 = Some (q, s2) \<and> q \<noteq> 0"
    by (rule kmalloc_enough [OF s1(3), of _ "a + of_nat (need 24)" "0x100000 - need 24"]) (simp_all add: need_def)
  then show thesis using that s1(1,2) by blast
qed

lemma boot_heap_twice:
  obtains s p h1 q h2 where "kmalloc 24 s = Some (p, h1)" and "p \<noteq> 0"
    and "kmalloc 24 h1 = Some (q, h2)" and "q \<noteq> 0"
  using boot_heap heap_two_small by metis

definition demo_grub :: "nat \<Rightarrow> grub_module" where
  "demo_grub i = (0x3000000, 0x3000010, Some [102])"

definition demo_module :: module_info where
  "demo_module = \<lparr>mod_name = [102], mod_start = 0x3000000, mod_end = 0x3000010, mod_size = 16\<rparr>"

lemma demo_modules: "modules (loader_init 1 demo_grub v) = [demo_module]"
  by (simp add: loader_init_def Let_def loader_module_def demo_grub_def demo_module_def name_buffer_def)

lemma demo_find: "loader_find_module [102] (loader_init 1 demo_grub v) = Some demo_module"
  by (simp add: loader_find_module_def demo_modules) (simp add: demo_module_def)

lemma demo_boot:
  obtains w1 w2 where "vfs_reach w1" and "vfs_open (Some [102]) O_RDONLY w1 = (3, w2)" and "vfs_reach w2"
    and "fs_opened Ramfs_ops w2 0"
proof -
  obtain s p h1 q h2 where k: "kmalloc 24 s = Some (p, h1)" "p \<noteq> 0" "kmalloc 24 h1 = Some (q, h2)" "q \<noteq> 0"
    using boot_heap_twice .
  let ?w = "loader_init 1 demo_grub (world_bss\<lparr>wheap := s\<rparr>)"
  have heap: "kmalloc 24 (wheap ?w) = Some (p, h1)" using k(1) by (simp add: loader_init_def Let_def)
  obtain w1 where w1: "boot_vfs_init ?w = Some w1"
    "fs_list w1 = [\<lparr>fs_name = devfs_name, fs_table = Devfs_ops\<rparr>, \<lparr>fs_name = ramfs_name, fs_table = Ramfs_ops\<rparr>]"
    "ramfs_files w1 = map module_file (modules ?w)"
    by (rule boot_result [OF heap k(2-4)]) (simp_all add: loader_module_count)
  obtain i where i: "ramfs_find_file [102] w1 = Some i"
    using find_module_file [OF refl demo_find w1(3), of "[102]"] by auto
  obtain w2 where w2: "vfs_open (Some [102]) O_RDONLY w1 = (3, w2)"
    "ramfs_handles w2 0 = \<lparr>rh_file = Some i, rh_pos = 0\<rparr>"
    using first_open [OF w1(1,2) i] by simp
  have reach: "vfs_reach w1" using w1(1) by (rule vfs_reach.boot)
  have "vfs_step w1 w2" using vfs_step.open_call [of w1 "Some [102]" O_RDONLY] w2(1) by simp
  with reach have "vfs_reach w2" by (rule vfs_reach.step)
  moreover have "fs_opened Ramfs_ops w2 0" using w2(2) by (simp add: fs_opened_def ramfs_opened_def)
  ultimately show thesis using that reach w2(1) by blast
qed

section \<open>Properties\<close>

text \<open>
  C5: In every state that boot and any sequence of file calls and outside events can reach, a handle
  of a file system is open if and only if exactly one descriptor owns it, unused descriptors are all
  zero, and a descriptor beyond the table is never in use.
\<close>

theorem vfs_fd_handles:
  assumes "vfs_reach w"
  shows "(fs_opened t w i \<longleftrightarrow> (\<exists>!fd. owner (open_files w fd) = Some (t, i))) \<and>
    (fh_ref (open_files w fd) \<le> 1) \<and> (fh_ref (open_files w fd) = 0 \<longrightarrow> open_files w fd = no_file_handle) \<and>
    (32 \<le> fd \<longrightarrow> fh_ref (open_files w fd) = 0)"
proof -
  have inv: "vfs_inv w" using vfs_reach_inv [OF assms] .
  then have ok: "table_ok (open_files w)" by (simp add: vfs_inv_def)
  have "(\<exists>fd. owner (open_files w fd) = Some (t, i)) \<longleftrightarrow> (\<exists>!fd. owner (open_files w fd) = Some (t, i))"
    using table_ok_owner [OF ok] by blast
  then show ?thesis using inv ok by (simp add: vfs_inv_def table_ok_def)
qed

theorem vfs_fd_handles_witness:
  "\<exists>w. fs_opened Ramfs_ops w 0 \<and> (\<exists>!fd. owner (open_files w fd) = Some (Ramfs_ops, 0))"
proof -
  obtain w1 w2 where w: "vfs_reach w2" "fs_opened Ramfs_ops w2 0" using demo_boot by blast
  with vfs_fd_handles [OF w(1), of Ramfs_ops 0] show ?thesis by blast
qed

text \<open>
  C25: In a reachable state a vfs_open that succeeds returns an unused descriptor between 3 and 31,
  and vfs_close of it at once returns 0 and restores the whole state, the tables of the file system
  included; a failed open changes nothing.
\<close>

theorem vfs_open_close:
  assumes "vfs_reach w" and "vfs_open path flags w = (fd, w')"
  shows "if sint fd < 0 then w' = w
    else 3 \<le> unat fd \<and> unat fd < 32 \<and> fh_ref (open_files w (unat fd)) = 0 \<and>
      vfs_close fd w' = (0, w)"
proof (cases rule: vfs_open_cases [of path flags w])
  case (err e)
  then show ?thesis using assms(2) by simp
next
  case (ok p fs n h w1)
  let ?t = "fs_table fs"
  let ?h = "\<lparr>fh_fs = Some fs, fh_private = h, fh_pos = 0, fh_flags = flags, fh_ref = 1\<rparr>"
  have inv: "vfs_inv w" using vfs_reach_inv [OF assms(1)] .
  then have clean: "fs_clean ?t w" and zero: "open_files w n = no_file_handle"
    using ok(4) by (simp_all add: vfs_inv_def table_ok_def)
  have "fd = of_nat n" using ok(1) assms(2) by simp
  moreover have "unat (of_nat n :: u32) = n" using ok(3) by (intro unat_of_nat_small) simp
  ultimately have fd: "fd = of_nat n" "unat fd = n" "sint fd = int n"
    using sint_of_nat_slot [OF ok(3)] by simp_all
  have w': "w' = w1\<lparr>open_files := (open_files w)(n := ?h)\<rparr>" using ok assms(2) by simp
  have "vfs_inv w'" using vfs_inv_open [OF inv, of path flags] assms(2) by simp
  then have "table_ok (open_files w')" by (simp add: vfs_inv_def)
  moreover have "\<not> vfs_bad fd w'" using ok(3) fd by (simp add: vfs_bad_def w')
  ultimately have "vfs_close fd w' = (0, (snd (fs_close ?t h w'))\<lparr>open_files := (open_files w')(n := no_file_handle)\<rparr>)"
    using fd(2) by (simp add: vfs_close_eq Let_def) (simp add: w')
  moreover have "fs_close ?t h w1 = (0, w)" using fs.open_ok [OF clean ok(7,8)] by simp
  moreover have "(open_files w)(n := no_file_handle) = open_files w" using zero by auto
  ultimately have "vfs_close fd w' = (0, w)" by (simp add: w' fs_close_files)
  then show ?thesis using fd ok(2-4) by simp
qed

theorem vfs_open_close_witness:
  "\<exists>w w'. vfs_open (Some [102]) O_RDONLY w = (3, w') \<and> vfs_close 3 w' = (0, w)"
proof -
  obtain w1 w2 where w: "vfs_reach w1" "vfs_open (Some [102]) O_RDONLY w1 = (3, w2)" using demo_boot .
  with vfs_open_close [OF w] show ?thesis by (intro exI [of _ w1] exI [of _ w2]) simp
qed

text \<open>A device that has just been opened.\<close>

lemma device_opened:
  assumes o: "vfs_open (Some path) flags w = (fd, w1)" and "0 \<le> sint fd" and "take 5 path = [47, 100, 101, 118, 47]"
    and reg: "vfs_find_registered devfs_name w = Some fs" "fs_table fs = Devfs_ops"
  obtains n h where "fd = of_nat n" and "3 \<le> n" and "n < 32"
    and "open_files w1 n = \<lparr>fh_fs = Some fs, fh_private = of_nat h, fh_pos = 0, fh_flags = flags, fh_ref = 1\<rparr>"
    and "h < 32" and "dh_device (devfs_handles w1 h) = devfs_resolve_device path" and "wmem w1 = wmem w" and "wcon w1 = wcon w"
proof (cases rule: vfs_open_cases [of "Some path" flags w])
  case (err e)
  then show thesis using o assms(2) by simp
next
  case (ok p gs n hh w2)
  have p: "p = path" using ok(5) by simp
  have "vfs_resolve_fs path w = Some fs" by (simp add: vfs_resolve_fs_def assms(3) reg(1))
  then have gs: "gs = fs" using ok(6) unfolding p by simp
  have op: "fs_open Devfs_ops path flags w = (hh, w2)" using ok(7) unfolding p gs reg(2) .
  have eq: "fd = of_nat n" "w1 = w2\<lparr>open_files := (open_files w)(n :=
      \<lparr>fh_fs = Some fs, fh_private = hh, fh_pos = 0, fh_flags = flags, fh_ref = 1\<rparr>)\<rparr>"
    using ok(1) unfolding o gs by (simp_all only: prod.inject)
  show thesis
  proof (cases rule: devfs_open_cases [of path flags w])
    case (none e)
    then show thesis using op ok(8) by (simp add: fs_open_def)
  next
    case (some d h)
    have "(hh, w2) = (of_nat h, w\<lparr>devfs_handles := (devfs_handles w)(h := \<lparr>dh_device = d, dh_pos = 0\<rparr>)\<rparr>)"
      using op some(1) by (simp only: fs_open_def fs_ops.case)
    then show thesis using that [OF eq(1) ok(2,3)] some(2,4) eq(2) by simp
  qed
qed

lemma put_bytes_console: "wmem v = wmem w \<Longrightarrow> wcon v = wcon w \<Longrightarrow> wcon (put_bytes buf count v) = wcon (put_bytes buf count w)"
proof -
  have "wmem v = wmem w \<Longrightarrow> wcon v = wcon w \<Longrightarrow>
      wcon (fold (\<lambda>i w. w\<lparr>wcon := fb_putchar (wmem w (buf + of_nat i)) (wcon w)\<rparr>) xs v) =
      wcon (fold (\<lambda>i w. w\<lparr>wcon := fb_putchar (wmem w (buf + of_nat i)) (wcon w)\<rparr>) xs w)" for xs
    by (induction xs arbitrary: v w) simp_all
  then show "wmem v = wmem w \<Longrightarrow> wcon v = wcon w \<Longrightarrow> wcon (put_bytes buf count v) = wcon (put_bytes buf count w)"
    by (simp only: put_bytes_def)
qed

lemma add_pos_world [simp]: "wmem (add_pos fd r v) = wmem v" "wcon (add_pos fd r v) = wcon v"
  by (simp_all add: add_pos_def set_fh_def Let_def)

lemma no_access_bits:
  fixes flags :: u32
  assumes "flags AND 3 = 0"
  shows "flags AND 1 = 0 \<and> flags AND 2 = 0"
proof -
  have "flags AND 1 = (flags AND 3) AND 1" "flags AND 2 = (flags AND 3) AND 2" by (simp_all add: and.assoc)
  then show ?thesis unfolding assms by simp
qed

lemma vfs_read_devfs:
  assumes "\<not> vfs_bad fd w" and "open_files w (unat fd) = \<lparr>fh_fs = Some fs, fh_private = h, fh_pos = p, fh_flags = flags, fh_ref = r\<rparr>"
    and "fs_table fs = Devfs_ops" and "flags AND 3 \<noteq> 0"
  shows "fst (vfs_read fd buf count w) = fst (devfs_read h buf count w) \<and>
    wmem (snd (vfs_read fd buf count w)) = wmem (snd (devfs_read h buf count w))"
  using assms by (simp add: vfs_read_def fs_read_def split_beta Let_def)

lemma vfs_write_devfs:
  assumes "\<not> vfs_bad fd w" and "fd \<noteq> 1" and "fd \<noteq> 2" and "fs_table fs = Devfs_ops" and "flags AND 3 \<noteq> 0"
    and "open_files w (unat fd) = \<lparr>fh_fs = Some fs, fh_private = h, fh_pos = p, fh_flags = flags, fh_ref = r\<rparr>"
  shows "fst (vfs_write fd buf count w) = fst (devfs_write h buf count w) \<and>
    wcon (snd (vfs_write fd buf count w)) = wcon (snd (devfs_write h buf count w))"
  using assms by (simp add: vfs_write_def fs_write_def split_beta Let_def)

text \<open>
  C37: A descriptor of a device file that vfs_open just returned: opened with neither of the two low
  bits set, vfs_read and vfs_write of it return EACCES and change nothing; opened with any of these
  bits, /dev/zero can be read (the buffer is zeroed) and /dev/console can be written (the bytes reach
  the screen), so a descriptor opened O_WRONLY may be read and one opened O_RDONLY may be written,
  because both checks accept any bit of O_RDWR.
\<close>

theorem vfs_access_check:
  assumes "vfs_open (Some path) flags w = (fd, w1)" and "0 \<le> sint fd" and "take 5 path = [47, 100, 101, 118, 47]"
    and "vfs_find_registered devfs_name w = Some fs" and "fs_table fs = Devfs_ops"
  shows "if flags AND 3 = 0
    then vfs_read fd buf count w1 = (EACCES, w1) \<and> vfs_write fd buf count w1 = (EACCES, w1)
    else (devfs_resolve_device path = DEVICE_ZERO \<longrightarrow>
        fst (vfs_read fd buf count w1) = count \<and> wmem (snd (vfs_read fd buf count w1)) = memset buf 0 count (wmem w)) \<and>
      (devfs_resolve_device path = DEVICE_CONSOLE \<longrightarrow>
        fst (vfs_write fd buf count w1) = count \<and> wcon (snd (vfs_write fd buf count w1)) = wcon (put_bytes buf count w))"
proof -
  obtain n h where fd: "fd = of_nat n" "3 \<le> n" "n < 32" and h: "h < 32"
    and fh: "open_files w1 n = \<lparr>fh_fs = Some fs, fh_private = of_nat h, fh_pos = 0, fh_flags = flags, fh_ref = 1\<rparr>"
    and dh: "dh_device (devfs_handles w1 h) = devfs_resolve_device path" and same: "wmem w1 = wmem w" "wcon w1 = wcon w"
    using device_opened [OF assms] .
  have u: "unat fd = n" "unat (of_nat h :: u32) = h" using fd h by (simp_all add: unat_of_nat_small)
  have f12: "fd \<noteq> 1" "fd \<noteq> 2" using u(1) fd(2) by auto
  have bad: "\<not> vfs_bad fd w1" "\<not> devfs_bad (of_nat h) w1"
    using u fd fh h dh resolve_device_nonzero [of path] by (simp_all add: vfs_bad_def devfs_bad_def)
  show ?thesis
  proof (cases "flags AND 3 = 0")
    case True
    then show ?thesis using no_access_bits [OF True] bad(1) fh u by (simp add: vfs_read_def vfs_write_def)
  next
    case False
    note r = vfs_read_devfs [OF bad(1) fh [folded u(1)] assms(5) False, of buf count]
      and w = vfs_write_devfs [OF bad(1) f12 assms(5) False fh [folded u(1)], of buf count]
    have "devfs_read (of_nat h) buf count w1 = (count, w1\<lparr>wmem := memset buf 0 count (wmem w1)\<rparr>)"
      if "devfs_resolve_device path = DEVICE_ZERO" using that bad(2) dh u(2) by (simp add: devfs_read_def)
    moreover have "devfs_write (of_nat h) buf count w1 = (count, put_bytes buf count w1)"
      if "devfs_resolve_device path = DEVICE_CONSOLE" using that bad(2) dh u(2) by (simp add: devfs_write_def)
    ultimately show ?thesis using False r w same put_bytes_console [OF same] by auto
  qed
qed

text \<open>\<open>/dev/zero\<close> opened for writing only, and read.\<close>

theorem vfs_access_check_witness:
  "\<exists>w w1. vfs_open (Some [47, 100, 101, 118, 47, 122, 101, 114, 111]) O_WRONLY w = (3, w1) \<and>
     fst (vfs_read 3 64 8 w1) = 8 \<and> wmem w 65 = 7 \<and> wmem (snd (vfs_read 3 64 8 w1)) 65 = 0"
proof -
  let ?fs = "\<lparr>fs_name = devfs_name, fs_table = Devfs_ops\<rparr>" and ?p = "[47, 100, 101, 118, 47, 122, 101, 114, 111] :: u8 list"
  let ?w = "world_bss\<lparr>fs_list := [?fs], wmem := (\<lambda>_. 7)\<rparr>"
  have reg: "vfs_find_registered devfs_name ?w = Some ?fs" "fs_table ?fs = Devfs_ops" by (simp_all add: vfs_find_registered_def)
  have "free_slot (\<lambda>i. fh_ref (open_files ?w i) = 0) 3 = Some 3" "free_slot (\<lambda>i. dh_device (devfs_handles ?w i) = 0) 0 = Some 0"
    by (rule first_free; simp add: world_bss_def no_file_handle_def no_devfs_handle_def)+
  then obtain w1 where o: "vfs_open (Some ?p) O_WRONLY ?w = (3, w1)"
    by (simp add: vfs_open_def vfs_resolve_fs_def reg fs_open_def devfs_open_def devfs_resolve_device_def Let_def)
  have z: "devfs_resolve_device ?p = DEVICE_ZERO" by (simp add: devfs_resolve_device_def)
  have "0 \<le> sint (3 :: u32)" "take 5 ?p = [47, 100, 101, 118, 47]" by simp_all
  from vfs_access_check [OF o this reg, of 64 8] z have r: "fst (vfs_read 3 64 8 w1) = 8"
    "wmem (snd (vfs_read 3 64 8 w1)) = memset 64 0 8 (wmem ?w)" by simp_all
  have "memset 64 0 8 (wmem ?w) 65 = 0" by (simp add: memset_byte)
  then show ?thesis using o r by (intro exI [of _ ?w] exI [of _ w1]) simp
qed

text \<open>The contents of a boot module through the file layer.\<close>

lemma boot_read_module:
  assumes w: "w = loader_init mods_count grub v" and m: "loader_find_module name w = Some m"
    and heap: "kmalloc 24 (wheap w) = Some (p, h1)" "p \<noteq> 0" "kmalloc 24 h1 = Some (q, h2)" "q \<noteq> 0"
    and path: "dropWhile (\<lambda>c. c = 47) path = name" "take 5 path \<noteq> [47, 100, 101, 118, 47]"
    and bounds: "unat (mod_start m) + unat (mod_size m) \<le> 2 ^ 32" "unat buf + unat count \<le> 2 ^ 32"
    and apart: "unat buf + unat count \<le> unat (mod_start m) \<or> unat (mod_start m) + unat (mod_size m) \<le> unat buf"
  shows "\<exists>w1 w2 w3 n. boot_vfs_init w = Some w1 \<and> wmem w1 = wmem w \<and> vfs_open (Some path) O_RDONLY w1 = (3, w2) \<and>
    vfs_read 3 buf count w2 = (of_nat n, w3) \<and> n = min (unat count) (unat (mod_size m)) \<and>
    (\<forall>i<n. wmem w3 (buf + of_nat i) = wmem w (mod_start m + of_nat i))"
proof -
  have "length (modules w) \<le> 16" using loader_module_count w by simp
  then obtain w1 where w1: "boot_vfs_init w = Some w1"
    "fs_list w1 = [\<lparr>fs_name = devfs_name, fs_table = Devfs_ops\<rparr>, \<lparr>fs_name = ramfs_name, fs_table = Ramfs_ops\<rparr>]"
    "ramfs_files w1 = map module_file (modules w)" "wmem w1 = wmem w"
    using boot_result [OF heap] by blast
  obtain i where i: "ramfs_find_file path w1 = Some i" "ramfs_files w1 ! i = module_file m"
    using find_module_file [OF w m w1(3) path(1)] by blast
  obtain w2 where w2: "vfs_open (Some path) O_RDONLY w1 = (3, w2)" "wmem w2 = wmem w"
    "ramfs_files w2 = ramfs_files w1" "ramfs_handles w2 0 = \<lparr>rh_file = Some i, rh_pos = 0\<rparr>"
    "open_files w2 3 = \<lparr>fh_fs = Some \<lparr>fs_name = ramfs_name, fs_table = Ramfs_ops\<rparr>,
       fh_private = 0, fh_pos = 0, fh_flags = O_RDONLY, fh_ref = 1\<rparr>"
    using first_open [OF w1(1,2) i(1) path(2)] w1(4) by simp
  have h: "\<not> ramfs_bad 0 w2" "rh_pos (ramfs_handles w2 0) = 0" "handle_file 0 w2 = module_file m"
    using w2(3,4) i(2) by (simp_all add: ramfs_bad_def handle_file_def out_of_table_def)
  let ?n = "min (unat count) (unat (mod_size m))"
  have "case ramfs_read 0 buf count w2 of (r, w3) \<Rightarrow>
    let n = min (unat count) (unat (rf_size (handle_file 0 w2)) - unat (handle_pos 0 w2))
    in r = of_nat n \<and> handle_pos 0 w3 = handle_pos 0 w2 + of_nat n \<and>
       (\<forall>i<n. wmem w3 (buf + of_nat i) =
          file_bytes (handle_file 0 w2) (wmem w2) ! (unat (handle_pos 0 w2) + i)) \<and>
       (\<forall>a. a \<notin> span buf n \<longrightarrow> wmem w3 a = wmem w2 a)"
    using bounds apart u32_lt [of count]
    by (intro ramfs_read_file h(1)) (simp_all add: h module_file_def)
  then obtain w3 where w3: "ramfs_read 0 buf count w2 = (of_nat ?n, w3)"
    "\<forall>i<?n. wmem w3 (buf + of_nat i) = file_bytes (module_file m) (wmem w2) ! i"
    by (cases "ramfs_read 0 buf count w2") (auto simp: h Let_def module_file_def)
  have "vfs_read 3 buf count w2 = (of_nat ?n, add_pos 3 (of_nat ?n) w3)"
    using w2(5) w3(1) by (simp add: vfs_read_def vfs_bad_def fs_read_def out_of_table_def Let_def)
  moreover have "wmem (add_pos 3 (of_nat ?n) w3) = wmem w3" by (simp add: add_pos_def set_fh_def Let_def)
  moreover have "file_bytes (module_file m) (wmem w2) ! i = wmem w (mod_start m + of_nat i)" if "i < ?n" for i
    using that w2(2) by (simp add: file_bytes_nth module_file_def)
  ultimately show ?thesis using w1(1,4) w2(1) w3(2) by (intro exI [of _ w1] exI [of _ w2] exI conjI) auto
qed

text \<open>
  C16: After boot, opening the name of a boot module (the first of that name) and reading from the new
  descriptor returns the first bytes of the module as the boot loader placed it in memory, as many as
  asked for and there are.
\<close>

theorem vfs_reads_module:
  assumes w: "w = loader_init mods_count grub v" and m: "loader_find_module name w = Some m"
    and heap: "kmalloc 24 (wheap w) = Some (p, h1)" "p \<noteq> 0" "kmalloc 24 h1 = Some (q, h2)" "q \<noteq> 0"
    and path: "dropWhile (\<lambda>c. c = 47) path = name" "take 5 path \<noteq> [47, 100, 101, 118, 47]"
    and bounds: "unat (mod_start m) + unat (mod_size m) \<le> 2 ^ 32" "unat buf + unat count \<le> 2 ^ 32"
    and apart: "unat buf + unat count \<le> unat (mod_start m) \<or> unat (mod_start m) + unat (mod_size m) \<le> unat buf"
  shows "\<exists>w1 w2 w3 n. boot_vfs_init w = Some w1 \<and> vfs_open (Some path) O_RDONLY w1 = (3, w2) \<and>
    vfs_read 3 buf count w2 = (of_nat n, w3) \<and> n = min (unat count) (unat (mod_size m)) \<and>
    (\<forall>i<n. wmem w3 (buf + of_nat i) = wmem w (mod_start m + of_nat i))"
  using boot_read_module [OF assms] by blast

theorem vfs_reads_module_witness:
  "\<exists>w w1 w2 w3. boot_vfs_init w = Some w1 \<and> vfs_open (Some [47, 102]) O_RDONLY w1 = (3, w2) \<and>
     vfs_read 3 64 100 w2 = (16, w3) \<and> wmem w3 79 = wmem w 0x300000F"
proof -
  obtain s p h1 q h2 where k: "kmalloc 24 s = Some (p, h1)" "p \<noteq> 0" "kmalloc 24 h1 = Some (q, h2)" "q \<noteq> 0"
    using boot_heap_twice .
  let ?w = "loader_init 1 demo_grub (world_bss\<lparr>wheap := s\<rparr>)"
  have heap: "kmalloc 24 (wheap ?w) = Some (p, h1)" using k(1) by (simp add: loader_init_def Let_def)
  have "\<exists>w1 w2 w3 n. boot_vfs_init ?w = Some w1 \<and> vfs_open (Some [47, 102]) O_RDONLY w1 = (3, w2) \<and>
    vfs_read 3 64 100 w2 = (of_nat n, w3) \<and> n = min (unat (100 :: u32)) (unat (mod_size demo_module)) \<and>
    (\<forall>i<n. wmem w3 (64 + of_nat i) = wmem ?w (mod_start demo_module + of_nat i))"
    by (rule vfs_reads_module [OF refl demo_find heap k(2-4)]) (simp_all add: demo_module_def)
  then obtain w1 w2 w3 where r: "boot_vfs_init ?w = Some w1" "vfs_open (Some [47, 102]) O_RDONLY w1 = (3, w2)"
    "vfs_read 3 64 100 w2 = (16, w3)" "\<forall>i<16. wmem w3 (64 + of_nat i) = wmem ?w (0x3000000 + of_nat i)"
    by (auto simp: demo_module_def)
  have "wmem w3 (64 + of_nat 15) = wmem ?w (0x3000000 + of_nat 15)" by (rule r(4) [rule_format]) simp
  then have "wmem w3 79 = wmem ?w 0x300000F" by simp
  with r(1-3) show ?thesis by blast
qed

section \<open>What the calls return\<close>

lemma console_read_count: "rc \<le> n \<Longrightarrow> fst (console_read_loop b n rc w) \<le> n"
proof (induction b n rc w rule: console_read_loop.induct)
  case (1 b n rc w)
  have up: "rc + 1 \<le> n" if "rc < n" using inc_le that .
  show ?case
    by (subst console_read_loop.simps) (use 1 up in \<open>auto simp: Let_def split: prod.splits\<close>)
qed

lemma fs_open_result:
  obtains (error) "fst (fs_open t path flags w) \<in> {ENOENT, EACCES, EMFILE}"
  | (handle) i where "fst (fs_open t path flags w) = of_nat i" and "i < 32"
proof (cases "fst (fs_open t path flags w) \<in> {ENOENT, EACCES, EMFILE}")
  case False
  then have "\<exists>i<32. fst (fs_open t path flags w) = of_nat i"
    by (cases t) (auto simp: fs_open_def ramfs_open_def devfs_open_def Let_def dest!: free_slot_Some split: option.splits if_splits)
  then show thesis using handle by auto
qed (rule error)

lemma fs_read_result: "fst (fs_read t h b n w) \<in> {EBADF, EIO} \<or> fst (fs_read t h b n w) \<le> n"
proof (cases t)
  case Ramfs_ops
  have "size - pos \<le> n" if "size < pos + n" "pos < size" for size pos :: u32
    using that by (auto simp: word_less_nat_alt word_le_nat_alt unat_sub_if' unat_plus_if' split: if_splits)
  then show ?thesis using Ramfs_ops by (auto simp: fs_read_def ramfs_read_def Let_def not_le)
next
  case Devfs_ops
  then show ?thesis using console_read_count [of 0 n b w] by (simp add: fs_read_def devfs_read_def Let_def)
qed

lemma fs_write_result: "fst (fs_write t h b n w) \<in> {EBADF, EACCES, EIO, n}"
  by (cases t) (simp_all add: fs_write_def ramfs_write_def devfs_write_def Let_def)

lemma fs_seek_result: "fst (fs_seek t h off wh w) \<in> {EBADF, EINVAL} \<or> fst (fs_seek t h off wh w) \<le> rf_size (handle_file h w)"
  by (cases t) (auto simp: fs_seek_def ramfs_seek_def devfs_seek_def Let_def not_less)

lemma fs_ioctl_result: "fst (fs_ioctl t h rq ap w) \<in> {0, EBADF, EINVAL}"
  by (cases t) (simp_all add: fs_ioctl_def ramfs_ioctl_def devfs_ioctl_def Let_def)

lemma fs_stat_result:
  "fst (fs_stat t path w) = 0 \<and> snd (fs_stat t path w) \<noteq> None \<or> fst (fs_stat t path w) = ENOENT \<and> snd (fs_stat t path w) = None"
  by (cases t) (simp_all add: fs_stat_def ramfs_stat_def devfs_stat_def Let_def split: option.splits)

lemma vfs_open_result:
  "fst (vfs_open path flags w) \<in> {EINVAL, ENOENT, EACCES, EMFILE} \<or> fst (vfs_open path flags w) \<in> {3..31}"
proof (cases path)
  case (Some p)
  show ?thesis
  proof (cases "vfs_resolve_fs p w")
    case fs: (Some fs)
    show ?thesis
    proof (cases "free_slot (\<lambda>i. fh_ref (open_files w i) = 0) 3")
      case slot: (Some fd)
      have "3 \<le> fd" "fd < 32" using free_slot_Some [OF slot] by auto
      then have fd: "(of_nat fd :: u32) \<in> {3..31}" by (simp add: word_le_nat_alt unat_of_nat_small)
      show ?thesis
      proof (cases rule: fs_open_result [of "fs_table fs" p flags w])
        case error
        then show ?thesis using Some fs slot by (auto simp: vfs_open_def split: prod.splits)
      next
        case (handle i)
        then have "0 \<le> sint (fst (fs_open (fs_table fs) p flags w))" using sint_of_nat_slot [of i] by simp
        then show ?thesis using Some fs slot fd by (auto simp: vfs_open_def split: prod.splits)
      qed
    qed (use Some fs in \<open>simp add: vfs_open_def\<close>)
  qed (use Some in \<open>simp add: vfs_open_def\<close>)
qed (simp add: vfs_open_def)

lemma vfs_read_result: "fst (vfs_read fd buf count w) \<in> {EBADF, EACCES, EIO} \<or> fst (vfs_read fd buf count w) \<le> count"
  and vfs_write_result: "fst (vfs_write fd buf count w) \<in> {EBADF, EACCES, EIO, count}"
  and vfs_seek_result: "fst (vfs_seek fd offset whence w) \<in> {EBADF, EIO, EINVAL} \<or>
    fst (vfs_seek fd offset whence w) \<le> rf_size (handle_file (fh_private (open_files w (unat fd))) w)"
  and vfs_ioctl_result: "fst (vfs_ioctl fd request argp w) \<in> {0, EBADF, EINVAL}"
proof -
  let ?h = "fh_private (open_files w (unat fd))" and ?t = "fs_table (the (fh_fs (open_files w (unat fd))))"
  show "fst (vfs_read fd buf count w) \<in> {EBADF, EACCES, EIO} \<or> fst (vfs_read fd buf count w) \<le> count"
    using fs_read_result [of ?t ?h buf count w] by (auto simp: vfs_read_def Let_def case_prod_beta split: option.splits)
  show "fst (vfs_write fd buf count w) \<in> {EBADF, EACCES, EIO, count}"
    using fs_write_result [of ?t ?h buf count w] by (auto simp: vfs_write_def Let_def case_prod_beta split: option.splits)
  show "fst (vfs_seek fd offset whence w) \<in> {EBADF, EIO, EINVAL} \<or> fst (vfs_seek fd offset whence w) \<le> rf_size (handle_file ?h w)"
    using fs_seek_result [of ?t ?h offset whence w] by (auto simp: vfs_seek_def Let_def split: option.splits)
  show "fst (vfs_ioctl fd request argp w) \<in> {0, EBADF, EINVAL}"
    using fs_ioctl_result [of ?t ?h request argp w] by (auto simp: vfs_ioctl_def Let_def split: option.splits)
qed

lemma vfs_stat_result:
  "fst (vfs_stat path stat w) \<in> {0, EINVAL, ENOENT} \<and>
   (fst (vfs_stat path stat w) = 0 \<longleftrightarrow> (\<exists>st. snd (vfs_stat path stat w) = Some st))"
  using fs_stat_result [of "fs_table (the (vfs_resolve_fs (the path) w))" "the path" w]
  by (auto simp: vfs_stat_def split: option.splits)

lemma vfs_close_result: "fst (vfs_close fd w) \<in> {0, EBADF}"
  by (simp add: vfs_close_def Let_def)

text \<open>
  C23: In every state the results of the file calls have their documented form: vfs_open returns
  EINVAL, ENOENT, EACCES, EMFILE or a descriptor from 3 to 31, vfs_close 0 or EBADF, vfs_read an error
  or at most the count, vfs_write an error or the count, vfs_seek an error or a position inside the
  file, vfs_ioctl 0, EBADF or EINVAL, and vfs_stat fills in its record exactly when it returns 0.
\<close>

theorem vfs_results:
  "(fst (vfs_open path flags w) \<in> {EINVAL, ENOENT, EACCES, EMFILE} \<or> fst (vfs_open path flags w) \<in> {3..31}) \<and>
   fst (vfs_close fd w) \<in> {0, EBADF} \<and>
   (fst (vfs_read fd buf count w) \<in> {EBADF, EACCES, EIO} \<or> fst (vfs_read fd buf count w) \<le> count) \<and>
   fst (vfs_write fd buf count w) \<in> {EBADF, EACCES, EIO, count} \<and>
   (fst (vfs_seek fd offset whence w) \<in> {EBADF, EIO, EINVAL} \<or>
     fst (vfs_seek fd offset whence w) \<le> rf_size (handle_file (fh_private (open_files w (unat fd))) w)) \<and>
   fst (vfs_ioctl fd request argp w) \<in> {0, EBADF, EINVAL} \<and>
   fst (vfs_stat path stat w) \<in> {0, EINVAL, ENOENT} \<and>
   (fst (vfs_stat path stat w) = 0 \<longleftrightarrow> (\<exists>st. snd (vfs_stat path stat w) = Some st))"
  by (intro conjI vfs_open_result vfs_close_result vfs_read_result vfs_write_result vfs_seek_result vfs_ioctl_result
      vfs_stat_result)

end
