(* ===== verification/Process.thy ===== *)
theory Process
  imports Vmm Vfs
begin

text \<open>
  Processes of \<open>kernel/process/process.c\<close>: the table of process control blocks, creation from a boot
  module, start and exit. A pointer into the table is an index; the switch to user mode is machine
  code, the model gives the arguments of its call. Log output is left out, the memory accesses made
  for it are kept.
\<close>

section \<open>Data\<close>

definition MAX_PROCESSES :: nat where [simp]: "MAX_PROCESSES = 16"
definition USER_STACK_TOP :: u32 where [simp]: "USER_STACK_TOP = 0xBFFFFFFB"

datatype process_state =
  PROCESS_UNUSED | PROCESS_READY | PROCESS_RUNNING | PROCESS_BLOCKED | PROCESS_TERMINATED

record pcb =
  pid :: u32
  pstate :: process_state
  pname :: "u8 list"
  page_directory :: u32
  entry_point :: u32
  user_stack :: u32
  kernel_stack :: u32
  cr3_snapshot :: u32

text \<open>The kernel: files, memory and processes.\<close>

record kernel =
  files :: world
  vm :: vm_state
  processes :: "pcb list"
  current_process :: "nat option"
  next_pid :: u32

definition pcb_zero :: pcb where
  "pcb_zero = \<lparr>pid = 0, pstate = PROCESS_UNUSED, pname = replicate 32 0, page_directory = 0, entry_point = 0,
     user_stack = 0, kernel_stack = 0, cr3_snapshot = 0\<rparr>"

section \<open>Operations\<close>

definition process_init :: "kernel \<Rightarrow> kernel" where
  "process_init k = k\<lparr>processes := replicate MAX_PROCESSES pcb_zero\<rparr>"

text \<open>\<open>strncpy\<close> of a string to the first \<open>n\<close> bytes of a buffer.\<close>

definition strncpy_bytes :: "u8 list \<Rightarrow> u8 list \<Rightarrow> nat \<Rightarrow> u8 list" where
  "strncpy_bytes buf s n = take n (s @ replicate n 0) @ drop n buf"

text \<open>The byte loads of the log of the program's first bytes.\<close>

fun read_bytes :: "u32 \<Rightarrow> nat \<Rightarrow> vm_state \<Rightarrow> u8 list option" where
  "read_bytes ptr 0 s = Some []"
| "read_bytes ptr (Suc n) s = do {
     c \<leftarrow> vread8 (cr3 s) ptr (pmem s);
     cs \<leftarrow> read_bytes (ptr + 1) n s;
     Some (c # cs)
   }"

text \<open>The check of the new mapping, which is there for the log.\<close>

definition verify_mapping :: "u32 \<Rightarrow> vm_state \<Rightarrow> vm_state option" where
  "verify_mapping user_page_dir s = do {
     (temp_page_dir, s) \<leftarrow> temp_map_page user_page_dir s;
     pde \<leftarrow> kread temp_page_dir s;
     s \<leftarrow> (if pde AND 1 \<noteq> 0 then do {
            let page_table_phys = pde AND 0xFFFFF000;
            (temp_table, s) \<leftarrow> temp_map_page page_table_phys s;
            pte \<leftarrow> kread temp_table s;
            s \<leftarrow> (if pte AND 1 \<noteq> 0 then do {
                   let user_page_phys = pte AND 0xFFFFF000;
                   if user_page_phys = 0x2101000 then do {
                     (temp_user_page, s) \<leftarrow> temp_map_page user_page_phys s;
                     _ \<leftarrow> read_bytes temp_user_page 16 s;
                     temp_unmap_page temp_user_page s
                   } else Some s
                 } else Some s);
            temp_unmap_page temp_table s
          } else Some s);
     temp_unmap_page temp_page_dir s
   }"

definition unused_slot :: "kernel \<Rightarrow> nat option" where
  "unused_slot k = List.find (\<lambda>i. pstate (processes k ! i) = PROCESS_UNUSED) [0..<MAX_PROCESSES]"

definition process_create_from_module :: "u8 list \<Rightarrow> kernel \<Rightarrow> (u32 \<times> kernel) option" where
  "process_create_from_module module_name k =
     (case loader_find_module module_name (files k) of
        None \<Rightarrow> Some (0, k)
      | Some m \<Rightarrow>
          (case unused_slot k of
             None \<Rightarrow> Some (0, k)
           | Some i \<Rightarrow> do {
               (user_page_dir, v) \<leftarrow> vmm_create_user_space (vm k);
               if user_page_dir = 0 then Some (0, k\<lparr>vm := v\<rparr>)
               else do {
                 (loaded, v) \<leftarrow> vmm_load_user_program user_page_dir (mod_start m) (mod_size m) v;
                 if loaded = 0 then do {
                   v \<leftarrow> vmm_destroy_user_space user_page_dir v;
                   Some (0, k\<lparr>vm := v\<rparr>)
                 }
                 else do {
                   (kstack, v) \<leftarrow> alloc_page v;
                   if kstack = 0 then do {
                     v \<leftarrow> vmm_destroy_user_space user_page_dir v;
                     Some (0, k\<lparr>vm := v\<rparr>)
                   }
                   else do {
                     let p = (processes k ! i)\<lparr>pid := next_pid k, pstate := PROCESS_READY,
                       pname := strncpy_bytes (pname (processes k ! i)) module_name 31,
                       page_directory := user_page_dir, entry_point := 0, user_stack := USER_STACK_TOP,
                       kernel_stack := kstack + PAGE_SIZE\<rparr>;
                     let k = k\<lparr>next_pid := next_pid k + 1, processes := (processes k)[i := p]\<rparr>;
                     v \<leftarrow> verify_mapping user_page_dir v;
                     Some (pid p, k\<lparr>vm := v\<rparr>)
                   }
                 }
               }
             }))"

text \<open>The second component is the call of \<open>switch_to_user_mode\<close>, when it is made.\<close>

definition process_start :: "u32 \<Rightarrow> kernel \<Rightarrow> kernel \<times> (u32 \<times> u32 \<times> u32) option" where
  "process_start p k =
     (case List.find (\<lambda>i. pid (processes k ! i) = p \<and> pstate (processes k ! i) = PROCESS_READY) [0..<MAX_PROCESSES] of
        None \<Rightarrow> (k, None)
      | Some i \<Rightarrow>
          let b = (processes k ! i)\<lparr>pstate := PROCESS_RUNNING\<rparr>
          in (k\<lparr>current_process := Some i, processes := (processes k)[i := b]\<rparr>,
              Some (page_directory b, entry_point b, user_stack b)))"

definition process_exit_current :: "kernel \<Rightarrow> kernel option" where
  "process_exit_current k =
     (case current_process k of
        None \<Rightarrow> Some k
      | Some i \<Rightarrow> do {
          let b = processes k ! i;
          v \<leftarrow> vmm_destroy_user_space (page_directory b) (vm k);
          v \<leftarrow> free_page (kernel_stack b - PAGE_SIZE) v;
          Some (k\<lparr>vm := v, processes := (processes k)[i := b\<lparr>pstate := PROCESS_TERMINATED\<rparr>], current_process := None\<rparr>)
        })"

definition process_get_current :: "kernel \<Rightarrow> pcb option" where
  "process_get_current k = map_option (\<lambda>i. processes k ! i) (current_process k)"

text \<open>The lines of the process list: number, name and state of every block in use.\<close>

definition state_str :: "process_state \<Rightarrow> string" where
  "state_str st =
     (case st of
        PROCESS_READY \<Rightarrow> ''READY''
      | PROCESS_RUNNING \<Rightarrow> ''RUNNING''
      | PROCESS_TERMINATED \<Rightarrow> ''TERMINATED''
      | PROCESS_BLOCKED \<Rightarrow> ''BLOCKED''
      | PROCESS_UNUSED \<Rightarrow> ''UNKNOWN'')"

definition process_list :: "kernel \<Rightarrow> (u32 \<times> u8 list \<times> string) list" where
  "process_list k =
     map (\<lambda>b. (pid b, takeWhile (\<lambda>c. c \<noteq> 0) (pname b), state_str (pstate b)))
       (filter (\<lambda>b. pstate b \<noteq> PROCESS_UNUSED) (processes k))"

section \<open>The process table\<close>

text \<open>The first \<open>n\<close> blocks are in use and carry the numbers from 1 to \<open>n\<close>; the current process runs.\<close>

definition table_inv :: "nat \<Rightarrow> kernel \<Rightarrow> bool" where
  "table_inv n k \<longleftrightarrow> length (processes k) = 16 \<and> n \<le> 16 \<and> next_pid k = of_nat (Suc n) \<and>
     (\<forall>i<16. pstate (processes k ! i) = PROCESS_UNUSED \<longleftrightarrow> n \<le> i) \<and>
     (\<forall>i<n. pid (processes k ! i) = of_nat (Suc i)) \<and>
     (\<forall>i. current_process k = Some i \<longrightarrow> i < n \<and> pstate (processes k ! i) = PROCESS_RUNNING)"

lemma unused_slot_inv:
  assumes "table_inv n k"
  shows "unused_slot k = (if n < 16 then Some n else None)"
proof (cases "n < 16")
  case True
  then have "unused_slot k = Some n" using assms
    by (auto simp: unused_slot_def find_Some_iff table_inv_def intro!: exI [of _ n])
  then show ?thesis using True by simp
next
  case False
  then show ?thesis using assms by (auto simp: unused_slot_def find_None_iff table_inv_def)
qed

lemma of_nat_Suc_neq_0: "n < 16 \<Longrightarrow> (of_nat (Suc n) :: u32) \<noteq> 0"
proof
  assume "n < 16" "(of_nat (Suc n) :: u32) = 0"
  moreover have "unat (of_nat (Suc n) :: u32) = Suc n" using calculation(1) by (intro unat_of_nat_small) simp
  ultimately show False by (metis nat.distinct(1) unsigned_0)
qed

lemma process_init_inv: "next_pid k = 1 \<Longrightarrow> current_process k = None \<Longrightarrow> table_inv 0 (process_init k)"
  by (simp add: table_inv_def process_init_def pcb_zero_def)

text \<open>A creation that gives a process number, and one that does not.\<close>

lemma create_cases:
  assumes "process_create_from_module name k = Some (r, k')"
  obtains (none) v where "k' = k\<lparr>vm := v\<rparr>" and "r = 0"
  | (new) v i p where "unused_slot k = Some i" and "pid p = next_pid k" and "pstate p = PROCESS_READY" and "r = next_pid k"
      and "k' = k\<lparr>next_pid := next_pid k + 1, processes := (processes k)[i := p], vm := v\<rparr>"
proof -
  show thesis
  proof (cases "loader_find_module name (files k)")
    case None
    then show thesis using assms none [of "vm k"] by (simp add: process_create_from_module_def)
  next
    case m: (Some m)
    show thesis
    proof (cases "unused_slot k")
      case None
      then show thesis using assms m none [of "vm k"] by (simp add: process_create_from_module_def)
    next
      case i: (Some i)
      note eq = assms [unfolded process_create_from_module_def m i, simplified, folded One_nat_def]
      obtain d v1 where d: "vmm_create_user_space (vm k) = Some (d, v1)" using eq by (auto simp: bind_eq_Some_conv)
      show thesis
      proof (cases "d = 0")
        case True
        then show thesis using eq d none [of v1] by simp
      next
        case False
        then obtain l v2 where l: "vmm_load_user_program d (mod_start m) (mod_size m) v1 = Some (l, v2)"
          using eq d by (auto simp: bind_eq_Some_conv)
        show thesis
        proof (cases "l = 0")
          case True
          then show thesis using eq d False l none by (auto simp: bind_eq_Some_conv)
        next
          case l1: False
          then obtain a v3 where a: "alloc_page v2 = Some (a, v3)" using eq d False l by (auto simp: bind_eq_Some_conv)
          show thesis
          proof (cases "a = 0")
            case True
            then show thesis using eq d False l l1 a none by (auto simp: bind_eq_Some_conv)
          next
            case False
            let ?p = "(processes k ! i)\<lparr>pid := next_pid k, pstate := PROCESS_READY,
                pname := strncpy_bytes (pname (processes k ! i)) name 31, page_directory := d, entry_point := 0,
                user_stack := USER_STACK_TOP, kernel_stack := a + PAGE_SIZE\<rparr>"
            obtain v4 where "verify_mapping d v3 = Some v4"
              using False eq d \<open>d \<noteq> 0\<close> l l1 a by (auto simp: bind_eq_Some_conv Let_def)
            then show thesis
              by (intro new [OF i, of ?p v4]) (use False eq d \<open>d \<noteq> 0\<close> l l1 a in \<open>auto simp: Let_def\<close>)
          qed
        qed
      qed
    qed
  qed
qed

lemma table_inv_create:
  assumes inv: "table_inv n k" and "process_create_from_module name k = Some (r, k')"
  shows "r = 0 \<and> table_inv n k' \<or> n < 16 \<and> r = of_nat (Suc n) \<and> table_inv (Suc n) k'"
  using assms(2)
proof (cases rule: create_cases)
  case (new v i p)
  then have "n < 16" "i = n" using unused_slot_inv [OF inv] by (auto split: if_splits)
  then show ?thesis using inv new by (auto simp: table_inv_def nth_list_update less_Suc_eq)
qed (use inv in \<open>simp add: table_inv_def\<close>)

lemma table_inv_used: "table_inv n k \<Longrightarrow> i < 16 \<Longrightarrow> pstate (processes k ! i) \<noteq> PROCESS_UNUSED \<Longrightarrow> i < n"
  by (auto simp: table_inv_def)

lemma process_start_cases:
  obtains (none) "process_start p k = (k, None)"
  | (started) i where "i < 16" and "pid (processes k ! i) = p" and "pstate (processes k ! i) = PROCESS_READY"
      and "process_start p k = (k\<lparr>current_process := Some i,
        processes := (processes k)[i := (processes k ! i)\<lparr>pstate := PROCESS_RUNNING\<rparr>]\<rparr>,
        Some (page_directory (processes k ! i), entry_point (processes k ! i), user_stack (processes k ! i)))"
proof (cases "List.find (\<lambda>i. pid (processes k ! i) = p \<and> pstate (processes k ! i) = PROCESS_READY) [0..<MAX_PROCESSES]")
  case None
  then show thesis using none by (simp add: process_start_def)
next
  case (Some i)
  then have "i < 16" "pid (processes k ! i) = p" "pstate (processes k ! i) = PROCESS_READY"
    by (auto simp: find_Some_iff)
  then show thesis using Some started by (simp add: process_start_def Let_def)
qed

lemma table_inv_start: "table_inv n k \<Longrightarrow> table_inv n (fst (process_start p k))"
proof (cases rule: process_start_cases [of p k])
  case (started i)
  assume inv: "table_inv n k"
  have "i < n" by (rule table_inv_used [OF inv started(1)]) (simp add: started(3))
  then show ?thesis using inv started by (auto simp: table_inv_def nth_list_update)
qed simp

lemma table_inv_exit: "table_inv n k \<Longrightarrow> process_exit_current k = Some k' \<Longrightarrow> table_inv n k'"
  by (auto simp: table_inv_def process_exit_current_def Let_def nth_list_update bind_eq_Some_conv split: option.splits if_splits)

text \<open>Starting the process that was created last.\<close>

lemma process_start_new:
  assumes inv: "table_inv (Suc n) k" and "n < 16" and "pstate (processes k ! n) = PROCESS_READY"
  shows "process_start (of_nat (Suc n)) k = (k\<lparr>current_process := Some n,
      processes := (processes k)[n := (processes k ! n)\<lparr>pstate := PROCESS_RUNNING\<rparr>]\<rparr>,
      Some (page_directory (processes k ! n), entry_point (processes k ! n), user_stack (processes k ! n)))"
proof (cases rule: process_start_cases [of "of_nat (Suc n)" k])
  case none
  have "pid (processes k ! n) = of_nat (Suc n)" using inv by (simp add: table_inv_def)
  then have "List.find (\<lambda>i. pid (processes k ! i) = of_nat (Suc n) \<and> pstate (processes k ! i) = PROCESS_READY) [0..<MAX_PROCESSES] \<noteq> None"
    using assms(2,3) by (auto simp: find_None_iff)
  then show ?thesis using none by (auto simp: process_start_def Let_def)
next
  case (started i)
  have "i < Suc n" by (rule table_inv_used [OF inv started(1)]) (simp add: started(3))
  then have "pid (processes k ! i) = of_nat (Suc i)" using inv by (simp add: table_inv_def)
  then have "(of_nat (Suc i) :: u32) = of_nat (Suc n)" using started(2) by simp
  moreover have "unat (of_nat (Suc j) :: u32) = Suc j" if "j < 16" for j using that by (intro unat_of_nat_small) simp
  ultimately have "i = n" using assms(2) started(1) by (metis Suc_inject)
  then show ?thesis using started(4) by simp
qed

section \<open>Creation\<close>

lemma read_bytes_window:
  "temp_inv dir T A s \<Longrightarrow> k < 4 \<Longrightarrow> A k = Some f \<Longrightarrow> i + n \<le> 4096 \<Longrightarrow> \<exists>cs. read_bytes (slot_va k + of_nat i) n s = Some cs"
proof (induction n arbitrary: i)
  case (Suc n)
  obtain cs where "read_bytes (slot_va k + of_nat (Suc i)) n s = Some cs"
    using Suc.IH [OF Suc.prems(1-3), of "Suc i"] Suc.prems(4) by auto
  moreover have "vread8 (cr3 s) (slot_va k + of_nat i) (pmem s) = Some (pmem s (f + of_nat i))"
    using window_translate [OF Suc.prems(1-3), of "of_nat i"] Suc.prems(4) temp_invD(1) [OF Suc.prems(1)]
    by (simp add: vread8_def of_nat_offset)
  ultimately show ?case by (simp add: add.commute add.left_commute)
qed simp

lemma first_slot_2 [simp]: "first_slot (no_slots(0 \<mapsto> f, 1 \<mapsto> g)) = Some 2"
  by (simp add: first_slot_def upt_conv_Cons)

text \<open>The log of the program's first bytes.\<close>

lemma log_bytes_ok:
  assumes ok: "vm_ok dir T (no_slots(0 \<mapsto> f, 1 \<mapsto> g)) b F s" and "page_aligned a"
  obtains t cs s' where "temp_map_page a s = Some (slot_va 2, t)" and "read_bytes (slot_va 2) 16 t = Some cs"
    and "temp_unmap_page (slot_va 2) t = Some s'" and "vm_ok dir T (no_slots(0 \<mapsto> f, 1 \<mapsto> g)) b F s'"
    and "only_frames {T} (pmem s) (pmem s')"
proof -
  let ?A = "no_slots(0 \<mapsto> f, 1 \<mapsto> g)"
  obtain t where t: "temp_map_page a s = Some (slot_va 2, t)" "vm_ok dir T (?A(2 \<mapsto> a)) b F t" "only_frames {T} (pmem s) (pmem t)"
    using map_slot [OF ok assms(2) first_slot_2] .
  have A: "(2::nat) < 4" "(?A(2 \<mapsto> a)) 2 = Some a" "(?A(2 \<mapsto> a))(2 := None) = ?A" by auto
  obtain cs where cs: "read_bytes (slot_va 2) 16 t = Some cs"
    using read_bytes_window [OF vm_okD(1) [OF t(2)] A(1,2), of 0 16] by auto
  obtain s' where s': "temp_unmap_page (slot_va 2) t = Some s'" "vm_ok dir T ((?A(2 \<mapsto> a))(2 := None)) b F s'"
    "only_frames {T} (pmem t) (pmem s')" using unmap_slot [OF t(2) A(1,2)] .
  have "only_frames {T} (pmem s) (pmem s')" using only_frames_trans [OF t(3) s'(3)] by simp
  then show thesis using that t(1) cs s'(1,2) A(3) by simp
qed

lemma verify_mapping_ok:
  assumes ok: "vm_ok dir T no_slots b F s" and tab: "program_tables dir pd ct code st stack (pmem s)"
    and pd: "page_aligned pd" "pd \<noteq> T" and ct: "page_aligned ct" "ct \<noteq> T" and code: "page_aligned code"
  obtains s' where "verify_mapping pd s = Some s'" and "vm_ok dir T no_slots b F s'" and "only_frames {T} (pmem s) (pmem s')"
proof -
  let ?A1 = "no_slots(0 \<mapsto> pd)" and ?A2 = "no_slots(0 \<mapsto> pd, 1 \<mapsto> ct)"
  have A: "(0::nat) < 4" "?A1 0 = Some pd" "(1::nat) < 4" "?A2 1 = Some ct" "?A2(1 := None) = ?A1" "?A1(0 := None) = no_slots"
    by auto
  obtain s1 where s1: "temp_map_page pd s = Some (slot_va 0, s1)" "vm_ok dir T ?A1 b F s1" "only_frames {T} (pmem s) (pmem s1)"
    using map_slot [OF ok pd(1) first_slot_0] .
  have e1: "load32 (pmem s1) (entry pd 0) = ct OR 7" using only_frames_entry [OF s1(3) _ pd(1), of 0] pd(2) tab
    by (simp add: program_tables_def)
  have r1: "kread (slot_va 0) s1 = Some (ct OR 7)" using window_read [OF vm_okD(1) [OF s1(2)] A(1,2), of 0] e1 by simp
  obtain s2 where s2: "temp_map_page ct s1 = Some (slot_va 1, s2)" "vm_ok dir T ?A2 b F s2" "only_frames {T} (pmem s1) (pmem s2)"
    using map_slot [OF s1(2) ct(1) first_slot_1] .
  have o2: "only_frames {T} (pmem s) (pmem s2)" using only_frames_trans [OF s1(3) s2(3)] by simp
  have e2: "load32 (pmem s2) (entry ct 0) = code OR 7" using only_frames_entry [OF o2 _ ct(1), of 0] ct(2) tab
    by (simp add: program_tables_def)
  have r2: "kread (slot_va 1) s2 = Some (code OR 7)" using window_read [OF vm_okD(1) [OF s2(2)] A(3,4), of 0] e2 by simp
  have fr: "(f OR 7) AND 0xFFFFF000 = f" if "page_aligned f" for f using or_flags_frame [OF that, of 7] by (simp add: FRAME_MASK_def)
  obtain s3 where s3: "(if code = 0x2101000 then do {
        (t, s) \<leftarrow> temp_map_page code s2; cs \<leftarrow> read_bytes t 16 s; temp_unmap_page t s } else Some s2) = Some s3"
    "vm_ok dir T ?A2 b F s3" "only_frames {T} (pmem s2) (pmem s3)"
  proof (cases "code = 0x2101000")
    case True
    obtain t cs s' where "temp_map_page code s2 = Some (slot_va 2, t)" "read_bytes (slot_va 2) 16 t = Some cs"
      "temp_unmap_page (slot_va 2) t = Some s'" "vm_ok dir T ?A2 b F s'" "only_frames {T} (pmem s2) (pmem s')"
      using log_bytes_ok [OF s2(2) code] .
    then show thesis using that True by simp
  qed (use that s2(2) in simp)
  obtain s4 where s4: "temp_unmap_page (slot_va 1) s3 = Some s4" "vm_ok dir T (?A2(1 := None)) b F s4" "only_frames {T} (pmem s3) (pmem s4)"
    using unmap_slot [OF s3(2) A(3,4)] .
  obtain s5 where s5: "temp_unmap_page (slot_va 0) s4 = Some s5" "vm_ok dir T (?A1(0 := None)) b F s5" "only_frames {T} (pmem s4) (pmem s5)"
    using unmap_slot [OF s4(2) [unfolded A(5)] A(1,2)] .
  have "only_frames {T} (pmem s) (pmem s5)"
    using only_frames_trans [OF only_frames_trans [OF o2 s3(3)] only_frames_trans [OF s4(3) s5(3)]] by simp
  moreover have "verify_mapping pd s = Some s5"
    using s1(1) r1 s2(1) r2 s3(1) s4(1) s5(1) fr [OF ct(1)] fr [OF code]
    by (simp add: verify_mapping_def entry_present Let_def)
  ultimately show thesis using that s5(2) A(6) by simp
qed

text \<open>What a successful creation leaves: the block of the new process and its address space.\<close>

definition new_process :: "u32 \<Rightarrow> mem \<Rightarrow> module_info \<Rightarrow> u32 \<Rightarrow> mem \<Rightarrow> pcb \<Rightarrow> bool" where
  "new_process dir m0 md n m p \<longleftrightarrow> pid p = n \<and> pstate p = PROCESS_READY \<and> entry_point p = 0 \<and>
     user_stack p = USER_STACK_TOP \<and>
     (\<forall>i<unat (mod_size md). \<exists>pa. translate (page_directory p) m (entry_point p + of_nat i) = Some pa \<and>
        m pa = m0 (mod_start md + of_nat i)) \<and>
     (\<forall>va. 0x1000 \<le> unat va \<and> unat va < 0xC0000000 \<longrightarrow> translate (page_directory p) m va = None) \<and>
     (\<forall>va. 0xC0000000 \<le> unat va \<and> unat va < 0xFF800000 \<longrightarrow> translate (page_directory p) m va = translate dir m va) \<and>
     translate (page_directory p) m (user_stack p) = None"

lemma program_process:
  assumes "program_tables dir pd ct code st stack m" and "page_aligned ct" and "page_aligned code" and "page_aligned st"
    and "page_aligned stack" and "unat (mod_size md) \<le> 4096"
    and "\<And>i. i < unat (mod_size md) \<Longrightarrow> m (code + of_nat i) = m0 (mod_start md + of_nat i)"
    and "pid p = n" and "pstate p = PROCESS_READY" and "page_directory p = pd" and "entry_point p = 0"
    and "user_stack p = USER_STACK_TOP"
  shows "new_process dir m0 md n m p"
proof -
  note tr = program_translate [OF assms(1-5)]
  have "unat (of_nat i :: u32) = i" if "i < unat (mod_size md)" for i using that assms(6) by (intro of_nat_offset) simp
  then show ?thesis using assms(6-12) by (auto simp: new_process_def tr)
qed

lemma pages_not_T: "vm_ok dir T A b F s \<Longrightarrow> pfn a \<in> F \<Longrightarrow> a \<noteq> T"
  by (auto simp: vm_ok_def)

lemma create_ok:
  assumes tab: "table_inv n k" "n < 16" and ok: "vm_ok dir T no_slots b F (vm k)"
    and m: "loader_find_module name (files k) = Some md" "page_aligned (mod_start md)" "mod_start md \<noteq> T"
      "pfn (mod_start md) \<notin> F" "unat (mod_size md) \<le> 4096"
  obtains (none) v where "process_create_from_module name k = Some (0, k\<lparr>vm := v\<rparr>)" and "card F < 5" and "vm_ok dir T no_slots b F v"
  | (lost) v P where "process_create_from_module name k = Some (0, k\<lparr>vm := v\<rparr>)" and "P \<subseteq> F" and "card P = 4" and "card F = 5"
      and "vm_ok dir T no_slots b (F - P) v"
  | (created) v p P ks where "process_create_from_module name k = Some (next_pid k,
        k\<lparr>next_pid := next_pid k + 1, processes := (processes k)[n := p], vm := v\<rparr>)"
      and "P \<subseteq> F" and "card P = 6" and "vm_ok dir T no_slots b (F - P) v"
      and "new_process dir (pmem (vm k)) md (next_pid k) (pmem v) p"
      and "kernel_stack p = ks + PAGE_SIZE" and "pmm_valid b 0 ks" and "pmm_valid b 0 (page_directory p)"
      and "{pfn ks, pfn (page_directory p)} \<subseteq> P" and "pfn ks \<noteq> pfn (page_directory p)"
      and "{ks, page_directory p} \<inter> {0, dir, T} = {}"
proof -
  have slot: "unused_slot k = Some n" using unused_slot_inv [OF tab(1)] tab(2) by simp
  note def = process_create_from_module_def [of name k, unfolded m(1) slot, simplified]
  show thesis
    using ok
  proof (cases rule: create_user_space_ok)
    case no: none
    show thesis by (rule none [of "vm k"]) (use no def ok in simp_all)
  next
    case d: (space d v1)
    have d_dir: "d \<noteq> dir" "page_aligned d" using d(7) by (simp_all add: user_directory_def)
    have fin: "finite F" by (rule vm_ok_finite [OF ok])
    have card1: "card (F - {pfn d}) = card F - 1" "card F \<noteq> 0" using d(4) fin by auto
    have nd: "pfn d \<notin> F - {pfn d}" and nm: "pfn (mod_start md) \<notin> F - {pfn d}" "mod_start md \<noteq> d" using m(4) d(4) by auto
    show thesis
      using d(6) d(7) d(5) nd m(2,3) nm(2,1) m(5)
    proof (cases rule: load_ok)
      case no: (none v2)
      obtain v3 where v3: "free_page d v2 = Some v3" "vm_ok dir T no_slots b F v3"
        using free_taken [OF no(3) d(3,4) d_dir(1) d(5)] .
      show thesis
        by (rule none [of v3]) (use def d(1,2) no(1,2) v3 card1 in \<open>simp_all add: vmm_destroy_user_space_def\<close>)
    next
      case ld: (loaded code stack ct st v2)
      let ?P = "pfn ` {code, stack, ct, st}"
      have inj: "inj_on pfn {code, stack, ct, st}" using ld(4-7) page_pfn_eq by (intro inj_onI) auto
      have "card {code, stack, ct, st} = 4" using ld(2) by simp
      then have P: "card ?P = 4" using card_image [OF inj] by simp
      have le: "4 \<le> card (F - {pfn d})" using card_mono [OF _ ld(3)] fin P by simp
      show thesis
        using ld(8)
      proof (cases rule: alloc_page_cases)
        case no: none
        have F1: "F - {pfn d} = ?P" using no(2) ld(3) by auto
        have five: "card F = 5" using F1 P card1 by simp
        have sub: "?P \<subseteq> F" and eq: "F - {pfn d} - ?P = F - ?P - {pfn d}" and dP: "pfn d \<in> F - ?P" using ld(3) d(4) by auto
        obtain v3 where v3: "free_page d v2 = Some v3" "vm_ok dir T no_slots b (F - ?P) v3"
          using free_taken [OF ld(8) [unfolded eq] d(3) dP d_dir(1) d(5)] .
        show thesis
          by (rule lost [OF _ sub P five v3(2)]) (use def d(1,2) ld(1) no(1) v3(1) in \<open>simp add: vmm_destroy_user_space_def\<close>)
      next
        case ks: (page ks v3)
        have sep: "T \<notin> {dir, d, ct, st, code}" using pages_not_T [OF ok] ld(3) d(5) temp_invD(6) [OF vm_okD(1) [OF ok]] by auto
        have ctT: "ct \<noteq> T" using sep by auto
        have al: "page_aligned dir" using temp_invD(4) [OF vm_okD(1) [OF ok]] .
        have tables: "program_tables dir d ct code st stack (pmem v3)" using ld(9) ks(9) by simp
        obtain v4 where v4: "verify_mapping d v3 = Some v4" "vm_ok dir T no_slots b (F - {pfn d} - ?P - {pfn ks}) v4"
          "only_frames {T} (pmem v3) (pmem v4)"
          using verify_mapping_ok [OF ks(8) tables d_dir(2) d(5) ld(6) ctT ld(4)] .
        have tables4: "program_tables dir d ct code st stack (pmem v4)"
          by (rule program_tables_cong [OF tables v4(3) _ al d_dir(2) ld(6,7)]) (use sep in auto)
        have bytes: "pmem v4 (code + of_nat i) = pmem (vm k) (mod_start md + of_nat i)" if i: "i < unat (mod_size md)" for i
        proof -
          have i4: "i < 4096" using i m(5) by simp
          have "pmem v4 (code + of_nat i) = pmem v3 (code + of_nat i)"
            by (rule only_frames_byte [OF v4(3) _ ld(4) i4]) (use sep in auto)
          also have "\<dots> = pmem v1 (mod_start md + of_nat i)" using ld(10) [OF i] ks(9) by simp
          also have "\<dots> = pmem (vm k) (mod_start md + of_nat i)"
            by (rule only_frames_byte [OF d(8) _ m(2) i4]) (use m(3) nm(2) in simp)
          finally show ?thesis .
        qed
        let ?p = "(processes k ! n)\<lparr>pid := next_pid k, pstate := PROCESS_READY,
            pname := strncpy_bytes (pname (processes k ! n)) name 31, page_directory := d, entry_point := 0,
            user_stack := USER_STACK_TOP, kernel_stack := ks + PAGE_SIZE\<rparr>"
        let ?Q = "insert (pfn ks) (insert (pfn d) ?P)"
        have Q: "F - {pfn d} - ?P - {pfn ks} = F - ?Q" by auto
        have "pfn d \<notin> ?P" "pfn ks \<notin> insert (pfn d) ?P" using ld(3) ks(5) by auto
        then have cardQ: "card ?Q = 6" using P by simp
        show thesis
        proof (rule created [OF _ _ cardQ v4(2) [unfolded Q]])
          show "process_create_from_module name k = Some (next_pid k,
              k\<lparr>next_pid := next_pid k + 1, processes := (processes k)[n := ?p], vm := v4\<rparr>)"
            using def d(1,2) ld(1) ks(1,2) v4(1) by (simp add: Let_def)
          show "new_process dir (pmem (vm k)) md (next_pid k) (pmem v4) ?p"
            by (rule program_process [OF tables4 ld(6,4,7,5) m(5) bytes]) simp_all
          show "?Q \<subseteq> F" using ld(3) ks(5) d(4) by auto
        qed (use ks(2,4-7) d(2,3,5) d_dir(1) in auto)
      qed
    qed
  qed
qed

section \<open>Runs\<close>

text \<open>The process calls, with anything else that leaves the table alone in between.\<close>

inductive proc_step :: "kernel \<Rightarrow> kernel \<Rightarrow> bool" where
  create_call: "process_create_from_module name k = Some (r, k') \<Longrightarrow> proc_step k k'"
| start_call: "proc_step k (fst (process_start p k))"
| exit_call: "process_exit_current k = Some k' \<Longrightarrow> proc_step k k'"
| elsewhere: "proc_step k (k\<lparr>files := w, vm := v\<rparr>)"

inductive_cases proc_stepE: "proc_step k k'"

inductive proc_reach :: "kernel \<Rightarrow> bool" where
  boot: "next_pid k = 1 \<Longrightarrow> current_process k = None \<Longrightarrow> proc_reach (process_init k)"
| step: "proc_reach k \<Longrightarrow> proc_step k k' \<Longrightarrow> proc_reach k'"

lemma table_inv_step: "proc_step k k' \<Longrightarrow> table_inv n k \<Longrightarrow> \<exists>n'. n \<le> n' \<and> table_inv n' k'"
proof (erule proc_stepE)
  fix name r assume "table_inv n k" and "process_create_from_module name k = Some (r, k')"
  then show ?thesis using table_inv_create [of n k name r k'] by (metis le_SucI order_refl)
next
  fix w v assume "table_inv n k" "k' = k\<lparr>files := w, vm := v\<rparr>"
  then have "table_inv n k'" by (simp add: table_inv_def)
  then show ?thesis by blast
qed (use table_inv_start table_inv_exit in blast)+

lemma table_inv_reach: "proc_reach k \<Longrightarrow> \<exists>n. table_inv n k"
proof (induction rule: proc_reach.induct)
  case (boot k)
  then show ?case using process_init_inv by blast
next
  case (step k k')
  then show ?case using table_inv_step by blast
qed

section \<open>A whole life\<close>

text \<open>The page directory of a process and the page of its kernel stack.\<close>

definition exit_frames :: "pcb \<Rightarrow> nat set" where
  "exit_frames p = {pfn (page_directory p), pfn (kernel_stack p - PAGE_SIZE)}"

lemma create_start_exit:
  assumes "table_inv n k" and "n < 16" and "vm_ok dir T no_slots b F (vm k)" and "6 \<le> card F"
    and "loader_find_module name (files k) = Some md" and "page_aligned (mod_start md)" and "mod_start md \<noteq> T"
    and "pfn (mod_start md) \<notin> F" and "unat (mod_size md) \<le> 4096"
  shows "\<exists>k1 k2 k3 c P. process_create_from_module name k = Some (of_nat (Suc n), k1) \<and>
    process_start (of_nat (Suc n)) k1 = (k2, Some c) \<and>
    current_process k2 = Some n \<and> length (processes k2) = 16 \<and> process_exit_current k2 = Some k3 \<and>
    P \<subseteq> F \<and> card P = 6 \<and> vm_ok dir T no_slots b (F - P) (vm k1) \<and>
    new_process dir (pmem (vm k)) md (of_nat (Suc n)) (pmem (vm k1)) (processes k1 ! n) \<and>
    exit_frames (processes k1 ! n) \<subseteq> P \<and> card (exit_frames (processes k1 ! n)) = 2 \<and>
    vm_ok dir T no_slots b (F - (P - exit_frames (processes k1 ! n))) (vm k3) \<and>
    pstate (processes k3 ! n) = PROCESS_TERMINATED \<and> current_process k3 = None"
  using assms(1-3,5-9)
proof (cases rule: create_ok)
  case (created v p P ks)
  define k1 where "k1 = k\<lparr>next_pid := next_pid k + 1, processes := (processes k)[n := p], vm := v\<rparr>"
  let ?d = "page_directory p"
  have pid: "next_pid k = of_nat (Suc n)" "length (processes k) = 16" using assms(1) by (simp_all add: table_inv_def)
  have c1: "process_create_from_module name k = Some (of_nat (Suc n), k1)" using created(1) unfolding pid(1) k1_def .
  have k1: "processes k1 ! n = p" "vm k1 = v" "length (processes k1) = 16" using pid(2) assms(2) by (simp_all add: k1_def)
  have "next_pid k \<noteq> 0" using of_nat_Suc_neq_0 [OF assms(2)] pid(1) by simp
  then have inv: "table_inv (Suc n) k1" using table_inv_create [OF assms(1) created(1)] unfolding k1_def by blast
  have p: "pstate p = PROCESS_READY" "pid p = of_nat (Suc n)" using created(5) pid(1) by (simp_all add: new_process_def)
  define k2 where "k2 = k1\<lparr>current_process := Some n, processes := (processes k1)[n := p\<lparr>pstate := PROCESS_RUNNING\<rparr>]\<rparr>"
  obtain c where start: "process_start (of_nat (Suc n)) k1 = (k2, Some c)"
    using process_start_new [OF inv assms(2)] k1(1) p unfolding k2_def by auto
  have k2: "processes k2 ! n = p\<lparr>pstate := PROCESS_RUNNING\<rparr>" "vm k2 = v" "length (processes k2) = 16" "current_process k2 = Some n"
    using k1 assms(2) by (simp_all add: k2_def)
  have n1: "pfn ?d \<notin> F - P" and n2: "pfn ks \<notin> insert (pfn ?d) (F - P)" using created(9,10) by auto
  have sep: "?d \<noteq> dir" "?d \<noteq> T" "ks \<noteq> dir" "ks \<noteq> T" "?d \<noteq> 0" using created(11) by auto
  obtain v1 where v1: "free_page ?d v = Some v1" "vm_ok dir T no_slots b (insert (pfn ?d) (F - P)) v1"
    using free_page_ok [OF created(4,8) n1 sep(1,2)] .
  obtain v2 where v2: "free_page ks v1 = Some v2" "vm_ok dir T no_slots b (insert (pfn ks) (insert (pfn ?d) (F - P))) v2"
    using free_page_ok [OF v1(2) created(7) n2 sep(3,4)] .
  have ef: "exit_frames p = {pfn ?d, pfn ks}" using created(6) by (simp add: exit_frames_def)
  have sub: "exit_frames p \<subseteq> P" "card (exit_frames p) = 2" unfolding ef using created(9,10) by auto
  have "insert (pfn ks) (insert (pfn ?d) (F - P)) = F - (P - exit_frames p)" unfolding ef using created(2,9) by auto
  then have vm2: "vm_ok dir T no_slots b (F - (P - exit_frames p)) v2" using v2(2) by simp
  define k3 where "k3 = k2\<lparr>vm := v2, processes := (processes k2)[n := p\<lparr>pstate := PROCESS_TERMINATED\<rparr>], current_process := None\<rparr>"
  have exit: "process_exit_current k2 = Some k3"
    using v1(1) v2(1) sep(5) created(6) k2
    by (simp add: process_exit_current_def vmm_destroy_user_space_def Let_def k3_def)
  have k3: "vm k3 = v2" "pstate (processes k3 ! n) = PROCESS_TERMINATED" "current_process k3 = None"
    using k2 assms(2) by (simp_all add: k3_def)
  have "new_process dir (pmem (vm k)) md (of_nat (Suc n)) (pmem v) p" using created(5) unfolding pid(1) .
  with c1 start exit created(2-4) sub vm2 k3 k2 show ?thesis
    by (intro exI [of _ k1] exI [of _ k2] exI [of _ k3] exI [of _ c] exI [of _ P]) (simp only: k1 simp_thms)
qed (use assms(4) in simp_all)

section \<open>A concrete start\<close>

text \<open>One module of 100 bytes at 8 MiB, named \<open>hi\<close>, and an empty process table.\<close>

definition hi_module :: module_info where
  "hi_module = \<lparr>mod_name = [104, 105], mod_start = 0x00800000, mod_end = 0x00800064, mod_size = 100\<rparr>"

definition boot_kernel :: "vm_state \<Rightarrow> kernel" where
  "boot_kernel v = process_init \<lparr>files = world_bss\<lparr>modules := [hi_module]\<rparr>, vm = v, processes = [],
     current_process = None, next_pid = 1\<rparr>"

lemma boot_kernel_facts:
  "table_inv 0 (boot_kernel v)" "vm (boot_kernel v) = v"
  "loader_find_module [104, 105] (files (boot_kernel v)) = Some hi_module"
  "page_aligned (mod_start hi_module)" "mod_start hi_module \<noteq> 0x2000" "pfn (mod_start hi_module) = 0x800"
  "unat (mod_size hi_module) \<le> 4096"
proof -
  show "table_inv 0 (boot_kernel v)" unfolding boot_kernel_def by (rule process_init_inv) simp_all
qed (simp_all add: boot_kernel_def process_init_def loader_find_module_def hi_module_def page_aligned_def pfn_def)

lemma boot_frames: "\<not> card {0x1800..<0x2800::nat} < 6" "6 \<le> card {0x1800..<0x2800::nat}" "0x800 \<notin> {0x1800..<0x2800::nat}"
  by simp_all

lemma boot_life:
  obtains v k1 k2 k3 c where "process_create_from_module [104, 105] (boot_kernel v) = Some (1, k1)"
    and "process_start 1 k1 = (k2, Some c)" and "current_process k2 = Some 0" and "length (processes k2) = 16"
    and "process_exit_current k2 = Some k3"
proof -
  obtain b s where s: "s = boot_vm b" "vm_ok 0x1000 0x2000 no_slots 0x01000000 {0x1800..<0x2800} s"
    by (rule boot_vm_ok)
  note f = boot_kernel_facts(1,2) [of s] boot_kernel_facts(3) [of s] boot_kernel_facts(4-7)
  have n: "0 < (16::nat)" by simp
  have ok: "vm_ok 0x1000 0x2000 no_slots 0x01000000 {0x1800..<0x2800} (vm (boot_kernel s))" using s(2) f(2) by simp
  have m: "pfn (mod_start hi_module) \<notin> {0x1800..<0x2800}" using f(6) by simp
  have one: "(of_nat (Suc 0) :: u32) = 1" by simp
  show thesis using create_start_exit [OF f(1) n ok boot_frames(2) f(3,4,5) m f(7), unfolded one] that by blast
qed

section \<open>Properties\<close>

text \<open>
  C6: With a free block in the process table process_create_from_module of a page-aligned module of at
  most one page returns: with six free pages the next process number, taking exactly six pages, and
  the new block is READY, its address space shows the module at its entry point, nothing else below
  0xC0000000 and the kernel above up to 0xFF800000, and its initial stack pointer is not mapped; with
  fewer pages 0, with everything given back, except that with exactly five pages four of them are
  lost.
\<close>

theorem process_create_spec:
  assumes "table_inv n k" and "n < 16" and "vm_ok dir T no_slots b F (vm k)"
    and "loader_find_module name (files k) = Some md" and "page_aligned (mod_start md)" and "mod_start md \<noteq> T"
    and "pfn (mod_start md) \<notin> F" and "unat (mod_size md) \<le> 4096"
  shows "\<exists>r k' P. process_create_from_module name k = Some (r, k') \<and> P \<subseteq> F \<and> vm_ok dir T no_slots b (F - P) (vm k') \<and>
    (if card F < 6 then r = 0 \<and> k' = k\<lparr>vm := vm k'\<rparr> \<and> card P = (if card F = 5 then 4 else 0)
     else r = of_nat (Suc n) \<and> card P = 6 \<and> table_inv (Suc n) k' \<and>
       (\<forall>i<16. i \<noteq> n \<longrightarrow> processes k' ! i = processes k ! i) \<and>
       new_process dir (pmem (vm k)) md r (pmem (vm k')) (processes k' ! n))"
  using assms
proof (cases rule: create_ok)
  case (none v)
  have "vm_ok dir T no_slots b (F - {}) v" using none(3) by simp
  then show ?thesis using none(1,2) by (intro exI [of _ 0] exI [of _ "k\<lparr>vm := v\<rparr>"] exI [of _ "{}"]) simp
next
  case (lost v P)
  then show ?thesis by (intro exI [of _ 0] exI [of _ "k\<lparr>vm := v\<rparr>"] exI [of _ P]) simp
next
  case (created v p P ks)
  let ?k = "k\<lparr>next_pid := next_pid k + 1, processes := (processes k)[n := p], vm := v\<rparr>"
  have pid: "next_pid k = of_nat (Suc n)" "length (processes k) = 16" using assms(1) by (simp_all add: table_inv_def)
  have "next_pid k \<noteq> 0" using of_nat_Suc_neq_0 [OF assms(2)] pid(1) by simp
  then have inv: "table_inv (Suc n) ?k" using table_inv_create [OF assms(1) created(1)] by blast
  have card: "\<not> card F < 6" using card_mono [OF vm_ok_finite [OF assms(3)] created(2)] created(3) by simp
  have "processes ?k ! n = p" using pid(2) assms(2) by simp
  then show ?thesis unfolding if_not_P [OF card]
    by (intro exI [of _ "next_pid k"] exI [of _ ?k] exI [of _ P])
      (use created(1-5) inv [unfolded pid(1)] pid(1) in simp)
qed

theorem process_create_spec_witness:
  "\<exists>v k'. process_create_from_module [104, 105] (boot_kernel v) = Some (1, k') \<and>
     pstate (processes k' ! 0) = PROCESS_READY \<and>
     translate (page_directory (processes k' ! 0)) (pmem (vm k')) (user_stack (processes k' ! 0)) = None"
proof -
  obtain b s where s: "s = boot_vm b" "vm_ok 0x1000 0x2000 no_slots 0x01000000 {0x1800..<0x2800} s"
    by (rule boot_vm_ok)
  note f = boot_kernel_facts(1,2) [of s] boot_kernel_facts(3) [of s] boot_kernel_facts(4-7)
  have n: "0 < (16::nat)" by simp
  have ok: "vm_ok 0x1000 0x2000 no_slots 0x01000000 {0x1800..<0x2800} (vm (boot_kernel s))" using s(2) f(2) by simp
  have m: "pfn (mod_start hi_module) \<notin> {0x1800..<0x2800}" using f(6) by simp
  from process_create_spec [OF f(1) n ok f(3,4,5) m f(7)] show ?thesis
    unfolding if_not_P [OF boot_frames(1)] new_process_def by auto
qed

text \<open>
  C18: A process that is created (from a page-aligned module of at most one page outside the free
  pages, with six free pages), started and exits takes six pages and gives back two of them: after the
  exit the free pages are those before without the four pages other than its page directory and the
  page of its kernel stack, so the code page, the stack page and both page tables are lost.
\<close>

theorem process_exit_leaks:
  assumes "table_inv n k" and "n < 16" and "vm_ok dir T no_slots b F (vm k)" and "6 \<le> card F"
    and "loader_find_module name (files k) = Some md" and "page_aligned (mod_start md)" and "mod_start md \<noteq> T"
    and "pfn (mod_start md) \<notin> F" and "unat (mod_size md) \<le> 4096"
  shows "\<exists>k1 k2 k3 c P. process_create_from_module name k = Some (of_nat (Suc n), k1) \<and>
    process_start (of_nat (Suc n)) k1 = (k2, Some c) \<and> process_exit_current k2 = Some k3 \<and>
    P \<subseteq> F \<and> card P = 6 \<and> vm_ok dir T no_slots b (F - P) (vm k1) \<and>
    exit_frames (processes k1 ! n) \<subseteq> P \<and> card (exit_frames (processes k1 ! n)) = 2 \<and>
    new_process dir (pmem (vm k)) md (of_nat (Suc n)) (pmem (vm k1)) (processes k1 ! n) \<and>
    vm_ok dir T no_slots b (F - (P - exit_frames (processes k1 ! n))) (vm k3) \<and>
    pstate (processes k3 ! n) = PROCESS_TERMINATED \<and> current_process k3 = None"
  using create_start_exit [OF assms] by blast

theorem process_exit_leaks_witness:
  "\<exists>v k1 k2 k3 c P. process_create_from_module [104, 105] (boot_kernel v) = Some (1, k1) \<and>
     process_start 1 k1 = (k2, Some c) \<and> process_exit_current k2 = Some k3 \<and>
     card (P - exit_frames (processes k1 ! 0)) = 4 \<and>
     vm_ok 0x1000 0x2000 no_slots 0x01000000 ({0x1800..<0x2800} - (P - exit_frames (processes k1 ! 0))) (vm k3)"
proof -
  obtain b s where s: "s = boot_vm b" "vm_ok 0x1000 0x2000 no_slots 0x01000000 {0x1800..<0x2800} s"
    by (rule boot_vm_ok)
  note f = boot_kernel_facts(1,2) [of s] boot_kernel_facts(3) [of s] boot_kernel_facts(4-7)
  have n: "0 < (16::nat)" by simp
  have ok: "vm_ok 0x1000 0x2000 no_slots 0x01000000 {0x1800..<0x2800} (vm (boot_kernel s))" using s(2) f(2) by simp
  have m: "pfn (mod_start hi_module) \<notin> {0x1800..<0x2800}" using f(6) by simp
  have one: "(of_nat (Suc 0) :: u32) = 1" by simp
  obtain k1 k2 k3 c P where e: "process_create_from_module [104, 105] (boot_kernel s) = Some (1, k1)"
    "process_start 1 k1 = (k2, Some c)" "process_exit_current k2 = Some k3" "P \<subseteq> {0x1800..<0x2800}" "card P = 6"
    "exit_frames (processes k1 ! 0) \<subseteq> P" "card (exit_frames (processes k1 ! 0)) = 2"
    "vm_ok 0x1000 0x2000 no_slots 0x01000000 ({0x1800..<0x2800} - (P - exit_frames (processes k1 ! 0))) (vm k3)"
    using process_exit_leaks [OF f(1) n ok boot_frames(2) f(3,4,5) m f(7), unfolded one] by blast
  have "card (P - exit_frames (processes k1 ! 0)) = 4"
    using e(5-7) by (subst card_Diff_subset) (simp_all add: exit_frames_def)
  with e show ?thesis by blast
qed

text \<open>
  C19: In every run of the process calls the blocks in use are the first n of the table and carry the
  numbers 1 to n, the current process is one of them and RUNNING; a block is never reused, so after 16
  creations every further one returns 0 even if all processes have exited.
\<close>

theorem process_table_bound:
  assumes "proc_reach k"
  shows "\<exists>n\<le>16. next_pid k = of_nat (Suc n) \<and> length (processes k) = 16 \<and>
    (\<forall>i<16. if i < n then pid (processes k ! i) = of_nat (Suc i) \<and> pstate (processes k ! i) \<noteq> PROCESS_UNUSED
       else pstate (processes k ! i) = PROCESS_UNUSED) \<and>
    (\<forall>i. current_process k = Some i \<longrightarrow> i < n \<and> pstate (processes k ! i) = PROCESS_RUNNING) \<and>
    (n = 16 \<longrightarrow> (\<forall>name. process_create_from_module name k = Some (0, k)))"
proof -
  obtain n where inv: "table_inv n k" using table_inv_reach [OF assms] by blast
  have "process_create_from_module name k = Some (0, k)" if "n = 16" for name
    using unused_slot_inv [OF inv] that by (simp add: process_create_from_module_def split: option.split)
  then show ?thesis using inv by (intro exI [of _ n]) (auto simp: table_inv_def)
qed

theorem process_table_bound_witness:
  "\<exists>n\<le>16. next_pid (boot_kernel (boot_vm buddy_bss)) = of_nat (Suc n)"
proof -
  have "proc_reach (boot_kernel (boot_vm buddy_bss))"
    unfolding boot_kernel_def by (rule proc_reach.boot) simp_all
  from process_table_bound [OF this] show ?thesis by blast
qed

end
