(* ===== verification/VfsFrame.thy ===== *)
theory VfsFrame
  imports Vfs
begin

text \<open>
  What the calls of the file layer leave alone: for each call the fields of the state that it can
  change, and for the calls that store through a pointer of the caller the bytes they can store to.
\<close>

section \<open>The operations of the file systems\<close>

lemma console_read_modules: "modules (snd (console_read_loop b n rc w)) = modules w"
proof (induction b n rc w rule: console_read_loop.induct)
  case (1 b n rc w)
  show ?case
    by (subst console_read_loop.simps) (auto simp: Let_def split: prod.splits dest: 1 [rotated -1])
qed

lemma put_bytes_modules: "modules (put_bytes b n w) = modules w \<and> wmem (put_bytes b n w) = wmem w"
proof -
  let ?f = "\<lambda>i w. w\<lparr>wcon := fb_putchar (wmem w (b + of_nat i)) (wcon w)\<rparr>"
  have "modules (fold ?f xs w) = modules w \<and> wmem (fold ?f xs w) = wmem w" for xs
    by (induction xs arbitrary: w) simp_all
  then show ?thesis by (simp add: put_bytes_def)
qed

lemma fs_modules:
  "modules (snd (fs_open t path fl w)) = modules w" "modules (snd (fs_close t h w)) = modules w"
  "modules (snd (fs_read t h b n w)) = modules w" "modules (snd (fs_write t h b n w)) = modules w"
  by (cases t; simp add: fs_defs Let_def ramfs_open_def ramfs_close_def ramfs_read_def ramfs_write_def set_ramfs_pos_def
      devfs_open_def devfs_close_def devfs_read_def devfs_write_def console_read_modules put_bytes_modules split: option.splits)+

lemma fs_wmem:
  "wmem (snd (fs_open t path fl w)) = wmem w" "wmem (snd (fs_close t h w)) = wmem w" "wmem (snd (fs_write t h b n w)) = wmem w"
  by (cases t; simp add: fs_defs Let_def ramfs_open_def ramfs_close_def ramfs_write_def
      devfs_open_def devfs_close_def devfs_write_def put_bytes_modules split: option.splits)+

lemma vfs_modules [simp]:
  "modules (snd (vfs_open path fl w)) = modules w" "modules (snd (vfs_close fd w)) = modules w"
  "modules (snd (vfs_read fd b n w)) = modules w" "modules (snd (vfs_write fd b n w)) = modules w"
proof -
  show "modules (snd (vfs_open path fl w)) = modules w"
    using fs_modules(1) by (auto simp: vfs_open_def Let_def case_prod_beta split: option.splits)
qed (auto simp: vfs_close_def vfs_read_def vfs_write_def add_pos_def set_fh_def Let_def case_prod_beta fs_modules
    put_bytes_modules split: option.splits)

lemma vfs_wmem [simp]:
  "wmem (snd (vfs_open path fl w)) = wmem w" "wmem (snd (vfs_close fd w)) = wmem w" "wmem (snd (vfs_write fd b n w)) = wmem w"
proof -
  show "wmem (snd (vfs_open path fl w)) = wmem w"
    using fs_wmem(1) by (auto simp: vfs_open_def Let_def case_prod_beta split: option.splits)
qed (auto simp: vfs_close_def vfs_write_def add_pos_def set_fh_def Let_def case_prod_beta fs_wmem
    put_bytes_modules split: option.splits)

text \<open>A read stores inside the buffer only, whatever the position.\<close>

lemma in_span_iff: "a \<in> span b (unat n) \<longleftrightarrow> a - b < n"
proof -
  have "unat n < 2 ^ LENGTH(32)" by (rule unsigned_less)
  then show ?thesis by (simp add: span_iff word_less_nat_alt)
qed

lemma memcpy_outside: "a \<notin> span d (unat n) \<Longrightarrow> memcpy d s n m a = m a"
proof -
  assume a: "a \<notin> span d (unat n)"
  have "\<forall>i\<in>set xs. a \<noteq> d + of_nat i \<Longrightarrow> fold (copy_byte d s) xs m a = m a" for xs
    by (induction xs arbitrary: m) (auto simp: copy_byte_def)
  moreover have "\<forall>i\<in>set [0..<unat n]. a \<noteq> d + of_nat i" using a by (auto simp: span_def)
  ultimately show ?thesis by (simp add: memcpy_def)
qed

lemma console_read_outside: "a \<notin> span b (unat n) \<Longrightarrow> wmem (snd (console_read_loop b n rc w)) a = wmem w a"
proof (induction b n rc w rule: console_read_loop.induct)
  case (1 b n rc w)
  have "a \<noteq> b + rc" if "rc < n" using "1.prems" that by (auto simp: in_span_iff)
  then show ?case
    by (subst console_read_loop.simps) (use 1 in \<open>auto simp: Let_def split: prod.splits\<close>)
qed

lemma fs_read_outside: "a \<notin> span b (unat n) \<Longrightarrow> wmem (snd (fs_read t h b n w)) a = wmem w a"
proof -
  assume a: "a \<notin> span b (unat n)"
  have sub: "a \<notin> span b (unat k)" if "k \<le> n" for k using a that by (auto simp: span_def word_le_nat_alt)
  show ?thesis
  proof (cases t)
    case Ramfs_ops
    have "size - pos \<le> n" if "size < pos + n" "pos < size" for size pos :: u32
      using that by (auto simp: word_less_nat_alt word_le_nat_alt unat_sub_if' unat_plus_if' split: if_splits)
    then show ?thesis using Ramfs_ops memcpy_outside [OF sub]
      by (simp add: fs_read_def ramfs_read_def Let_def not_le set_ramfs_pos_def)
  next
    case Devfs_ops
    have "\<not> a - b < n" using a by (simp add: in_span_iff)
    then have "memset b 0 n m a = m a" for m by (auto simp: memset_byte)
    then show ?thesis using Devfs_ops console_read_outside [OF a]
      by (simp add: fs_read_def devfs_read_def Let_def)
  qed
qed

lemma vfs_read_outside: "a \<notin> span b (unat n) \<Longrightarrow> wmem (snd (vfs_read fd b n w)) a = wmem w a"
  using fs_read_outside by (simp add: vfs_read_def add_pos_def set_fh_def Let_def case_prod_beta split: option.splits)

section \<open>The fields that a call can change\<close>

definition tables_change :: "world \<Rightarrow> world \<Rightarrow> bool" where
  "tables_change w w' \<longleftrightarrow> w' = w\<lparr>ramfs_handles := ramfs_handles w', devfs_handles := devfs_handles w', open_files := open_files w'\<rparr>"

lemma tables_change_refl [simp]: "tables_change w w"
  by (simp add: tables_change_def)

lemma tables_changeI:
  "w' = w\<lparr>ramfs_handles := r, devfs_handles := d, open_files := f\<rparr> \<Longrightarrow> tables_change w w'"
  by (simp add: tables_change_def)

lemma tables_change_trans: "tables_change w v \<Longrightarrow> tables_change v u \<Longrightarrow> tables_change w u"
  by (cases w; cases v; cases u) (simp add: tables_change_def)

lemma tables_change_set_fh: "tables_change w v \<Longrightarrow> tables_change w (set_fh fd h v)"
  by (erule tables_change_trans) (simp add: tables_change_def set_fh_def)

lemma tables_change_add_pos: "tables_change w v \<Longrightarrow> tables_change w (add_pos fd r v)"
  by (simp add: add_pos_def Let_def tables_change_set_fh)

lemma fs_tables:
  "tables_change w (snd (fs_open t path fl w))" "tables_change w (snd (fs_close t h w))" "tables_change w (snd (fs_seek t h off wh w))"
  by (cases t; simp add: fs_defs Let_def tables_change_def ramfs_open_def ramfs_close_def ramfs_seek_def set_ramfs_pos_def
      devfs_open_def devfs_close_def devfs_seek_def split: option.splits)+

lemma vfs_open_frame: "tables_change w (snd (vfs_open path fl w))"
proof -
  have "tables_change w (w1\<lparr>open_files := f\<rparr>)" if "tables_change w w1" for w1 f
    by (rule tables_change_trans [OF that]) (simp add: tables_change_def)
  then show ?thesis using fs_tables(1) by (auto simp: vfs_open_def Let_def case_prod_beta split: option.splits)
qed

lemma vfs_close_frame: "tables_change w (snd (vfs_close fd w))"
  using tables_change_trans [OF tables_change_set_fh [OF tables_change_refl] fs_tables(2)]
  by (auto simp: vfs_close_def Let_def tables_change_set_fh split: option.splits)

lemma vfs_seek_frame: "tables_change w (snd (vfs_seek fd off wh w))"
  using fs_tables(3) by (simp add: vfs_seek_def Let_def split: option.splits)

text \<open>A read takes keys and fills the buffer, a write prints.\<close>

lemma console_read_effect: "snd (console_read_loop b n rc w) =
  w\<lparr>wmem := wmem (snd (console_read_loop b n rc w)), wkbd := wkbd (snd (console_read_loop b n rc w))\<rparr>"
proof (induction b n rc w rule: console_read_loop.induct)
  case (1 b n rc w)
  let ?k = "keyboard_get_char (wkbd w)"
  let ?w = "w\<lparr>wkbd := snd ?k, wmem := (wmem w)(b + rc := fst ?k)\<rparr>"
  show ?case
  proof (cases "rc < n \<and> fst ?k \<noteq> 0 \<and> fst ?k \<noteq> 10")
    case True
    then have "console_read_loop b n rc w = console_read_loop b n (rc + 1) ?w"
      by (subst console_read_loop.simps) (simp add: Let_def case_prod_beta)
    moreover have "snd (console_read_loop b n (rc + 1) ?w) = ?w\<lparr>wmem := wmem (snd (console_read_loop b n (rc + 1) ?w)),
        wkbd := wkbd (snd (console_read_loop b n (rc + 1) ?w))\<rparr>"
      using 1 [of ?k "fst ?k" "snd ?k"] True by simp
    ultimately show ?thesis by (metis world.update_convs(1,2) world.surjective)
  next
    case False
    then show ?thesis by (subst (1 2 3) console_read_loop.simps) (auto simp: Let_def case_prod_beta)
  qed
qed

lemma put_bytes_effect: "put_bytes b n w = w\<lparr>wcon := wcon (put_bytes b n w)\<rparr>"
proof -
  let ?f = "\<lambda>i w. w\<lparr>wcon := fb_putchar (wmem w (b + of_nat i)) (wcon w)\<rparr>"
  have "\<exists>c. fold ?f xs w = w\<lparr>wcon := c\<rparr>" for xs
  proof (induction xs arbitrary: w)
    case Nil
    show ?case by (intro exI [of _ "wcon w"]) simp
  next
    case (Cons x xs)
    then show ?case using Cons.IH [of "?f x w"] by auto
  qed
  then obtain c where "put_bytes b n w = w\<lparr>wcon := c\<rparr>" by (auto simp: put_bytes_def)
  then show ?thesis by simp
qed

lemma fs_read_frame: "tables_change (w\<lparr>wmem := wmem (snd (fs_read t h b n w)), wkbd := wkbd (snd (fs_read t h b n w))\<rparr>) (snd (fs_read t h b n w))"
proof (cases t)
  case Ramfs_ops
  then show ?thesis by (simp add: fs_read_def ramfs_read_def set_ramfs_pos_def Let_def tables_change_def)
next
  case Devfs_ops
  have "tables_change (w\<lparr>wmem := wmem v, wkbd := wkbd v\<rparr>) v" if "v = w\<lparr>wmem := wmem v, wkbd := wkbd v\<rparr>" for v
    using that by simp
  then show ?thesis using Devfs_ops console_read_effect [of b n 0 w]
    by (simp add: fs_read_def devfs_read_def Let_def)
qed

lemma fs_write_frame: "snd (fs_write t h b n w) = w\<lparr>wcon := wcon (snd (fs_write t h b n w))\<rparr>"
  using put_bytes_effect by (cases t; simp add: fs_write_def ramfs_write_def devfs_write_def Let_def)

lemma add_pos_wkbd [simp]: "wkbd (add_pos fd r v) = wkbd v"
  by (simp add: add_pos_def set_fh_def Let_def)

lemma vfs_read_frame:
  "tables_change (w\<lparr>wmem := wmem (snd (vfs_read fd b n w)), wkbd := wkbd (snd (vfs_read fd b n w))\<rparr>) (snd (vfs_read fd b n w))"
  using fs_read_frame by (simp add: vfs_read_def Let_def case_prod_beta tables_change_add_pos split: option.splits)

lemma vfs_write_frame: "tables_change (w\<lparr>wcon := wcon (snd (vfs_write fd b n w))\<rparr>) (snd (vfs_write fd b n w))"
proof -
  have "tables_change (w\<lparr>wcon := wcon v\<rparr>) v" if "v = w\<lparr>wcon := wcon v\<rparr>" for v using that by simp
  then show ?thesis using put_bytes_effect [of b n w] fs_write_frame
    by (simp add: vfs_write_def Let_def case_prod_beta tables_change_add_pos split: option.splits)
qed

lemma vfs_ioctl_frame: "snd (vfs_ioctl fd rq ap w) =
  w\<lparr>wmem := wmem (snd (vfs_ioctl fd rq ap w)), wcon := wcon (snd (vfs_ioctl fd rq ap w))\<rparr>"
proof -
  have "snd (fs_ioctl t h rq ap w) = w\<lparr>wmem := wmem (snd (fs_ioctl t h rq ap w)), wcon := wcon (snd (fs_ioctl t h rq ap w))\<rparr>" for t h
    by (cases t; simp add: fs_ioctl_def ramfs_ioctl_def devfs_ioctl_def)
  then show ?thesis by (simp add: vfs_ioctl_def Let_def split: option.splits)
qed

lemma store_zero32_outside: "a \<notin> span p 4 \<Longrightarrow> store_zero32 p m a = m a"
  by (simp add: store_zero32_def span_def numeral_eq_Suc image_Un lessThan_Suc)

lemma vfs_ioctl_outside: "a \<notin> span ap 4 \<Longrightarrow> wmem (snd (vfs_ioctl fd rq ap w)) a = wmem w a"
proof -
  assume a: "a \<notin> span ap 4"
  have "wmem (snd (fs_ioctl t h rq ap w)) a = wmem w a" for t h
    using store_zero32_outside [OF a] by (cases t; simp add: fs_ioctl_def ramfs_ioctl_def devfs_ioctl_def)
  then show ?thesis by (simp add: vfs_ioctl_def Let_def split: option.splits)
qed

lemma vfs_stores:
  "{a. wmem (snd (vfs_read fd b n w)) a \<noteq> wmem w a} \<subseteq> span b (unat n)"
  "{a. wmem (snd (vfs_ioctl fd rq ap w)) a \<noteq> wmem w a} \<subseteq> span ap 4"
  using vfs_read_outside vfs_ioctl_outside by blast+

end
