(* ===== verification/Syscall.thy ===== *)
theory Syscall
  imports Process VfsFrame
begin

text \<open>
  The system calls of \<open>kernel/syscall/syscall.c\<close>: the registers that the entry stub saves and the
  handler. The kernel uses pointers of the program without any check, so they are addresses of the
  one memory of the file layer. A string argument is read up to its NUL; one without a NUL is \<open>None\<close>.
  Log output is left out.
\<close>

section \<open>Data\<close>

definition SYSCALL_EXIT :: u32 where [simp]: "SYSCALL_EXIT = 1"
definition SYSCALL_PUTS :: u32 where [simp]: "SYSCALL_PUTS = 2"
definition SYSCALL_GETC :: u32 where [simp]: "SYSCALL_GETC = 3"
definition SYSCALL_PUTCHAR :: u32 where [simp]: "SYSCALL_PUTCHAR = 4"
definition SYSCALL_GETPID :: u32 where [simp]: "SYSCALL_GETPID = 5"
definition SYSCALL_OPEN :: u32 where [simp]: "SYSCALL_OPEN = 10"
definition SYSCALL_CLOSE :: u32 where [simp]: "SYSCALL_CLOSE = 11"
definition SYSCALL_READ :: u32 where [simp]: "SYSCALL_READ = 12"
definition SYSCALL_WRITE :: u32 where [simp]: "SYSCALL_WRITE = 13"
definition SYSCALL_SEEK :: u32 where [simp]: "SYSCALL_SEEK = 14"
definition SYSCALL_IOCTL :: u32 where [simp]: "SYSCALL_IOCTL = 15"
definition SYSCALL_STAT :: u32 where [simp]: "SYSCALL_STAT = 16"

record regs =
  r_gs :: u32 r_fs :: u32 r_es :: u32 r_ds :: u32
  r_edi :: u32 r_esi :: u32 r_ebp :: u32 r_esp :: u32 r_ebx :: u32 r_edx :: u32 r_ecx :: u32 r_eax :: u32
  r_int_no :: u32 r_err_code :: u32
  r_eip :: u32 r_cs :: u32 r_eflags :: u32 r_useresp :: u32 r_ss :: u32

section \<open>Arguments in memory\<close>

text \<open>The C string at a pointer, and the stores of a \<open>struct file_stat\<close>.\<close>

definition c_string :: "u32 \<Rightarrow> mem \<Rightarrow> u8 list option" where
  "c_string p m = do {
     n \<leftarrow> strlen p m;
     Some (map (\<lambda>i. m (p + of_nat i)) [0..<unat n])
   }"

definition store_stat :: "u32 \<Rightarrow> file_stat option \<Rightarrow> world \<Rightarrow> world" where
  "store_stat p st w =
     (case st of
        None \<Rightarrow> w
      | Some st \<Rightarrow> w\<lparr>wmem := store32 (p + 12) (st_inode st) (store32 (p + 8) (st_type st)
          (store32 (p + 4) (st_mode st) (store32 p (st_size st) (wmem w))))\<rparr>)"

text \<open>\<open>fb_puts\<close> of a literal of the kernel, see \<open>fb_puts_literal\<close> below.\<close>

definition fb_puts_lit :: "u8 list \<Rightarrow> framebuffer \<Rightarrow> framebuffer" where
  "fb_puts_lit xs c = fb_write_bytes (xs @ [0]) c"

definition user_prefix :: "u8 list" where
  "user_prefix = [91, 85, 83, 69, 82, 93, 32]"

section \<open>The handler\<close>

text \<open>A call of the file layer whose result goes to \<open>eax\<close>.\<close>

definition file_call :: "(world \<Rightarrow> u32 \<times> world) \<Rightarrow> regs \<Rightarrow> kernel \<Rightarrow> (regs \<times> kernel) option" where
  "file_call f r k = (let (e, w) = f (files k) in Some (r\<lparr>r_eax := e\<rparr>, k\<lparr>files := w\<rparr>))"

definition syscall_handler :: "regs \<Rightarrow> kernel \<Rightarrow> (regs \<times> kernel) option" where
  "syscall_handler r k =
     (let syscall_num = r_eax r;
          arg1 = r_ebx r;
          arg2 = r_ecx r;
          arg3 = r_edx r;
          current_pid = (case process_get_current k of Some b \<Rightarrow> pid b | None \<Rightarrow> 0);
          w = files k
      in
        if syscall_num = SYSCALL_EXIT then do { k \<leftarrow> process_exit_current k; Some (r, k) }
        else if syscall_num = SYSCALL_PUTS then
          if arg1 \<noteq> 0 then do {
            let c = fb_puts_lit user_prefix (wcon w);
            c \<leftarrow> fb_puts arg1 (wmem w) c;
            let c = fb_puts_lit [10] c;
            Some (r, k\<lparr>files := w\<lparr>wcon := c\<rparr>\<rparr>)
          } else Some (r, k)
        else if syscall_num = SYSCALL_PUTCHAR then
          Some (r, k\<lparr>files := w\<lparr>wcon := fb_putchar (ucast arg1) (wcon w)\<rparr>\<rparr>)
        else if syscall_num = SYSCALL_GETC then
          let (c, kb) = keyboard_get_char (wkbd w);
              k = k\<lparr>files := w\<lparr>wkbd := kb\<rparr>\<rparr>
          in if c \<noteq> 0 then Some (r\<lparr>r_eax := scast c\<rparr>, k) else Some (r\<lparr>r_eax := 0\<rparr>, k)
        else if syscall_num = SYSCALL_GETPID then Some (r\<lparr>r_eax := current_pid\<rparr>, k)
        else if syscall_num = SYSCALL_OPEN then
          if arg1 \<noteq> 0 then do {
            filename \<leftarrow> c_string arg1 (wmem w);
            file_call (vfs_open (Some filename) arg2) r k
          } else Some (r\<lparr>r_eax := EINVAL\<rparr>, k)
        else if syscall_num = SYSCALL_CLOSE then file_call (vfs_close arg1) r k
        else if syscall_num = SYSCALL_READ then
          if arg2 = 0 then Some (r\<lparr>r_eax := EINVAL\<rparr>, k) else file_call (vfs_read arg1 arg2 arg3) r k
        else if syscall_num = SYSCALL_WRITE then
          if arg2 = 0 then Some (r\<lparr>r_eax := EINVAL\<rparr>, k) else file_call (vfs_write arg1 arg2 arg3) r k
        else if syscall_num = SYSCALL_SEEK then file_call (vfs_seek arg1 arg2 arg3) r k
        else if syscall_num = SYSCALL_IOCTL then file_call (vfs_ioctl arg1 arg2 arg3) r k
        else if syscall_num = SYSCALL_STAT then
          if arg1 = 0 \<or> arg2 = 0 then Some (r\<lparr>r_eax := EINVAL\<rparr>, k)
          else do {
            path \<leftarrow> c_string arg1 (wmem w);
            let (e, st) = vfs_stat (Some path) arg2 w;
            Some (r\<lparr>r_eax := e\<rparr>, k\<lparr>files := store_stat arg2 st w\<rparr>)
          }
        else Some (r\<lparr>r_eax := - 1\<rparr>, k))"

section \<open>Strings\<close>

lemma c_string_cstr:
  assumes "cstr m p xs"
  shows "c_string p m = Some xs"
proof -
  have len: "strlen p m = Some (of_nat (length xs))"
    using strlen_loop_spec [of m p 0 xs] assms by (simp add: strlen_def)
  have n: "unat (of_nat (length xs) :: u32) = length xs"
    using cstr_length [OF assms] by (intro unat_of_nat_small) simp
  have "map (\<lambda>i. m (p + of_nat i)) [0..<length xs] = xs"
    using cstr_nth [OF assms] by (intro nth_equalityI) simp_all
  then show ?thesis by (simp add: c_string_def len n)
qed

lemma fb_puts_literal:
  assumes "cstr m p xs" and "p \<noteq> 0" and "Suc (length xs) < 2 ^ 32"
  shows "fb_puts p m c = Some (fb_puts_lit xs c)"
proof -
  have len: "fb_strlen p m = Some (of_nat (length xs))"
    using fb_strlen_spec [of m p 0 xs] assms(1,2) by (simp add: fb_strlen_def)
  have n: "unat (of_nat (length xs) + 1 :: u32) = Suc (length xs)"
  proof -
    have "(of_nat (length xs) + 1 :: u32) = of_nat (Suc (length xs))" by simp
    moreover have "unat (of_nat (Suc (length xs)) :: u32) = Suc (length xs)"
      using assms(3) by (intro unat_of_nat_small) simp
    ultimately show ?thesis by (simp add: add.commute)
  qed
  then have "of_nat (length xs) + 1 \<noteq> (0 :: u32)" by auto
  then show ?thesis using assms(2) len n cstr_bytes [OF assms(1)]
    by (simp add: fb_puts_def fb_write_def fb_puts_lit_def del: upt_Suc)
qed

section \<open>What a system call changes\<close>

text \<open>Files, keyboard and console on one side, processes on the other; of the registers only \<open>eax\<close>.\<close>

lemma file_call_frame:
  "file_call f r k = Some (r', k') \<Longrightarrow> r' = r\<lparr>r_eax := r_eax r'\<rparr> \<and> k' = k\<lparr>files := snd (f (files k))\<rparr> \<and> r_eax r' = fst (f (files k))"
  by (auto simp: file_call_def split: prod.splits)

definition file_step :: "world \<Rightarrow> world \<Rightarrow> bool" where
  "file_step w w' \<longleftrightarrow> w' = w \<or> vfs_step w w'"

lemma file_step_refl [simp]: "file_step w w"
  by (simp add: file_step_def)

lemma vfs_outside: "vfs_step w (w\<lparr>wmem := m\<rparr>)" "vfs_step w (w\<lparr>wkbd := kb\<rparr>)" "vfs_step w (w\<lparr>wcon := c\<rparr>)"
  using outside [where w = w and m = m and k = "wkbd w" and c = "wcon w" and h = "wheap w"]
    outside [where w = w and m = "wmem w" and k = kb and c = "wcon w" and h = "wheap w"]
    outside [where w = w and m = "wmem w" and k = "wkbd w" and c = c and h = "wheap w"] by simp_all

lemma store_stat_step: "file_step w (store_stat p st w)"
  using vfs_outside(1) by (cases st) (simp_all add: store_stat_def file_step_def)

lemma file_call_step:
  assumes "file_call f r k = Some (r', k')" and "vfs_step (files k) (snd (f (files k)))"
  shows "r' = r\<lparr>r_eax := r_eax r'\<rparr> \<and> file_step (files k) (files k') \<and> k' = k\<lparr>files := files k'\<rparr>"
  using file_call_frame [OF assms(1)] assms(2) by (auto simp: file_step_def)

lemma file_calls_step:
  "file_call (vfs_open p fl) r k = Some (r', k') \<Longrightarrow> r' = r\<lparr>r_eax := r_eax r'\<rparr> \<and> file_step (files k) (files k') \<and> k' = k\<lparr>files := files k'\<rparr>"
  "file_call (vfs_close fd) r k = Some (r', k') \<Longrightarrow> r' = r\<lparr>r_eax := r_eax r'\<rparr> \<and> file_step (files k) (files k') \<and> k' = k\<lparr>files := files k'\<rparr>"
  "file_call (vfs_read fd b n) r k = Some (r', k') \<Longrightarrow> r' = r\<lparr>r_eax := r_eax r'\<rparr> \<and> file_step (files k) (files k') \<and> k' = k\<lparr>files := files k'\<rparr>"
  "file_call (vfs_write fd b n) r k = Some (r', k') \<Longrightarrow> r' = r\<lparr>r_eax := r_eax r'\<rparr> \<and> file_step (files k) (files k') \<and> k' = k\<lparr>files := files k'\<rparr>"
  "file_call (vfs_seek fd off wh) r k = Some (r', k') \<Longrightarrow> r' = r\<lparr>r_eax := r_eax r'\<rparr> \<and> file_step (files k) (files k') \<and> k' = k\<lparr>files := files k'\<rparr>"
  "file_call (vfs_ioctl fd rq ap) r k = Some (r', k') \<Longrightarrow> r' = r\<lparr>r_eax := r_eax r'\<rparr> \<and> file_step (files k) (files k') \<and> k' = k\<lparr>files := files k'\<rparr>"
  by (erule file_call_step, rule vfs_step.intros)+

lemma syscall_frame:
  assumes h: "syscall_handler r k = Some (r', k')" and "r_eax r \<noteq> SYSCALL_EXIT"
  shows "r' = r\<lparr>r_eax := r_eax r'\<rparr> \<and> file_step (files k) (files k') \<and> k' = k\<lparr>files := files k'\<rparr>"
proof -
  note d = syscall_handler_def [of r k, unfolded Let_def] and v = vfs_outside file_step_def
  consider "r_eax r = SYSCALL_PUTS" | "r_eax r = SYSCALL_PUTCHAR" | "r_eax r = SYSCALL_GETC" | "r_eax r = SYSCALL_GETPID"
    | "r_eax r = SYSCALL_OPEN" | "r_eax r = SYSCALL_CLOSE" | "r_eax r = SYSCALL_READ" | "r_eax r = SYSCALL_WRITE"
    | "r_eax r = SYSCALL_SEEK" | "r_eax r = SYSCALL_IOCTL" | "r_eax r = SYSCALL_STAT"
    | "r_eax r \<notin> {SYSCALL_EXIT, SYSCALL_PUTS, SYSCALL_PUTCHAR, SYSCALL_GETC, SYSCALL_GETPID, SYSCALL_OPEN, SYSCALL_CLOSE,
        SYSCALL_READ, SYSCALL_WRITE, SYSCALL_SEEK, SYSCALL_IOCTL, SYSCALL_STAT}" using assms(2) by blast
  then show ?thesis
  proof cases
    case 1
    then show ?thesis using h by (auto simp: d v bind_eq_Some_conv split: if_splits)
  next
    case 2
    then show ?thesis using h by (auto simp: d v)
  next
    case 3
    then show ?thesis using h by (auto simp: d v split: prod.splits if_splits)
  next
    case 4
    then show ?thesis using h by (auto simp: d v)
  next
    case 5
    then show ?thesis using h
      by (auto simp: d v bind_eq_Some_conv split: if_splits dest!: file_calls_step(1))
  next
    case 6
    then show ?thesis using h file_calls_step(2) by (simp add: d)
  next
    case 7
    then show ?thesis using h file_calls_step(3) by (auto simp: d v split: if_splits)
  next
    case 8
    then show ?thesis using h file_calls_step(4) by (auto simp: d v split: if_splits)
  next
    case 9
    then show ?thesis using h file_calls_step(5) by (simp add: d)
  next
    case 10
    then show ?thesis using h file_calls_step(6) by (simp add: d)
  next
    case 11
    then show ?thesis using h store_stat_step
      by (auto simp: d bind_eq_Some_conv case_prod_beta split: if_splits)
  next
    case 12
    then show ?thesis using h by (auto simp: d v)
  qed
qed

lemma exit_files: "process_exit_current k = Some k' \<Longrightarrow> files k' = files k"
  by (auto simp: process_exit_current_def bind_eq_Some_conv Let_def split: option.splits)

definition regs_zero :: regs where
  "regs_zero = \<lparr>r_gs = 0, r_fs = 0, r_es = 0, r_ds = 0, r_edi = 0, r_esi = 0, r_ebp = 0, r_esp = 0, r_ebx = 0,
     r_edx = 0, r_ecx = 0, r_eax = 0, r_int_no = 0, r_err_code = 0, r_eip = 0, r_cs = 0, r_eflags = 0,
     r_useresp = 0, r_ss = 0\<rparr>"

text \<open>The stores of \<open>stat\<close>.\<close>

lemma store_stat_outside: "a \<notin> span p 16 \<Longrightarrow> wmem (store_stat p st w) a = wmem w a"
proof -
  assume a: "a \<notin> span p 16"
  have "a \<notin> span (p + of_nat k) 4" if "k \<in> {0, 4, 8, 12}" for k
  proof -
    have "span (p + of_nat k) 4 \<subseteq> span p 16"
      using that span_add [of p k 4] span_mono [of "k + 4" 16 p] by auto
    then show ?thesis using a by blast
  qed
  from this [of 0] this [of 4] this [of 8] this [of 12] show ?thesis
    by (simp add: store_stat_def store32_outside split: option.split)
qed

lemma store_stat_stores: "{a. wmem (store_stat p st w) a \<noteq> wmem w a} \<subseteq> span p 16"
  using store_stat_outside by blast

lemma store_stat_frame: "store_stat p st w = w\<lparr>wmem := wmem (store_stat p st w)\<rparr>"
  by (simp add: store_stat_def split: option.split)

lemma file_call_world: "file_call f r k = Some (r', k') \<Longrightarrow> files k' = snd (f (files k))"
  by (auto simp: file_call_def split: prod.splits)

text \<open>What the call of a number may change in the state of the files, the keyboard and the console.\<close>

definition call_changes :: "regs \<Rightarrow> world \<Rightarrow> world \<Rightarrow> bool" where
  "call_changes r w w' \<longleftrightarrow>
     (let n = r_eax r; stores = {a. wmem w' a \<noteq> wmem w a}
      in if n = SYSCALL_PUTS \<or> n = SYSCALL_PUTCHAR then w' = w\<lparr>wcon := wcon w'\<rparr>
         else if n = SYSCALL_GETC then w' = w\<lparr>wkbd := snd (keyboard_get_char (wkbd w))\<rparr>
         else if n = SYSCALL_OPEN \<or> n = SYSCALL_CLOSE \<or> n = SYSCALL_SEEK then tables_change w w'
         else if n = SYSCALL_READ then
           tables_change (w\<lparr>wmem := wmem w', wkbd := wkbd w'\<rparr>) w' \<and> stores \<subseteq> span (r_ecx r) (unat (r_edx r))
         else if n = SYSCALL_WRITE then tables_change (w\<lparr>wcon := wcon w'\<rparr>) w'
         else if n = SYSCALL_IOCTL then w' = w\<lparr>wmem := wmem w', wcon := wcon w'\<rparr> \<and> stores \<subseteq> span (r_edx r) 4
         else if n = SYSCALL_STAT then w' = w\<lparr>wmem := wmem w'\<rparr> \<and> stores \<subseteq> span (r_ecx r) 16
         else w' = w)"

lemma syscall_call_changes:
  assumes h: "syscall_handler r k = Some (r', k')" and "r_eax r \<noteq> SYSCALL_EXIT"
  shows "call_changes r (files k) (files k')"
proof -
  note d = syscall_handler_def [of r k, unfolded Let_def] and c = call_changes_def [of r, unfolded Let_def]
  consider "r_eax r = SYSCALL_PUTS" | "r_eax r = SYSCALL_PUTCHAR" | "r_eax r = SYSCALL_GETC" | "r_eax r = SYSCALL_GETPID"
    | "r_eax r = SYSCALL_OPEN" | "r_eax r = SYSCALL_CLOSE" | "r_eax r = SYSCALL_READ" | "r_eax r = SYSCALL_WRITE"
    | "r_eax r = SYSCALL_SEEK" | "r_eax r = SYSCALL_IOCTL" | "r_eax r = SYSCALL_STAT"
    | "r_eax r \<notin> {SYSCALL_EXIT, SYSCALL_PUTS, SYSCALL_PUTCHAR, SYSCALL_GETC, SYSCALL_GETPID, SYSCALL_OPEN, SYSCALL_CLOSE,
        SYSCALL_READ, SYSCALL_WRITE, SYSCALL_SEEK, SYSCALL_IOCTL, SYSCALL_STAT}" using assms(2) by blast
  then show ?thesis
  proof cases
    case 1
    then show ?thesis using h by (auto simp: d c bind_eq_Some_conv split: if_splits)
  next
    case 2
    then have "r' = r" "files k' = (files k)\<lparr>wcon := fb_putchar (ucast (r_ebx r)) (wcon (files k))\<rparr>" using h by (auto simp: d)
    then show ?thesis using 2 by (simp add: c)
  next
    case 3
    then show ?thesis using h by (auto simp: d c case_prod_beta split: if_splits)
  next
    case 4
    then show ?thesis using h by (auto simp: d c)
  next
    case 5
    then show ?thesis using h vfs_open_frame
      by (auto simp: d c bind_eq_Some_conv split: if_splits dest!: file_call_world)
  next
    case 6
    then show ?thesis using h vfs_close_frame by (auto simp: d c dest!: file_call_world)
  next
    case 7
    then show ?thesis using h vfs_read_frame vfs_stores(1)
      by (auto simp: d c split: if_splits dest!: file_call_world intro!: subsetD [OF vfs_stores(1)])
  next
    case 8
    then show ?thesis using h vfs_write_frame
      by (auto simp: d c split: if_splits dest!: file_call_world)
  next
    case 9
    then show ?thesis using h vfs_seek_frame by (auto simp: d c dest!: file_call_world)
  next
    case 10
    then show ?thesis using h vfs_ioctl_frame by (auto simp: d c dest!: file_call_world intro!: subsetD [OF vfs_stores(2)])
  next
    case 11
    then show ?thesis using h store_stat_frame
      by (auto simp: d c bind_eq_Some_conv case_prod_beta split: if_splits intro!: subsetD [OF store_stat_stores])
  next
    case 12
    then show ?thesis using h by (auto simp: d c)
  qed
qed

text \<open>What none of them touches.\<close>

lemma call_changes_keeps:
  assumes "call_changes r w w'"
  shows "wheap w' = wheap w \<and> modules w' = modules w \<and> ramfs_base w' = ramfs_base w \<and> ramfs_files w' = ramfs_files w \<and>
    fs_list w' = fs_list w"
  using assms by (cases w; cases w') (auto simp: call_changes_def tables_change_def Let_def split: if_splits)

section \<open>Properties\<close>

text \<open>
  C29: A system call changes no saved register but eax. EXIT changes no register and no file. Every
  other call leaves processes, address spaces, the kernel heap, the module list and the registered
  file systems and files alone; PUTS and PUTCHAR change the console only, GETC takes one character
  from the keyboard queue, OPEN, CLOSE and SEEK change only the tables of descriptors and handles,
  READ these tables, the keyboard queue and bytes inside the buffer it was given, WRITE the tables and
  the console, IOCTL the console and four bytes at its argument, STAT the 16 bytes of the record, and
  any other number nothing.
\<close>

theorem syscall_changes:
  assumes "syscall_handler r k = Some (r', k')"
  shows "r' = r\<lparr>r_eax := r_eax r'\<rparr> \<and>
    (if r_eax r = SYSCALL_EXIT then r' = r \<and> process_exit_current k = Some k' \<and> files k' = files k
     else k' = k\<lparr>files := files k'\<rparr> \<and> call_changes r (files k) (files k') \<and>
       wheap (files k') = wheap (files k) \<and> modules (files k') = modules (files k) \<and>
       ramfs_files (files k') = ramfs_files (files k) \<and> fs_list (files k') = fs_list (files k))"
proof (cases "r_eax r = SYSCALL_EXIT")
  case True
  then have "r' = r" "process_exit_current k = Some k'" using assms
    by (auto simp: syscall_handler_def Let_def bind_eq_Some_conv)
  moreover have "files k' = files k" using calculation(2) exit_files by blast
  ultimately show ?thesis using True by simp
next
  case False
  note c = syscall_call_changes [OF assms False]
  show ?thesis using syscall_frame [OF assms False] c call_changes_keeps [OF c] False by simp
qed

text \<open>A read of \<open>/dev/zero\<close>: the buffer is zeroed, the byte behind it and the heap are as before.\<close>

theorem syscall_changes_witness:
  "\<exists>k r' k'. syscall_handler (regs_zero\<lparr>r_eax := SYSCALL_READ, r_ebx := 3, r_ecx := 64, r_edx := 8\<rparr>) k = Some (r', k') \<and>
     r_eax r' = 8 \<and> wmem (files k') 71 = 0 \<and> wmem (files k') 72 = 7 \<and> wheap (files k') = wheap (files k) \<and> vm k' = vm k"
proof -
  let ?fs = "\<lparr>fs_name = devfs_name, fs_table = Devfs_ops\<rparr>"
  let ?w = "world_bss\<lparr>wmem := (\<lambda>_. 7), devfs_handles := (\<lambda>_. no_devfs_handle)(0 := \<lparr>dh_device = DEVICE_ZERO, dh_pos = 0\<rparr>),
    open_files := (\<lambda>_. no_file_handle)(3 := \<lparr>fh_fs = Some ?fs, fh_private = 0, fh_pos = 0, fh_flags = O_RDONLY, fh_ref = 1\<rparr>)\<rparr>"
  let ?k = "(boot_kernel (boot_vm buddy_bss))\<lparr>files := ?w\<rparr>"
  let ?r = "regs_zero\<lparr>r_eax := SYSCALL_READ, r_ebx := 3, r_ecx := 64, r_edx := 8\<rparr>"
  have "vfs_read 3 64 8 ?w = (8, add_pos 3 8 (?w\<lparr>wmem := memset 64 0 8 (\<lambda>_. 7)\<rparr>))"
    by (simp add: vfs_read_def vfs_bad_def out_of_table_def fs_read_def devfs_read_def devfs_bad_def Let_def)
  then have h: "syscall_handler ?r ?k = Some (?r\<lparr>r_eax := 8\<rparr>, ?k\<lparr>files := add_pos 3 8 (?w\<lparr>wmem := memset 64 0 8 (\<lambda>_. 7)\<rparr>)\<rparr>)"
    by (simp add: syscall_handler_def Let_def file_call_def)
  let ?k' = "?k\<lparr>files := add_pos 3 8 (?w\<lparr>wmem := memset 64 0 8 (\<lambda>_. 7)\<rparr>)\<rparr>"
  from syscall_changes [OF h] have c: "call_changes ?r (files ?k) (files ?k')" "wheap (files ?k') = wheap (files ?k)"
    by simp_all
  have "72 \<notin> {a. wmem (files ?k') a \<noteq> wmem (files ?k) a}"
    using c(1) by (auto simp: call_changes_def Let_def in_span_iff [of _ 64 8, simplified])
  moreover have "wmem (files ?k') 71 = 0" by (simp add: memset_byte)
  ultimately show ?thesis using h c(2) by (intro exI [of _ ?k] exI [of _ "?r\<lparr>r_eax := 8\<rparr>"] exI [of _ ?k']) simp
qed



theorem syscall_exit_returns:
  assumes "current_process k = Some i" and "i < length (processes k)" and "r_eax r = SYSCALL_EXIT"
    and "syscall_handler r k = Some (r', k')"
  shows "r' = r \<and> pstate (processes k' ! i) = PROCESS_TERMINATED \<and> files k' = files k \<and>
    syscall_handler (q\<lparr>r_eax := SYSCALL_GETPID\<rparr>) k' = Some (q\<lparr>r_eax := 0\<rparr>, k') \<and>
    syscall_handler r k' = Some (r, k')"
proof -
  have r: "r' = r" and e: "process_exit_current k = Some k'" using assms(3,4)
    by (auto simp: syscall_handler_def Let_def bind_eq_Some_conv)
  have "current_process k' = None" "pstate (processes k' ! i) = PROCESS_TERMINATED"
    using e assms(1,2) by (auto simp: process_exit_current_def bind_eq_Some_conv Let_def)
  then show ?thesis using r exit_files [OF e] assms(3)
    by (simp add: syscall_handler_def Let_def process_get_current_def process_exit_current_def)
qed

theorem syscall_exit_returns_witness:
  "\<exists>k r' k'. current_process k = Some 0 \<and>
     syscall_handler (regs_zero\<lparr>r_eax := SYSCALL_EXIT\<rparr>) k = Some (r', k') \<and> r' = regs_zero\<lparr>r_eax := SYSCALL_EXIT\<rparr> \<and>
     pstate (processes k' ! 0) = PROCESS_TERMINATED"
proof -
  obtain k2 k3 where k: "process_exit_current k2 = Some k3" "current_process k2 = Some 0" "length (processes k2) = 16"
    using boot_life by blast
  let ?r = "regs_zero\<lparr>r_eax := SYSCALL_EXIT\<rparr>"
  have "syscall_handler ?r k2 = Some (?r, k3)" using k(1) by (simp add: syscall_handler_def Let_def)
  moreover have "0 < length (processes k2)" "r_eax ?r = SYSCALL_EXIT" using k(3) by simp_all
  ultimately show ?thesis using syscall_exit_returns [OF k(2), of ?r ?r k3] k(2) by blast
qed

end
