(* ===== verification/Interrupts.thy ===== *)
theory Interrupts
  imports Ports
begin

text \<open>
  Descriptor tables: the interrupt descriptor table of \<open>kernel/interrupts/idt.c\<close>, the task state
  segment of \<open>kernel/interrupts/tss.c\<close> and their installation, \<open>kernel/interrupts/interrupt.c\<close>. The
  entry points are assembly labels: their addresses, and those of the tables, are parameters. Log
  output is left out.
\<close>

section \<open>Tables\<close>

definition IDT_ENTRIES :: nat where [simp]: "IDT_ENTRIES = 256"
definition KERNEL_CS :: u16 where [simp]: "KERNEL_CS = 0x08"

record idt_entry =
  base_low :: u16
  sel :: u16
  zero :: u8
  flags :: u8
  base_high :: u16

record idt_ptr =
  limit :: u16
  base :: u32

record tss_entry =
  t_prev_tss :: u32
  t_esp0 :: u32
  t_ss0 :: u32
  t_esp1 :: u32
  t_ss1 :: u32
  t_esp2 :: u32
  t_ss2 :: u32
  t_cr3 :: u32
  t_eip :: u32
  t_eflags :: u32
  t_eax :: u32
  t_ecx :: u32
  t_edx :: u32
  t_ebx :: u32
  t_esp :: u32
  t_ebp :: u32
  t_esi :: u32
  t_edi :: u32
  t_es :: u32
  t_cs :: u32
  t_ss :: u32
  t_ds :: u32
  t_fs :: u32
  t_gs :: u32
  t_ldt :: u32
  t_trap :: u16
  t_iomap_base :: u16

text \<open>
  The tables and what the processor has been told: the operand of \<open>lidt\<close>, the base in the TSS
  descriptor of the GDT and the selector in the task register.
\<close>

record tables =
  idt :: "nat \<Rightarrow> idt_entry"
  idtr :: idt_ptr
  tss :: tss_entry
  gdt_tss_base :: u32
  task_register :: u16

section \<open>Interrupt descriptors\<close>

definition idt_set_gate :: "nat \<Rightarrow> u32 \<Rightarrow> u8 \<Rightarrow> (nat \<Rightarrow> idt_entry) \<Rightarrow> nat \<Rightarrow> idt_entry" where
  "idt_set_gate n handler fl t =
     t(n := \<lparr>base_low = ucast (handler AND 0xFFFF), sel = KERNEL_CS, zero = 0, flags = fl,
       base_high = ucast (drop_bit 16 handler AND 0xFFFF)\<rparr>)"

definition idt_install :: "(nat \<Rightarrow> u32) \<Rightarrow> u32 \<Rightarrow> u32 \<Rightarrow> tables \<Rightarrow> tables" where
  "idt_install interrupt_vectors syscall_entry idt_addr s =
     (let ptr = \<lparr>limit = 8 * of_nat IDT_ENTRIES - 1, base = idt_addr\<rparr>;
          t = fold (\<lambda>i t. if i = 0x80 then idt_set_gate 0x80 syscall_entry 0xEE t
                else idt_set_gate i (interrupt_vectors i) 0x8E t) [0..<256] (idt s)
      in s\<lparr>idt := t, idtr := ptr\<rparr>)"

section \<open>Task state segment\<close>

text \<open>\<open>sizeof(tss_entry_t)\<close> is 104.\<close>

definition tss_zero :: tss_entry where
  "tss_zero = \<lparr>t_prev_tss = 0, t_esp0 = 0, t_ss0 = 0, t_esp1 = 0, t_ss1 = 0, t_esp2 = 0, t_ss2 = 0, t_cr3 = 0,
     t_eip = 0, t_eflags = 0, t_eax = 0, t_ecx = 0, t_edx = 0, t_ebx = 0, t_esp = 0, t_ebp = 0, t_esi = 0,
     t_edi = 0, t_es = 0, t_cs = 0, t_ss = 0, t_ds = 0, t_fs = 0, t_gs = 0, t_ldt = 0, t_trap = 0, t_iomap_base = 0\<rparr>"

definition tss_init :: "tables \<Rightarrow> tables" where
  "tss_init s =
     (let t = tss_zero;
          t = t\<lparr>t_ss0 := 0x10\<rparr>;
          t = t\<lparr>t_esp0 := 0xC0130000\<rparr>;
          t = t\<lparr>t_es := 0x10\<rparr>;
          t = t\<lparr>t_cs := 0x08\<rparr>;
          t = t\<lparr>t_ss := 0x10\<rparr>;
          t = t\<lparr>t_ds := 0x10\<rparr>;
          t = t\<lparr>t_fs := 0x10\<rparr>;
          t = t\<lparr>t_gs := 0x10\<rparr>;
          t = t\<lparr>t_iomap_base := 104\<rparr>
      in s\<lparr>tss := t\<rparr>)"

definition tss_set_stack :: "u32 \<Rightarrow> u32 \<Rightarrow> tables \<Rightarrow> tables" where
  "tss_set_stack kernel_ss kernel_esp s = s\<lparr>tss := (tss s)\<lparr>t_ss0 := kernel_ss, t_esp0 := kernel_esp\<rparr>\<rparr>"

section \<open>Installation\<close>

text \<open>
  \<open>tss_set_descriptor\<close> writes the base of the GDT's TSS descriptor, \<open>tss_flush\<close> loads selector
  \<open>0x28\<close>; the stack pointer of the call is an argument.
\<close>

definition isr_install :: "device \<Rightarrow> (nat \<Rightarrow> u32) \<Rightarrow> u32 \<Rightarrow> u32 \<Rightarrow> u32 \<Rightarrow> u32 \<Rightarrow> tables \<times> io_log \<Rightarrow> tables \<times> io_log" where
  "isr_install dev interrupt_vectors syscall_entry idt_addr tss_addr kernel_esp = (\<lambda>(s, io).
     let s = idt_install interrupt_vectors syscall_entry idt_addr s;
         io = pic_remap dev 0x20 0x28 io;
         s = s\<lparr>gdt_tss_base := tss_addr\<rparr>;
         s = tss_init s;
         s = s\<lparr>task_register := 0x28\<rparr>;
         s = tss_set_stack 0x10 kernel_esp s;
         io = pic_clear_mask dev 1 io
     in (s, io))"

section \<open>What the processor reads\<close>

text \<open>The handler of a gate, its privilege level and whether it is a present 32-bit interrupt gate.\<close>

definition gate_target :: "idt_entry \<Rightarrow> u32" where
  "gate_target g = ucast (base_low g) OR push_bit 16 (ucast (base_high g))"

definition gate_dpl :: "idt_entry \<Rightarrow> nat" where
  "gate_dpl g = unat (drop_bit 5 (flags g) AND 3)"

definition interrupt_gate :: "idt_entry \<Rightarrow> bool" where
  "interrupt_gate g \<longleftrightarrow> flags g AND 0x80 \<noteq> 0 \<and> flags g AND 0x1F = 0x0E \<and> zero g = 0 \<and> sel g = KERNEL_CS"

lemma gate_round: "ucast (ucast (h AND 0xFFFF) :: u16) OR push_bit 16 (ucast (ucast (drop_bit 16 h AND 0xFFFF) :: u16)) = (h :: u32)"
proof (rule bit_word_eqI)
  have m: "(0xFFFF :: u32) = mask 16" by (simp add: mask_eq_exp_minus_1)
  fix n assume n: "n < LENGTH(32)"
  show "bit (ucast (ucast (h AND 0xFFFF) :: u16) OR push_bit 16 (ucast (ucast (drop_bit 16 h AND 0xFFFF) :: u16)) :: u32) n \<longleftrightarrow> bit h n"
    unfolding m using n by (cases "n < 16") (auto simp: bit_simps)
qed

lemma idt_fold:
  "n \<le> 256 \<Longrightarrow> fold (\<lambda>i t. if i = 0x80 then idt_set_gate 0x80 se 0xEE t else idt_set_gate i (v i) 0x8E t) [0..<n] t i =
     (if i < n then idt_set_gate i (if i = 0x80 then se else v i) (if i = 0x80 then 0xEE else 0x8E) t i else t i)"
  by (induction n) (auto simp: idt_set_gate_def)

lemma idt_install_gate:
  assumes "i < 256"
  shows "idt (idt_install v se a s) i = idt_set_gate i (if i = 0x80 then se else v i) (if i = 0x80 then 0xEE else 0x8E) (idt s) i"
  using idt_fold [of 256 se v "idt s" i] assms by (simp add: idt_install_def Let_def)

section \<open>Property\<close>



end
