(* ===== verification/HeapTests.thy ===== *)
theory HeapTests
  imports Kmalloc Paging
begin

text \<open>
  The self test of the kernel heap, \<open>test_kmalloc\<close> of \<open>kernel/mm/test_mm.c\<close>. A test returns what it
  prints besides fixed text: the strings, numbers and verdicts, and its error messages. String
  literals are bytes of memory outside the heap, at addresses that are parameters.
\<close>

section \<open>Reports\<close>

datatype report =
    Text "u8 list"
  | Numbers "u32 list"
  | Check bool
  | Error string

text \<open>What \<open>%s\<close> prints.\<close>

partial_function (option) printed_string :: "u32 \<Rightarrow> mem \<Rightarrow> u8 list option" where
  "printed_string p m = (if m p = 0 then Some [] else do { xs \<leftarrow> printed_string (p + 1) m; Some (m p # xs) })"

lemma printed_string_cstr: "cstr m p xs \<Longrightarrow> printed_string p m = Some xs"
proof (induction xs arbitrary: p)
  case Nil
  then show ?case by (subst printed_string.simps) simp
next
  case (Cons x xs)
  then show ?case by (subst printed_string.simps) auto
qed

section \<open>The test\<close>

text \<open>The addresses of the literals \<open>Hello, Kernel Heap!\<close>, \<open>small\<close> and \<open> -> expanded!\<close>.\<close>

record literals =
  lit_hello :: u32
  lit_small :: u32
  lit_expanded :: u32

text \<open>Test 1, the string.\<close>

definition heap_test_string :: "literals \<Rightarrow> heap_manager \<Rightarrow> ((u32 \<times> report list) \<times> heap_manager) option" where
  "heap_test_string l s = do {
     (str1, s) \<leftarrow> kmalloc 64 s;
     if str1 \<noteq> 0 then do {
       m \<leftarrow> strcpy str1 (lit_hello l) (hbytes s);
       t \<leftarrow> printed_string str1 m;
       Some ((str1, [Text t]), s\<lparr>hbytes := m\<rparr>)
     }
     else Some ((str1, [Error ''kmalloc failed for 64 bytes'']), s)
   }"

text \<open>Test 1, the array of 256 integers.\<close>

definition fill_squares :: "u32 \<Rightarrow> mem \<Rightarrow> mem" where
  "fill_squares array m = fold (\<lambda>i m. store32 (array + 4 * of_nat i) (of_nat i * of_nat i) m) [0..<256] m"

definition heap_test_array :: "heap_manager \<Rightarrow> ((u32 \<times> report list) \<times> heap_manager) option" where
  "heap_test_array s = do {
     (array, s) \<leftarrow> kmalloc (256 * 4) s;
     if array \<noteq> 0 then
       let m = fill_squares array (hbytes s)
       in Some ((array, [Numbers (map (\<lambda>i. load32 m (array + 4 * i)) [0, 100, 255])]), s\<lparr>hbytes := m\<rparr>)
     else Some ((array, [Error ''kmalloc failed for array'']), s)
   }"

text \<open>Test 2: memory of \<open>kcalloc\<close> is zero.\<close>

definition heap_test_zeroed :: "heap_manager \<Rightarrow> ((u32 \<times> report list) \<times> heap_manager) option" where
  "heap_test_zeroed s = do {
     (zeroed, s) \<leftarrow> kcalloc 1 128 s;
     if zeroed \<noteq> 0 then Some ((zeroed, [Check (\<forall>i\<in>set [0..<128]. hbytes s (zeroed + of_nat i) = 0)]), s)
     else Some ((zeroed, [Error ''kcalloc failed'']), s)
   }"

text \<open>Test 3: \<open>krealloc\<close>.\<close>

definition heap_test_grow :: "literals \<Rightarrow> heap_manager \<Rightarrow> (report list \<times> heap_manager) option" where
  "heap_test_grow l s = do {
     (small, s) \<leftarrow> kmalloc 16 s;
     if small \<noteq> 0 then do {
       m \<leftarrow> strcpy small (lit_small l) (hbytes s);
       t \<leftarrow> printed_string small m;
       (large, s) \<leftarrow> krealloc small 64 (s\<lparr>hbytes := m\<rparr>);
       if large \<noteq> 0 then do {
         t2 \<leftarrow> printed_string large (hbytes s);
         m \<leftarrow> strcat large (lit_expanded l) (hbytes s);
         t3 \<leftarrow> printed_string large m;
         s \<leftarrow> kfree large (s\<lparr>hbytes := m\<rparr>);
         Some ([Text t, Text t2, Text t3], s)
       }
       else do {
         s \<leftarrow> kfree small s;
         Some ([Text t, Error ''krealloc failed''], s)
       }
     }
     else Some ([Error ''kmalloc failed for realloc test''], s)
   }"

text \<open>Test 4 frees the pointers that are not null.\<close>

definition free_if :: "u32 \<Rightarrow> heap_manager \<Rightarrow> heap_manager option" where
  "free_if p s = (if p \<noteq> 0 then kfree p s else Some s)"

text \<open>Test 5: the loop that allocates, with the \<open>pointers\<close> it filled, and the one that frees.\<close>

fun stress_alloc :: "nat \<Rightarrow> nat \<Rightarrow> heap_manager \<Rightarrow> ((u32 list \<times> report list) \<times> heap_manager) option" where
  "stress_alloc i 0 s = Some (([], []), s)"
| "stress_alloc i (Suc n) s = do {
     (p, s) \<leftarrow> kmalloc (128 + of_nat i * 8) s;
     if p \<noteq> 0 then do {
       ((ps, r), s) \<leftarrow> stress_alloc (Suc i) n s;
       Some ((p # ps, r), s)
     }
     else Some (([], [Error ''Allocation failed'', Numbers [of_nat i]]), s)
   }"

fun free_all :: "u32 list \<Rightarrow> heap_manager \<Rightarrow> heap_manager option" where
  "free_all [] s = Some s"
| "free_all (p # ps) s = do { s \<leftarrow> kfree p s; free_all ps s }"

definition heap_test_stress :: "heap_manager \<Rightarrow> (report list \<times> heap_manager) option" where
  "heap_test_stress s = do {
     ((pointers, r), s) \<leftarrow> stress_alloc 0 50 s;
     (_, _, s) \<leftarrow> kmalloc_stats s;
     s \<leftarrow> free_all pointers s;
     Some (r @ [Numbers [of_nat (length pointers)]], s)
   }"

definition test_kmalloc :: "literals \<Rightarrow> heap_manager \<Rightarrow> (report list \<times> heap_manager) option" where
  "test_kmalloc l s = do {
     (_, _, s) \<leftarrow> kmalloc_stats s;
     ((str1, r1), s) \<leftarrow> heap_test_string l s;
     ((array, r2), s) \<leftarrow> heap_test_array s;
     (_, _, s) \<leftarrow> kmalloc_stats s;
     ((zeroed, r3), s) \<leftarrow> heap_test_zeroed s;
     (r4, s) \<leftarrow> heap_test_grow l s;
     (_, _, s) \<leftarrow> kmalloc_stats s;
     s \<leftarrow> free_if str1 s;
     s \<leftarrow> free_if array s;
     s \<leftarrow> free_if zeroed s;
     (_, _, s) \<leftarrow> kmalloc_stats s;
     (r5, s) \<leftarrow> heap_test_stress s;
     (_, _, s) \<leftarrow> kmalloc_stats s;
     Some (r1 @ r2 @ r3 @ r4 @ r5, s)
   }"

section \<open>Room in the heap\<close>

text \<open>Blocks only grow when fewer are in use: a free block lies inside a free block of any such list.\<close>

lemma free_block_covered:
  assumes "tiles lo hi cs" and "coalesced cs" and "lo \<le> x" and "x + n \<le> hi" and "0 < n"
    and "\<And>c m. (c, m) \<in> used_blocks cs \<Longrightarrow> unat c + m \<le> x \<or> x + n \<le> unat c"
  shows "\<exists>c m. (c, m, True) \<in> set cs \<and> n \<le> m"
  using assms
proof (induction cs arbitrary: lo)
  case (Cons y cs)
  obtain c m f where y: "y = (c, m, f)" by (cases y)
  have c: "unat c = lo" "16 \<le> m" "tiles (lo + m) hi cs" using Cons.prems(1) y by simp_all
  have used: "\<And>d k. (d, k) \<in> used_blocks cs \<Longrightarrow> unat d + k \<le> x \<or> x + n \<le> unat d"
    using Cons.prems(6) y by (auto simp: used_blocks_def)
  show ?case
  proof (cases "lo + m \<le> x")
    case True
    have "coalesced cs" using Cons.prems(2) y by (cases cs) auto
    from Cons.IH [OF c(3) this True Cons.prems(4,5) used] show ?thesis by auto
  next
    case False
    then have f: f using Cons.prems(3,5) Cons.prems(6) [of c m] c(1) y by (cases f) (auto simp: used_blocks_def)
    have "x + n \<le> lo + m"
    proof (rule ccontr)
      assume past: "\<not> x + n \<le> lo + m"
      then obtain d k g ds where cs: "cs = (d, k, g) # ds" using c(3) Cons.prems(4) by (cases cs) auto
      then have "\<not> g" "unat d = lo + m" "16 \<le> k" using Cons.prems(2) y f c(3) by simp_all
      then show False using used [of d k] cs past False by (auto simp: used_blocks_def)
    qed
    then have "n \<le> m" using Cons.prems(3) by simp
    then show ?thesis using y f by auto
  qed
qed simp

text \<open>
  \<open>heap_room lo hi U N s\<close>: the payloads \<open>U\<close> are in use and there is a free block of at least \<open>N\<close>
  bytes.
\<close>

definition heap_room :: "nat \<Rightarrow> nat \<Rightarrow> (u32 \<times> nat) set \<Rightarrow> nat \<Rightarrow> heap_manager \<Rightarrow> bool" where
  "heap_room lo hi U N s \<longleftrightarrow> (\<exists>bs. heap_inv lo hi s bs \<and> U = payload ` used_blocks bs \<and>
     (0 < N \<longrightarrow> (\<exists>b n. (b, n, True) \<in> set bs \<and> N \<le> n)))"

lemma room_ok: "heap_room lo hi U N s \<Longrightarrow> heap_ok lo hi U s"
  by (auto simp: heap_room_def heap_ok_def)

lemma room_mono: "heap_room lo hi U N s \<Longrightarrow> M \<le> N \<Longrightarrow> heap_room lo hi U M s"
  unfolding heap_room_def using le_trans by fastforce

lemma room_bytes: "heap_room lo hi U N (s\<lparr>hbytes := m\<rparr>) = heap_room lo hi U N s"
  by (simp add: heap_room_def heap_inv_bytes)

lemma room_stats: "heap_room lo hi U N s \<Longrightarrow> \<exists>c e. kmalloc_stats s = Some (c, e, s)"
  using kmalloc_stats_counts by (fastforce simp: heap_room_def)

lemma room_kcalloc: "heap_room lo hi U N s \<Longrightarrow> kcalloc num sz s = kmalloc (num * sz) s"
  using kcalloc_is_kmalloc by (auto simp: heap_room_def)

lemma room_block:
  assumes "heap_room lo hi U N s" and "(p, k) \<in> U"
  shows "lo \<le> unat p" and "unat p + k \<le> hi" and "hi < 2 ^ 32" and "p \<noteq> 0" and "8 dvd unat p"
proof -
  obtain bs where bs: "heap_inv lo hi s bs" "U = payload ` used_blocks bs"
    using assms(1) by (auto simp: heap_room_def)
  then obtain b n where b: "(b, n) \<in> used_blocks bs" "p = b + 16" "k = n - 16" using assms(2) by auto
  note blk = heap_ok_block [OF bs(1) b(1)]
  show "lo \<le> unat p" "unat p + k \<le> hi" using blk(1-4) b(2,3) by auto
  show "hi < 2 ^ 32" using bs(1) by (simp add: heap_inv_def)
  show "p \<noteq> 0" using used_header(3) [OF bs(1) b(1)] b(2) by simp
  have "8 dvd unat b + 16" using blk(5) by presburger
  then show "8 dvd unat p" using blk(1) b(2) by simp
qed

lemma room_free:
  assumes "heap_room lo hi U N s" and "(p, k) \<in> U"
  obtains s' where "kfree p s = Some s'" and "heap_room lo hi (U - {(p, k)}) N s'" and "hbytes s' = hbytes s"
proof -
  obtain bs where bs: "heap_inv lo hi s bs" "U = payload ` used_blocks bs"
    "0 < N \<longrightarrow> (\<exists>b n. (b, n, True) \<in> set bs \<and> N \<le> n)"
    using assms(1) by (auto simp: heap_room_def)
  then obtain b n where b: "(b, n) \<in> used_blocks bs" "p = b + 16" "k = n - 16" using assms(2) by auto
  obtain s' bs' where k: "kfree (b + 16) s = Some s'" "heap_inv lo hi s' bs'"
    "used_blocks bs' = used_blocks bs - {(b, n)}" "hbytes s' = hbytes s"
    using kfree_used [OF bs(1) b(1)] .
  have "U - {(p, k)} = payload ` used_blocks bs'"
    using inj_on_image_set_diff [OF payload_inj [OF bs(1)], of "used_blocks bs" "{(b, n)}"] b bs(2) k(3)
    by simp
  moreover have "\<exists>c m. (c, m, True) \<in> set bs' \<and> N \<le> m" if pos: "0 < N"
  proof -
    obtain a i where a: "(a, i, True) \<in> set bs" "N \<le> i" using bs(3) pos by blast
    have t: "tiles lo hi bs" "tiles lo hi bs'" "coalesced bs'" using bs(1) k(2) by (simp_all add: heap_inv_def)
    have "unat c + m \<le> unat a \<or> unat a + i \<le> unat c" if "(c, m) \<in> used_blocks bs'" for c m
      using tiles_disjoint [OF t(1), of c m False a i True] that a(1) k(3) by (auto simp: used_blocks_def)
    then obtain c m where "(c, m, True) \<in> set bs'" "i \<le> m"
      using free_block_covered [OF t(2,3), of "unat a" i] tiles_bounds [OF t(1) a(1)] by auto
    then show ?thesis using a(2) le_trans [of N i m] by (intro exI [of _ c] exI [of _ m]) simp
  qed
  ultimately have "heap_room lo hi (U - {(p, k)}) N s'" using k(2) unfolding heap_room_def by blast
  then show thesis using that k(1,4) b(2) by simp
qed

lemma room_alloc:
  assumes "heap_room lo hi U N s" and sz: "sz \<noteq> 0" "sz \<le> KMALLOC_MAX_SIZE"
  obtains (none) "kmalloc sz s = Some (0, s)" and "N < need sz"
  | (block) p k s' where "kmalloc sz s = Some (p, s')" and "p \<noteq> 0" and "unat sz \<le> k" and "(p, k) \<notin> U"
      and "heap_room lo hi (insert (p, k) U) (N - (need sz + 32)) s'" and "hbytes s' = memset p 0 sz (hbytes s)"
proof -
  obtain bs where bs: "heap_inv lo hi s bs" "U = payload ` used_blocks bs"
    "0 < N \<longrightarrow> (\<exists>b n. (b, n, True) \<in> set bs \<and> N \<le> n)"
    using assms(1) by (auto simp: heap_room_def)
  have pos: "0 < need sz" using need_bounds(1) [OF sz(2)] by simp
  show thesis
  proof (cases rule: kmalloc_cases [OF bs(1) sz])
    case 1
    have "N < need sz"
    proof (cases "0 < N")
      case True
      then show ?thesis using bs(3) 1(2) by fastforce
    qed (use pos in simp)
    then show thesis using none 1(1) by blast
  next
    case (2 b n k s' bs')
    obtain xs ys where split: "bs = xs @ (b, n, True) # ys" "bs' = xs @ (b, k, False) # rest_blocks sz b n ys"
      using 2(9) by blast
    have fresh: "(b + 16, k - 16) \<notin> U"
    proof
      assume "(b + 16, k - 16) \<in> U"
      then obtain m where "(b, m) \<in> used_blocks bs" by (auto simp: bs(2))
      then show False using block_size_unique [OF bs(1) 2(3), of m False] by (auto simp: used_blocks_def)
    qed
    have "(b, k) \<in> used_blocks bs'" using 2(7) by simp
    then have p0: "b + 16 \<noteq> 0" using used_header(3) [OF 2(2)] by blast
    have room: "\<exists>c m. (c, m, True) \<in> set bs' \<and> N - (need sz + 32) \<le> m" if pos: "0 < N - (need sz + 32)"
    proof -
      obtain a i where a: "(a, i, True) \<in> set bs" "N \<le> i" using bs(3) pos by auto
      show ?thesis
      proof (cases "(a, i) = (b, n)")
        case True
        then have "need sz + 32 \<le> n" using pos a(2) by simp
        then have "(b + of_nat (need sz), n - need sz, True) \<in> set bs'" unfolding split(2) by (simp add: rest_blocks_def)
        then show ?thesis using a(2) True by (intro exI conjI) auto
      next
        case False
        then have "(a, i, True) \<in> set bs'" using a(1) unfolding split by (auto simp: rest_blocks_def)
        then show ?thesis using a(2) by (intro exI conjI) auto
      qed
    qed
    have "insert (b + 16, k - 16) U = payload ` used_blocks bs'" by (simp add: 2(7) bs(2))
    then have "heap_room lo hi (insert (b + 16, k - 16) U) (N - (need sz + 32)) s'"
      unfolding heap_room_def by (intro exI [of _ bs'] conjI impI 2(2) room)
    moreover have "need sz \<le> k" using 2(5,6) by simp
    then have "unat sz \<le> k - 16" using need_bounds(1) [OF sz(2)] by linarith
    ultimately show thesis using block 2(1,8) p0 fresh by blast
  qed
qed

section \<open>Memory outside the heap\<close>

definition same_outside :: "nat \<Rightarrow> nat \<Rightarrow> mem \<Rightarrow> mem \<Rightarrow> bool" where
  "same_outside lo hi m m' \<longleftrightarrow> (\<forall>a. unat a < lo \<or> hi \<le> unat a \<longrightarrow> m' a = m a)"

lemma same_outside_refl [simp]: "same_outside lo hi m m"
  by (simp add: same_outside_def)

lemma same_outside_trans [trans]: "same_outside lo hi m m' \<Longrightarrow> same_outside lo hi m' m'' \<Longrightarrow> same_outside lo hi m m''"
  by (simp add: same_outside_def)

lemma same_outsideI:
  assumes "lo \<le> unat p" and "unat p + n \<le> hi" and "hi < 2 ^ 32" and "\<And>a. a \<notin> span p n \<Longrightarrow> m' a = m a"
  shows "same_outside lo hi m m'"
  using assms span_unat [of p n] by (fastforce simp: same_outside_def)

lemma store_outside:
  "lo \<le> unat p \<Longrightarrow> unat p + length bs \<le> hi \<Longrightarrow> hi < 2 ^ 32 \<Longrightarrow> same_outside lo hi m (store p bs m)"
  by (rule same_outsideI [where n = "length bs"]) (auto intro: store_other)

lemma memset_outside:
  assumes "lo \<le> unat p" and "unat p + unat n \<le> hi" and "hi < 2 ^ 32"
  shows "same_outside lo hi m (memset p v n m)"
proof (rule same_outsideI [OF assms])
  fix a assume "a \<notin> span p (unat n)"
  moreover have "unat n \<le> 2 ^ 32" using assms by simp
  ultimately show "memset p v n m a = m a" using span_iff [of "unat n" a p] by (simp add: memset_byte word_less_nat_alt)
qed

text \<open>A string outside the heap.\<close>

definition literal :: "nat \<Rightarrow> nat \<Rightarrow> u32 \<Rightarrow> u8 list \<Rightarrow> mem \<Rightarrow> bool" where
  "literal lo hi p xs m \<longleftrightarrow> cstr m p xs \<and> (\<forall>a\<in>span p (Suc (length xs)). unat a < lo \<or> hi \<le> unat a)"

lemma cstr_cong: "(\<And>a. a \<in> span p (Suc (length xs)) \<Longrightarrow> m' a = m a) \<Longrightarrow> cstr m' p xs = cstr m p xs"
proof (induction xs arbitrary: p)
  case (Cons x xs)
  have "cstr m' (p + 1) xs = cstr m (p + 1) xs" by (rule Cons.IH) (rule Cons.prems, simp add: span_Suc [of p])
  moreover have "m' p = m p" by (rule Cons.prems) simp
  ultimately show ?case by simp
qed (simp add: span_Suc)

lemma literal_keep: "literal lo hi p xs m \<Longrightarrow> same_outside lo hi m m' \<Longrightarrow> literal lo hi p xs m'"
  using cstr_cong [of p xs m' m] by (auto simp: literal_def same_outside_def)

lemma literal_apart:
  assumes "literal lo hi q xs m" and "lo \<le> unat p" and "unat p + n \<le> hi" and "hi < 2 ^ 32"
  shows "span p n \<inter> span q (Suc (length xs)) = {}"
  using assms span_unat [of p n] by (fastforce simp: literal_def)

text \<open>Copying a literal to a block of the heap.\<close>

lemma literal_strcpy:
  assumes "literal lo hi q xs m" and "lo \<le> unat p" and "unat p + Suc (length xs) \<le> hi" and "hi < 2 ^ 32"
  shows "strcpy p q m = Some (store p (xs @ [0]) m)" and "cstr (store p (xs @ [0]) m) p xs"
    and "same_outside lo hi m (store p (xs @ [0]) m)"
proof -
  have q: "cstr m q xs" using assms(1) by (simp add: literal_def)
  show "strcpy p q m = Some (store p (xs @ [0]) m)"
    unfolding strcpy_def by (rule strcpy_loop_spec [OF q literal_apart [OF assms]])
  show "cstr (store p (xs @ [0]) m) p xs" using cstr_no_nul [OF q] cstr_length [OF q] by (rule cstr_stored)
  show "same_outside lo hi m (store p (xs @ [0]) m)" using assms by (intro store_outside) simp_all
qed

lemma literal_strcat:
  assumes "literal lo hi q ys m" and "cstr m p xs" and "lo \<le> unat p"
    and "unat p + Suc (length xs + length ys) \<le> hi" and "hi < 2 ^ 32"
  obtains m' where "strcat p q m = Some m'" and "cstr m' p (xs @ ys)" and "same_outside lo hi m m'"
proof -
  have q: "cstr m q ys" using assms(1) by (simp add: literal_def)
  have u: "unat (p + of_nat (length xs)) = unat p + length xs" using assms by (intro no_wrap_off) simp
  have ap: "span (p + of_nat (length xs)) (Suc (length ys)) \<inter> span q (Suc (length ys)) = {}"
    using assms u by (intro literal_apart [OF assms(1)]) simp_all
  let ?m = "store (p + of_nat (length xs)) (ys @ [0]) m"
  have "strcat p q m = Some ?m"
    using strcpy_loop_spec [OF q ap] find_nul_spec [OF assms(2)] by (simp add: strcat_def)
  moreover have "?m = store p ((xs @ ys) @ [0]) m" using store_same [OF assms(2)] by (simp add: store_append)
  then have "cstr ?m p (xs @ ys)"
    using cstr_no_nul [OF q] cstr_no_nul [OF assms(2)] assms(4,5) cstr_stored [of "xs @ ys" p m] by simp
  moreover have "same_outside lo hi m ?m" using assms u by (intro store_outside) simp_all
  ultimately show thesis using that by blast
qed

section \<open>One allocation of the test\<close>

text \<open>The pointer a test keeps: null, or a block of at least \<open>n\<close> bytes that the test owns.\<close>

definition holds_block :: "nat \<Rightarrow> u32 \<Rightarrow> (u32 \<times> nat) set \<Rightarrow> bool" where
  "holds_block n p S \<longleftrightarrow> (if p = 0 then S = {} else \<exists>k\<ge>n. S = {(p, k)})"

lemma holds_blockD: "holds_block n p S \<Longrightarrow> p \<noteq> 0 \<Longrightarrow> \<exists>k\<ge>n. S = {(p, k)}"
  by (simp add: holds_block_def)

lemma holds_range:
  assumes "holds_block n p S" and "p \<noteq> 0" and "heap_room lo hi (S \<union> U) N s"
  shows "lo \<le> unat p" and "unat p + n \<le> hi" and "hi < 2 ^ 32" and "8 dvd unat p"
proof -
  obtain k where "n \<le> k" "(p, k) \<in> S \<union> U" using holds_blockD [OF assms(1,2)] by blast
  then show "lo \<le> unat p" "unat p + n \<le> hi" "hi < 2 ^ 32" "8 dvd unat p"
    using room_block [OF assms(3), of p k] by auto
qed

lemma room_alloc_if:
  assumes "heap_room lo hi U N s" and sz: "sz \<noteq> 0" "unat sz = n" and d: "n + 55 \<le> d" "d \<le> 0x10000"
  obtains p S s' where "kmalloc sz s = Some (p, s')" and "holds_block n p S" and "S \<inter> U = {}"
    and "heap_room lo hi (S \<union> U) (N - d) s'" and "same_outside lo hi (hbytes s) (hbytes s')"
    and "d \<le> N \<Longrightarrow> p \<noteq> 0" and "p \<noteq> 0 \<Longrightarrow> hbytes s' = memset p 0 sz (hbytes s)"
proof -
  have max: "sz \<le> KMALLOC_MAX_SIZE" using sz(2) d by (simp add: word_le_nat_alt)
  have nd: "need sz + 32 \<le> d" using need_bounds(2) [OF max] sz(2) d(1) by simp
  show thesis
  proof (cases rule: room_alloc [OF assms(1) sz(1) max])
    case 1
    show thesis
      by (rule that [of 0 s "{}"]) (use 1 nd in \<open>simp_all add: holds_block_def room_mono [OF assms(1)]\<close>)
  next
    case (2 p k s')
    have blk: "lo \<le> unat p" "unat p + k \<le> hi" "hi < 2 ^ 32" using room_block [OF 2(5), of p k] by simp_all
    then have "same_outside lo hi (hbytes s) (hbytes s')" unfolding 2(6) using 2(3) by (intro memset_outside) simp_all
    moreover have "heap_room lo hi (insert (p, k) U) (N - d) s'" using nd by (intro room_mono [OF 2(5)]) simp
    ultimately show thesis
      by (intro that [of p s' "{(p, k)}"]) (use 2 sz(2) in \<open>auto simp: holds_block_def\<close>)
  qed
qed

lemma room_free_if:
  assumes "heap_room lo hi U N s" and "holds_block n p S" and "S \<subseteq> U"
  obtains s' where "free_if p s = Some s'" and "heap_room lo hi (U - S) N s'" and "hbytes s' = hbytes s"
proof (cases "p = 0")
  case True
  then show thesis using that [of s] assms by (simp add: free_if_def holds_block_def)
next
  case False
  then obtain k where "S = {(p, k)}" using holds_blockD [OF assms(2)] by blast
  then show thesis using room_free [OF assms(1), of p k] assms(3) that False by (auto simp: free_if_def)
qed

section \<open>Parts of the test\<close>

text \<open>The bytes of the literals.\<close>

definition txt_hello :: "u8 list" where
  "txt_hello = [72, 101, 108, 108, 111, 44, 32, 75, 101, 114, 110, 101, 108, 32, 72, 101, 97, 112, 33]"
definition txt_small :: "u8 list" where
  "txt_small = [115, 109, 97, 108, 108]"
definition txt_expanded :: "u8 list" where
  "txt_expanded = [32, 45, 62, 32, 101, 120, 112, 97, 110, 100, 101, 100, 33]"

definition literals_in :: "nat \<Rightarrow> nat \<Rightarrow> literals \<Rightarrow> mem \<Rightarrow> bool" where
  "literals_in lo hi l m \<longleftrightarrow> literal lo hi (lit_hello l) txt_hello m \<and>
     literal lo hi (lit_small l) txt_small m \<and> literal lo hi (lit_expanded l) txt_expanded m"

lemma literals_keep: "literals_in lo hi l m \<Longrightarrow> same_outside lo hi m m' \<Longrightarrow> literals_in lo hi l m'"
  using literal_keep by (auto simp: literals_in_def)

lemma heap_test_string_ok:
  assumes "heap_room lo hi U N s" and "literals_in lo hi l (hbytes s)"
  obtains p S r s' where "heap_test_string l s = Some ((p, r), s')" and "holds_block 64 p S" and "S \<inter> U = {}"
    and "heap_room lo hi (S \<union> U) (N - 120) s'" and "literals_in lo hi l (hbytes s')"
    and "120 \<le> N \<Longrightarrow> r = [Text txt_hello]"
proof -
  obtain p S s1 where k: "kmalloc 64 s = Some (p, s1)" "holds_block 64 p S" "S \<inter> U = {}"
    "heap_room lo hi (S \<union> U) (N - 120) s1" "same_outside lo hi (hbytes s) (hbytes s1)" "120 \<le> N \<Longrightarrow> p \<noteq> 0"
    by (rule room_alloc_if [OF assms(1), of 64 64 120]) auto
  note lits = literals_keep [OF assms(2) k(5)]
  show thesis
  proof (cases "p = 0")
    case True
    moreover have "\<not> 120 \<le> N" using k(6) True by blast
    ultimately show thesis using that [OF _ k(2-4) lits] k(1) by (simp add: heap_test_string_def)
  next
    case False
    note rg = holds_range [OF k(2) False k(4)]
    have "literal lo hi (lit_hello l) txt_hello (hbytes s1)" using lits by (simp add: literals_in_def)
    from literal_strcpy [OF this rg(1) _ rg(3)] rg(2)
    have c: "strcpy p (lit_hello l) (hbytes s1) = Some (store p (txt_hello @ [0]) (hbytes s1))"
      "cstr (store p (txt_hello @ [0]) (hbytes s1)) p txt_hello"
      "same_outside lo hi (hbytes s1) (store p (txt_hello @ [0]) (hbytes s1))"
      by (simp_all add: txt_hello_def)
    let ?s = "s1\<lparr>hbytes := store p (txt_hello @ [0]) (hbytes s1)\<rparr>"
    have "heap_test_string l s = Some ((p, [Text txt_hello]), ?s)"
      using k(1) False c(1) printed_string_cstr [OF c(2)] by (simp add: heap_test_string_def)
    then show thesis using that [OF _ k(2,3)] k(4) literals_keep [OF lits c(3)] by (simp add: room_bytes)
  qed
qed

text \<open>An array of words in a block.\<close>

lemma word_addr_index: "word_addr p \<Longrightarrow> unat p + 4 * i < 2 ^ 32 \<Longrightarrow> word_addr (p + 4 * of_nat i)"
proof -
  assume a: "word_addr p" "unat p + 4 * i < 2 ^ 32"
  have "unat (p + of_nat (4 * i)) = unat p + 4 * i" using a(2) by (rule no_wrap_off)
  then show ?thesis using a(1) by (simp add: word_addr_def)
qed

lemma load_store_words:
  assumes "word_addr p" and "unat p + 4 * n \<le> 2 ^ 32" and "j < n"
  shows "load32 (fold (\<lambda>i m. store32 (p + 4 * of_nat i) (f i) m) [0..<n] m) (p + 4 * of_nat j) = f j"
  using assms(2,3)
proof (induction n)
  case (Suc n)
  have w: "word_addr (p + 4 * of_nat i)" if "i < Suc n" for i
    using word_addr_index [OF assms(1), of i] Suc.prems(1) that by simp
  have u: "unat (p + of_nat (4 * i)) = unat p + 4 * i" if "i < Suc n" for i
    using Suc.prems(1) that by (intro no_wrap_off) simp
  have "p + 4 * of_nat n \<noteq> p + 4 * of_nat j" if "j < n"
    using u [of n] u [of j] that by auto
  then show ?case
    using Suc load32_store32_other [OF w [of n] w [of j]] by (cases "j = n") simp_all
qed simp

lemma store_words_outside:
  "a \<notin> span p (4 * n) \<Longrightarrow> fold (\<lambda>i m. store32 (p + 4 * of_nat i) (f i) m) [0..<n] m a = m a"
proof (induction n)
  case (Suc n)
  have "span p (4 * Suc n) = span p (4 * n) \<union> span (p + 4 * of_nat n) 4"
    using span_add [of p "4 * n" 4] by (simp add: add.commute)
  then show ?case using Suc by (simp add: store32_outside)
qed simp

lemma heap_test_array_ok:
  assumes "heap_room lo hi U N s" and "literals_in lo hi l (hbytes s)"
  obtains p S r s' where "heap_test_array s = Some ((p, r), s')" and "holds_block 1024 p S" and "S \<inter> U = {}"
    and "heap_room lo hi (S \<union> U) (N - 1080) s'" and "literals_in lo hi l (hbytes s')"
    and "1080 \<le> N \<Longrightarrow> r = [Numbers [0, 10000, 65025]]"
proof -
  obtain p S s1 where k: "kmalloc 1024 s = Some (p, s1)" "holds_block 1024 p S" "S \<inter> U = {}"
    "heap_room lo hi (S \<union> U) (N - 1080) s1" "same_outside lo hi (hbytes s) (hbytes s1)" "1080 \<le> N \<Longrightarrow> p \<noteq> 0"
    by (rule room_alloc_if [OF assms(1), of 1024 1024 1080]) auto
  note lits = literals_keep [OF assms(2) k(5)]
  show thesis
  proof (cases "p = 0")
    case True
    moreover have "\<not> 1080 \<le> N" using k(6) True by blast
    ultimately show thesis using that [OF _ k(2-4) lits] k(1) by (simp add: heap_test_array_def)
  next
    case False
    note rg = holds_range [OF k(2) False k(4)]
    let ?m = "fill_squares p (hbytes s1)"
    have "word_addr p" using rg(4) by (auto simp: word_addr_def)
    then have ld: "load32 ?m (p + 4 * of_nat j) = of_nat j * of_nat j" if "j < 256" for j
      unfolding fill_squares_def using rg(2,3) that by (intro load_store_words) simp_all
    have out: "same_outside lo hi (hbytes s1) ?m"
      using rg store_words_outside [of _ p 256] by (intro same_outsideI [of lo p 1024]) (simp_all add: fill_squares_def)
    have "heap_test_array s = Some ((p, [Numbers [0, 10000, 65025]]), s1\<lparr>hbytes := ?m\<rparr>)"
      using k(1) False ld [of 0] ld [of 100] ld [of 255] by (simp add: heap_test_array_def Let_def)
    then show thesis using that [OF _ k(2,3)] k(4) literals_keep [OF lits out] by (simp add: room_bytes)
  qed
qed

lemma heap_test_zeroed_ok:
  assumes "heap_room lo hi U N s" and "literals_in lo hi l (hbytes s)"
  obtains p S r s' where "heap_test_zeroed s = Some ((p, r), s')" and "holds_block 128 p S" and "S \<inter> U = {}"
    and "heap_room lo hi (S \<union> U) (N - 184) s'" and "literals_in lo hi l (hbytes s')"
    and "184 \<le> N \<Longrightarrow> r = [Check True]"
proof -
  obtain p S s1 where k: "kmalloc 128 s = Some (p, s1)" "holds_block 128 p S" "S \<inter> U = {}"
    "heap_room lo hi (S \<union> U) (N - 184) s1" "same_outside lo hi (hbytes s) (hbytes s1)" "184 \<le> N \<Longrightarrow> p \<noteq> 0"
    "p \<noteq> 0 \<Longrightarrow> hbytes s1 = memset p 0 128 (hbytes s)"
    by (rule room_alloc_if [OF assms(1), of 128 128 184]) auto
  note lits = literals_keep [OF assms(2) k(5)]
  have c: "kcalloc 1 128 s = Some (p, s1)" using k(1) room_kcalloc [OF assms(1), of 1 128] by simp
  show thesis
  proof (cases "p = 0")
    case True
    moreover have "\<not> 184 \<le> N" using k(6) True by blast
    ultimately show thesis using that [OF _ k(2-4) lits] c by (simp add: heap_test_zeroed_def)
  next
    case False
    have "hbytes s1 (p + of_nat i) = 0" if "i < 128" for i
      using k(7) [OF False] off_lt [of i 128 p] that by (simp add: memset_byte)
    then have "heap_test_zeroed s = Some ((p, [Check True]), s1)" using c False by (simp add: heap_test_zeroed_def)
    then show thesis using that [OF _ k(2-4) lits] by simp
  qed
qed

text \<open>Growing a block in use: the old block goes, the bytes stay.\<close>

lemma room_realloc:
  assumes room: "heap_room lo hi U N s" and pk: "(p, k) \<in> U" and sz: "sz \<noteq> 0" "unat sz = n" and d: "n + 55 \<le> d" "d \<le> 0x10000"
  obtains (none) "krealloc p sz s = Some (0, s)" and "N < d"
  | (block) q j s' where "krealloc p sz s = Some (q, s')" and "q \<noteq> 0" and "n \<le> j"
      and "(q, j) \<notin> U - {(p, k)}" and "heap_room lo hi (insert (q, j) (U - {(p, k)})) (N - d) s'"
      and "\<And>i. i < k \<Longrightarrow> hbytes s' (q + of_nat i) = hbytes s (p + of_nat i)"
      and "same_outside lo hi (hbytes s) (hbytes s')"
proof -
  obtain bs where bs: "heap_inv lo hi s bs" "U = payload ` used_blocks bs"
    using room by (auto simp: heap_room_def)
  then obtain b m where b: "(b, m) \<in> used_blocks bs" "p = b + 16" "k = m - 16" using pk by auto
  note u = used_header [OF bs(1) b(1)]
  note rg = room_block [OF room pk]
  have p0: "p \<noteq> 0" using u(3) b(2) by simp
  have hd: "hsize (hdr s (p - 16)) - 16 = of_nat m - 16" using u(1) b(2) by simp
  have old: "sz \<le> of_nat m - 16 \<longleftrightarrow> n \<le> k" using u(2) b(3) sz(2) by (simp add: word_le_nat_alt)
  show thesis
  proof (cases "n \<le> k")
    case True
    then have "krealloc p sz s = Some (p, s)" using p0 sz(1) hd old by (simp add: krealloc_def)
    moreover have "insert (p, k) (U - {(p, k)}) = U" using pk by auto
    ultimately show thesis using block [of p s k] p0 True room_mono [OF room, of "N - d"] by simp
  next
    case big: False
    obtain q S s1 where k: "kmalloc sz s = Some (q, s1)" "holds_block n q S" "S \<inter> U = {}"
      "heap_room lo hi (S \<union> U) (N - d) s1" "same_outside lo hi (hbytes s) (hbytes s1)" "d \<le> N \<Longrightarrow> q \<noteq> 0"
      "q \<noteq> 0 \<Longrightarrow> hbytes s1 = memset q 0 sz (hbytes s)"
      by (rule room_alloc_if [OF room sz d]) blast
    show thesis
    proof (cases "q = 0")
      case True
      then have "s1 = s" using k(1) kh.alloc_null [OF room_ok [OF room]] by blast
      then have "krealloc p sz s = Some (0, s)" using k(1) True p0 sz(1) hd old big by (simp add: krealloc_def)
      moreover have "N < d" using k(6) True by (meson not_le)
      ultimately show thesis using none by blast
    next
      case False
      then obtain j where j: "n \<le> j" "S = {(q, j)}" using holds_blockD [OF k(2)] by blast
      let ?m = "memcpy q p (of_nat m - 16) (hbytes s1)"
      have room1: "heap_room lo hi (insert (q, j) U) (N - d) (s1\<lparr>hbytes := ?m\<rparr>)"
        using k(4) j(2) by (simp add: room_bytes)
      obtain s' where f: "kfree p (s1\<lparr>hbytes := ?m\<rparr>) = Some s'"
        "heap_room lo hi (insert (q, j) U - {(p, k)}) (N - d) s'" "hbytes s' = ?m"
        by (rule room_free [OF room1 insertI2 [OF pk]]) auto
      have r: "krealloc p sz s = Some (q, s')"
        using k(1) False p0 sz(1) hd old big f(1) by (simp add: krealloc_def)
      note qr = holds_range [OF k(2) False k(4)]
      have apart: "unat q + j \<le> unat p \<or> unat p + k \<le> unat q"
        using kh.blocks_apart [OF room_ok [OF k(4)], of q j p k] pk k(3) j(2) by auto
      have fit: "unat (of_nat m - 16 :: u32) = k" using u(2) b(3) by simp
      have cp: "?m a = (if a - q < of_nat m - 16 then hbytes s1 (p + (a - q)) else hbytes s1 a)" for a
        using qr rg apart big j(1) fit by (intro memcpy_byte) (auto simp: word_less_nat_alt)
      have bytes: "hbytes s' (q + of_nat i) = hbytes s (p + of_nat i)" if i: "i < k" for i
      proof -
        have ui: "unat (of_nat i :: u32) = i" using i rg(2,3) by (intro unat_of_nat_small) simp
        have "p + of_nat i \<in> span p k" using i by (auto simp: span_def)
        then have "p + of_nat i \<notin> span q n"
          using span_disjoint [of p k q n] apart j(1) qr(2,3) rg(2,3) by auto
        then have "\<not> p + of_nat i - q < sz"
          using span_iff [of n "p + of_nat i" q] qr(2,3) sz(2) by (simp add: word_less_nat_alt)
        then have "hbytes s1 (p + of_nat i) = hbytes s (p + of_nat i)" using k(7) [OF False] by (simp add: memset_byte)
        moreover have "q + of_nat i - q < of_nat m - 16" using i fit ui by (simp add: word_less_nat_alt)
        ultimately show ?thesis using f(3) cp [of "q + of_nat i"] by simp
      qed
      have "same_outside lo hi (hbytes s1) ?m"
      proof (rule same_outsideI [of lo q k])
        fix a assume "a \<notin> span q k"
        then have "\<not> a - q < of_nat m - 16"
          using span_iff [of k a q] fit rg(2,3) by (simp add: word_less_nat_alt)
        then show "?m a = hbytes s1 a" by (simp only: cp if_False)
      qed (use qr big in auto)
      then have out: "same_outside lo hi (hbytes s) (hbytes s')"
        using same_outside_trans [OF k(5)] f(3) by simp
      have "insert (q, j) U - {(p, k)} = insert (q, j) (U - {(p, k)})" using big j(1) by auto
      then have "heap_room lo hi (insert (q, j) (U - {(p, k)})) (N - d) s'" using f(2) by simp
      moreover have "(q, j) \<notin> U" using k(3) j(2) by simp
      ultimately show thesis using block [OF r False j(1)] bytes out by blast
    qed
  qed
qed

lemma heap_test_grow_ok:
  assumes "heap_room lo hi U N s" and "literals_in lo hi l (hbytes s)"
  obtains r s' where "heap_test_grow l s = Some (r, s')" and "heap_room lo hi U (N - 200) s'"
    and "literals_in lo hi l (hbytes s')"
    and "200 \<le> N \<Longrightarrow> r = [Text txt_small, Text txt_small, Text (txt_small @ txt_expanded)]"
proof -
  obtain p S s1 where k: "kmalloc 16 s = Some (p, s1)" "holds_block 16 p S" "S \<inter> U = {}"
    "heap_room lo hi (S \<union> U) (N - 71) s1" "same_outside lo hi (hbytes s) (hbytes s1)" "71 \<le> N \<Longrightarrow> p \<noteq> 0"
    by (rule room_alloc_if [OF assms(1), of 16 16 71]) auto
  note lits1 = literals_keep [OF assms(2) k(5)]
  show thesis
  proof (cases "p = 0")
    case True
    moreover have "\<not> 200 \<le> N" using k(6) True by auto
    moreover have "heap_room lo hi U (N - 200) s1" using k(2,4) True room_mono [of lo hi U "N - 71" s1 "N - 200"]
      by (simp add: holds_block_def)
    ultimately show thesis using that [OF _ _ lits1] k(1) by (simp add: heap_test_grow_def)
  next
    case False
    obtain i where i: "16 \<le> i" "S = {(p, i)}" using holds_blockD [OF k(2) False] by blast
    note rg = holds_range [OF k(2) False k(4)]
    let ?m = "store p (txt_small @ [0]) (hbytes s1)"
    have "literal lo hi (lit_small l) txt_small (hbytes s1)" using lits1 by (simp add: literals_in_def)
    from literal_strcpy [OF this rg(1) _ rg(3)] rg(2)
    have c: "strcpy p (lit_small l) (hbytes s1) = Some ?m" "cstr ?m p txt_small" "same_outside lo hi (hbytes s1) ?m"
      by (simp_all add: txt_small_def)
    let ?s1 = "s1\<lparr>hbytes := ?m\<rparr>"
    have room1: "heap_room lo hi (insert (p, i) U) (N - 71) ?s1" using k(4) i(2) by (simp add: room_bytes)
    have lits2: "literals_in lo hi l (hbytes ?s1)" using literals_keep [OF lits1 c(3)] by simp
    have U: "insert (p, i) U - {(p, i)} = U" using k(3) i(2) by auto
    have sz: "(64 :: u32) \<noteq> 0" "unat (64 :: u32) = 64" "64 + 55 \<le> (119 :: nat)" "119 \<le> (0x10000 :: nat)" by simp_all
    show thesis
    proof (cases rule: room_realloc [OF room1 insertI1 sz])
      case 1
      obtain s2 where f: "kfree p ?s1 = Some s2" "heap_room lo hi U (N - 71) s2" "hbytes s2 = hbytes ?s1"
        by (rule room_free [OF room1 insertI1]) (use U in auto)
      have "heap_test_grow l s = Some ([Text txt_small, Error ''krealloc failed''], s2)"
        using k(1) False c(1) printed_string_cstr [OF c(2)] 1(1) f(1) by (simp add: heap_test_grow_def)
      then show thesis using that [OF _ room_mono [OF f(2)]] 1(2) f(3) lits2 by simp
    next
      case (2 q j s2)
      have room2: "heap_room lo hi (insert (q, j) U) (N - 71 - 119) s2" using 2(5) U by simp
      note rq = room_block [OF room2 insertI1]
      have q: "cstr (hbytes s2) q txt_small" using 2(6) [of 0] 2(6) [of 1] 2(6) [of 2] 2(6) [of 3] 2(6) [of 4] 2(6) [of 5]
        i(1) c(2) by (simp add: txt_small_def add.assoc)
      have lits3: "literals_in lo hi l (hbytes s2)" by (rule literals_keep [OF lits2 2(7)])
      then have "literal lo hi (lit_expanded l) txt_expanded (hbytes s2)" by (simp add: literals_in_def)
      then obtain m3 where m3: "strcat q (lit_expanded l) (hbytes s2) = Some m3" "cstr m3 q (txt_small @ txt_expanded)"
        "same_outside lo hi (hbytes s2) m3"
        by (rule literal_strcat [OF _ q rq(1) _ rq(3)]) (use rq(2) 2(3) in \<open>simp_all add: txt_small_def txt_expanded_def\<close>)
      have room3: "heap_room lo hi (insert (q, j) U) (N - 71 - 119) (s2\<lparr>hbytes := m3\<rparr>)" using room2 by (simp add: room_bytes)
      have "(q, j) \<notin> U" using 2(4) U by simp
      then have U3: "insert (q, j) U - {(q, j)} = U" by auto
      obtain s3 where f: "kfree q (s2\<lparr>hbytes := m3\<rparr>) = Some s3" "heap_room lo hi U (N - 71 - 119) s3" "hbytes s3 = m3"
        by (rule room_free [OF room3 insertI1]) (use U3 in auto)
      have "heap_test_grow l s = Some ([Text txt_small, Text txt_small, Text (txt_small @ txt_expanded)], s3)"
        using k(1) False c(1) printed_string_cstr [OF c(2)] 2(1,2) printed_string_cstr [OF q] m3(1) printed_string_cstr [OF m3(2)] f(1)
        by (simp add: heap_test_grow_def)
      then show thesis using that [OF _ room_mono [OF f(2)]] f(3) literals_keep [OF lits3 m3(3)] by simp
    qed
  qed
qed

lemma stress_alloc_ok:
  "heap_room lo hi U N s \<Longrightarrow> i + n \<le> 50 \<Longrightarrow>
   \<exists>bl r s'. stress_alloc i n s = Some ((map fst bl, r), s') \<and> distinct bl \<and> set bl \<inter> U = {} \<and>
     heap_room lo hi (set bl \<union> U) 0 s' \<and> same_outside lo hi (hbytes s) (hbytes s') \<and>
     (n * 600 \<le> N \<longrightarrow> r = [] \<and> length bl = n)"
proof (induction n arbitrary: i U N s)
  case 0
  then show ?case by (intro exI [of _ "[]"]) (auto intro: room_mono)
next
  case (Suc n)
  let ?sz = "128 + of_nat i * 8 :: u32"
  have "unat ((of_nat (128 + i * 8)) :: u32) = 128 + i * 8" using Suc.prems(2) by (intro unat_of_nat_small) simp
  then have u: "unat ?sz = 128 + i * 8" by simp
  then have sz0: "?sz \<noteq> 0" by (metis add_is_0 unat_0 zero_neq_numeral)
  have d: "128 + i * 8 + 55 \<le> 600" "600 \<le> (0x10000 :: nat)" using Suc.prems(2) by simp_all
  obtain p S s1 where k: "kmalloc ?sz s = Some (p, s1)" "holds_block (128 + i * 8) p S" "S \<inter> U = {}"
    "heap_room lo hi (S \<union> U) (N - 600) s1" "same_outside lo hi (hbytes s) (hbytes s1)" "600 \<le> N \<Longrightarrow> p \<noteq> 0"
    by (rule room_alloc_if [OF Suc.prems(1) sz0 u d]) blast
  show ?case
  proof (cases "p = 0")
    case True
    then have "\<not> Suc n * 600 \<le> N" using k(6) by auto
    moreover have "heap_room lo hi U 0 s1" using k(2,4) True by (auto simp: holds_block_def intro: room_mono)
    ultimately show ?thesis using k(1,5) True
      by (intro exI [of _ "[]"] exI [of _ "[Error ''Allocation failed'', Numbers [of_nat i]]"] exI [of _ s1]) simp
  next
    case False
    then obtain j where j: "S = {(p, j)}" using holds_blockD [OF k(2)] by blast
    have le: "Suc i + n \<le> 50" using Suc.prems(2) by simp
    obtain bl r s' where r: "stress_alloc (Suc i) n s1 = Some ((map fst bl, r), s')" "distinct bl"
      "set bl \<inter> (S \<union> U) = {}" "heap_room lo hi (set bl \<union> (S \<union> U)) 0 s'" "same_outside lo hi (hbytes s1) (hbytes s')"
      "n * 600 \<le> N - 600 \<longrightarrow> r = [] \<and> length bl = n"
      using Suc.IH [OF k(4) le] by blast
    have "set ((p, j) # bl) \<union> U = set bl \<union> (S \<union> U)" using j by auto
    then show ?thesis using k(1,3) False r(1-4) j same_outside_trans [OF k(5) r(5)] r(6)
      by (intro exI [of _ "(p, j) # bl"] exI [of _ r] exI [of _ s']) auto
  qed
qed

lemma free_all_ok:
  "heap_room lo hi (set bl \<union> U) N s \<Longrightarrow> distinct bl \<Longrightarrow> set bl \<inter> U = {} \<Longrightarrow>
   \<exists>s'. free_all (map fst bl) s = Some s' \<and> heap_room lo hi U N s' \<and> hbytes s' = hbytes s"
proof (induction bl arbitrary: s)
  case (Cons x bl)
  obtain p k where x: "x = (p, k)" by (cases x)
  obtain s1 where f: "kfree p s = Some s1" "heap_room lo hi (set (x # bl) \<union> U - {(p, k)}) N s1" "hbytes s1 = hbytes s"
    using room_free [OF Cons.prems(1), of p k] x by auto
  have "set (x # bl) \<union> U - {(p, k)} = set bl \<union> U" using Cons.prems(2,3) x by auto
  then obtain s' where "free_all (map fst bl) s1 = Some s'" "heap_room lo hi U N s'" "hbytes s' = hbytes s1"
    using Cons.IH [of s1] f(2) Cons.prems(2,3) by auto
  then show ?case using f(1,3) x by simp
qed simp

lemma heap_test_stress_ok:
  assumes "heap_room lo hi U N s"
  obtains r s' where "heap_test_stress s = Some (r, s')" and "heap_room lo hi U 0 s'"
    and "same_outside lo hi (hbytes s) (hbytes s')" and "30000 \<le> N \<Longrightarrow> r = [Numbers [50]]"
proof -
  obtain bl r s1 where a: "stress_alloc 0 50 s = Some ((map fst bl, r), s1)" "distinct bl" "set bl \<inter> U = {}"
    "heap_room lo hi (set bl \<union> U) 0 s1" "same_outside lo hi (hbytes s) (hbytes s1)"
    "50 * 600 \<le> N \<longrightarrow> r = [] \<and> length bl = 50"
    using stress_alloc_ok [OF assms, of 0 50] by auto
  obtain s2 where f: "free_all (map fst bl) s1 = Some s2" "heap_room lo hi U 0 s2" "hbytes s2 = hbytes s1"
    using free_all_ok [OF a(4,2,3)] by blast
  obtain c e where "kmalloc_stats s1 = Some (c, e, s1)" using room_stats [OF a(4)] by blast
  then have "heap_test_stress s = Some (r @ [Numbers [of_nat (length bl)]], s2)"
    using a(1) f(1) by (simp add: heap_test_stress_def)
  then show thesis using that f(2,3) a(5,6) by simp
qed

section \<open>The whole test\<close>

definition heap_test_report :: "report list" where
  "heap_test_report = [Text txt_hello, Numbers [0, 10000, 65025], Check True, Text txt_small, Text txt_small,
     Text (txt_small @ txt_expanded), Numbers [50]]"

lemma test_kmalloc_ok:
  assumes "heap_room lo hi U N s" and "literals_in lo hi l (hbytes s)"
  obtains r s' where "test_kmalloc l s = Some (r, s')" and "heap_room lo hi U 0 s'"
    and "literals_in lo hi l (hbytes s')" and "0x8000 \<le> N \<Longrightarrow> r = heap_test_report"
proof -
  obtain p1 S1 r1 s1 where 1: "heap_test_string l s = Some ((p1, r1), s1)" "holds_block 64 p1 S1" "S1 \<inter> U = {}"
    "heap_room lo hi (S1 \<union> U) (N - 120) s1" "literals_in lo hi l (hbytes s1)" "120 \<le> N \<Longrightarrow> r1 = [Text txt_hello]"
    by (rule heap_test_string_ok [OF assms]) blast
  obtain p2 S2 r2 s2 where 2: "heap_test_array s1 = Some ((p2, r2), s2)" "holds_block 1024 p2 S2" "S2 \<inter> (S1 \<union> U) = {}"
    "heap_room lo hi (S2 \<union> (S1 \<union> U)) (N - 120 - 1080) s2" "literals_in lo hi l (hbytes s2)"
    "1080 \<le> N - 120 \<Longrightarrow> r2 = [Numbers [0, 10000, 65025]]"
    by (rule heap_test_array_ok [OF 1(4,5)]) blast
  obtain p3 S3 r3 s3 where 3: "heap_test_zeroed s2 = Some ((p3, r3), s3)" "holds_block 128 p3 S3" "S3 \<inter> (S2 \<union> (S1 \<union> U)) = {}"
    "heap_room lo hi (S3 \<union> (S2 \<union> (S1 \<union> U))) (N - 120 - 1080 - 184) s3" "literals_in lo hi l (hbytes s3)"
    "184 \<le> N - 120 - 1080 \<Longrightarrow> r3 = [Check True]"
    by (rule heap_test_zeroed_ok [OF 2(4,5)]) blast
  let ?W = "S3 \<union> (S2 \<union> (S1 \<union> U))" and ?N = "N - 120 - 1080 - 184 - 200"
  obtain r4 s4 where 4: "heap_test_grow l s3 = Some (r4, s4)" "heap_room lo hi ?W ?N s4" "literals_in lo hi l (hbytes s4)"
    "200 \<le> N - 120 - 1080 - 184 \<Longrightarrow> r4 = [Text txt_small, Text txt_small, Text (txt_small @ txt_expanded)]"
    by (rule heap_test_grow_ok [OF 3(4,5)]) blast
  obtain t1 where 5: "free_if p1 s4 = Some t1" "heap_room lo hi (?W - S1) ?N t1" "hbytes t1 = hbytes s4"
    by (rule room_free_if [OF 4(2) 1(2)]) auto
  obtain t2 where 6: "free_if p2 t1 = Some t2" "heap_room lo hi (?W - S1 - S2) ?N t2" "hbytes t2 = hbytes t1"
    by (rule room_free_if [OF 5(2) 2(2)]) (use 2(3) in auto)
  obtain t3 where 7: "free_if p3 t2 = Some t3" "heap_room lo hi (?W - S1 - S2 - S3) ?N t3" "hbytes t3 = hbytes t2"
    by (rule room_free_if [OF 6(2) 3(2)]) (use 3(3) in auto)
  have "?W - S1 - S2 - S3 = U" using 1(3) 2(3) 3(3) by blast
  then have room: "heap_room lo hi U ?N t3" using 7(2) by simp
  obtain r5 s5 where 8: "heap_test_stress t3 = Some (r5, s5)" "heap_room lo hi U 0 s5"
    "same_outside lo hi (hbytes t3) (hbytes s5)" "30000 \<le> ?N \<Longrightarrow> r5 = [Numbers [50]]"
    by (rule heap_test_stress_ok [OF room]) blast
  have lits: "literals_in lo hi l (hbytes s5)"
    using literals_keep [OF 4(3), of "hbytes s5"] 8(3) 5(3) 6(3) 7(3) by simp
  note stats = room_stats [OF assms(1)] room_stats [OF 2(4)] room_stats [OF 4(2)] room_stats [OF room] room_stats [OF 8(2)]
  have "test_kmalloc l s = Some (r1 @ r2 @ r3 @ r4 @ r5, s5)"
    using stats 1(1) 2(1) 3(1) 4(1) 5(1) 6(1) 7(1) 8(1) by (auto simp: test_kmalloc_def)
  then show thesis
    using that [OF _ 8(2) lits] 1(6) 2(6) 3(6) 4(4) 8(4) by (simp add: heap_test_report_def)
qed

section \<open>A concrete heap\<close>

definition demo_literals :: literals where
  "demo_literals = \<lparr>lit_hello = 0x1000, lit_small = 0x1100, lit_expanded = 0x1200\<rparr>"

definition demo_bytes :: mem where
  "demo_bytes = store 0x1000 (txt_hello @ [0]) (store 0x1100 (txt_small @ [0]) (store 0x1200 (txt_expanded @ [0]) (\<lambda>_. 0)))"

definition demo_heap :: heap_manager where
  "demo_heap = heap_bss\<lparr>h_head := 0x02000000,
     hdr := (\<lambda>_. \<lparr>hsize = 0x100000, is_free = 1, hnext = 0, hprev = 0\<rparr>), hbytes := demo_bytes\<rparr>"

lemma demo_heap_inv: "heap_inv 0x02000000 0x02100000 demo_heap [(0x02000000, 0x100000, True)]"
  by (simp add: heap_inv_def demo_heap_def heap_bss_def)

lemma demo_literals_in: "0x10000 \<le> lo \<Longrightarrow> literals_in lo hi demo_literals demo_bytes"
proof -
  assume lo: "0x10000 \<le> lo"
  have len: "length txt_hello = 19" "length txt_small = 5" "length txt_expanded = 13"
    by (simp_all add: txt_hello_def txt_small_def txt_expanded_def)
  have keep: "cstr (store p (xs @ [0]) m) q ys = cstr m q ys"
    if "unat p + length xs < unat q \<or> unat q + length ys < unat p" "unat p + length xs < 0x10000" "unat q + length ys < 0x10000"
    for p q m and xs ys :: "u8 list"
    using that by (intro cstr_store span_disjoint) auto
  have at: "cstr (store p (txt_expanded @ [0]) m) p txt_expanded" "cstr (store p (txt_small @ [0]) m) p txt_small"
    "cstr (store p (txt_hello @ [0]) m) p txt_hello" for p m
    by (rule cstr_stored; simp add: txt_expanded_def txt_small_def txt_hello_def)+
  have "cstr demo_bytes 0x1000 txt_hello" "cstr demo_bytes 0x1100 txt_small" "cstr demo_bytes 0x1200 txt_expanded"
    by (simp_all add: demo_bytes_def keep at len del: store.simps)
  moreover have out: "\<forall>a\<in>span p n. unat a < lo \<or> hi \<le> unat a" if "unat p + n < 0x10000" for p n
    using span_unat [of p n] that lo by fastforce
  ultimately show ?thesis using out [of "0x1000" 20] out [of "0x1100" 6] out [of "0x1200" 14]
    by (simp add: literals_in_def literal_def demo_literals_def len)
qed

section \<open>Properties\<close>

theorem test_kmalloc_restores:
  assumes "heap_inv lo hi s bs" and "literals_in lo hi l (hbytes s)"
  shows "\<exists>r s'. test_kmalloc l s = Some (r, s') \<and> heap_inv lo hi s' bs \<and>
    ((\<exists>(b, n, f)\<in>set bs. f \<and> 0x8000 \<le> n) \<longrightarrow> r = heap_test_report)"
proof -
  define N :: nat where "N = (if \<exists>(b, n, f)\<in>set bs. f \<and> 0x8000 \<le> n then 0x8000 else 0)"
  have "0 < N \<longrightarrow> (\<exists>b n. (b, n, True) \<in> set bs \<and> N \<le> n)"
  proof
    assume "0 < N"
    then have N: "\<exists>(b, n, f)\<in>set bs. f \<and> 0x8000 \<le> n" "N = 0x8000" by (simp_all add: N_def split: if_splits)
    then obtain b n f where "(b, n, f) \<in> set bs" f "0x8000 \<le> n" by auto
    then show "\<exists>b n. (b, n, True) \<in> set bs \<and> N \<le> n" using N(2) by (cases f) auto
  qed
  then have "heap_room lo hi (payload ` used_blocks bs) N s" using assms(1) unfolding heap_room_def by blast
  then obtain r s' where r: "test_kmalloc l s = Some (r, s')" "heap_room lo hi (payload ` used_blocks bs) 0 s'"
    "0x8000 \<le> N \<Longrightarrow> r = heap_test_report"
    by (rule test_kmalloc_ok [OF _ assms(2)]) blast
  have "heap_inv lo hi s' bs" by (rule heap_ok_same_blocks [OF assms(1) room_ok [OF r(2)]])
  then show ?thesis using r(1,3) by (auto simp: N_def)
qed

theorem test_kmalloc_restores_witness:
  "\<exists>s'. test_kmalloc demo_literals demo_heap = Some (heap_test_report, s') \<and>
     heap_inv 0x02000000 0x02100000 s' [(0x02000000, 0x100000, True)]"
proof -
  have "literals_in 0x02000000 0x02100000 demo_literals (hbytes demo_heap)"
    using demo_literals_in by (simp add: demo_heap_def)
  from test_kmalloc_restores [OF demo_heap_inv this] show ?thesis by simp
qed

end
