(* ===== verification/MemTests.thy ===== *)
theory MemTests
  imports HeapTests Vmm
begin

text \<open>
  The other memory self tests of \<open>kernel/mm/test_mm.c\<close> - the page allocator, the temporary mappings,
  all parts together - and \<open>run_all_memory_tests\<close>. Pages are reached through their windows; local
  arrays that the C code does not initialise are parameters.
\<close>

section \<open>The page allocator\<close>

definition test_buddy_system :: "buddy_system \<Rightarrow> (report list \<times> buddy_system) option" where
  "test_buddy_system s = do {
     (_, s) \<leftarrow> pmm_stats s;
     (block1, s) \<leftarrow> pmm_alloc_pages 0 s;
     (block2, s) \<leftarrow> pmm_alloc_pages 2 s;
     (block3, s) \<leftarrow> pmm_alloc_pages 4 s;
     if block1 = 0 \<or> block2 = 0 \<or> block3 = 0 then Some ([Error ''Allocation failed''], s)
     else do {
       (_, s) \<leftarrow> pmm_stats s;
       s \<leftarrow> pmm_free_pages block2 2 s;
       s \<leftarrow> pmm_free_pages block1 0 s;
       (_, s) \<leftarrow> pmm_stats s;
       (block4, s) \<leftarrow> pmm_alloc_pages 5 s;
       let r = (if block4 \<noteq> 0 then [Numbers [block4]] else [Error ''Large allocation failed'']);
       (_, s) \<leftarrow> pmm_stats s;
       s \<leftarrow> (if block3 \<noteq> 0 then pmm_free_pages block3 4 s else Some s);
       s \<leftarrow> (if block4 \<noteq> 0 then pmm_free_pages block4 5 s else Some s);
       (_, s) \<leftarrow> pmm_stats s;
       Some (r, s)
     }
   }"

section \<open>Bytes and words of mapped pages\<close>

definition kread8 :: "u32 \<Rightarrow> vm_state \<Rightarrow> u8 option" where
  "kread8 va s = vread8 (cr3 s) va (pmem s)"

definition kwrite8 :: "u32 \<Rightarrow> u8 \<Rightarrow> vm_state \<Rightarrow> vm_state option" where
  "kwrite8 va v s = do { m \<leftarrow> vwrite8 (cr3 s) va v (pmem s); Some (s\<lparr>pmem := m\<rparr>) }"

text \<open>Loops that fill a buffer with given bytes or words from its start.\<close>

fun kwrite_bytes :: "u32 \<Rightarrow> u8 list \<Rightarrow> vm_state \<Rightarrow> vm_state option" where
  "kwrite_bytes va [] s = Some s"
| "kwrite_bytes va (b # bs) s = do { s \<leftarrow> kwrite8 va b s; kwrite_bytes (va + 1) bs s }"

fun kwrite_words :: "u32 \<Rightarrow> u32 list \<Rightarrow> vm_state \<Rightarrow> vm_state option" where
  "kwrite_words va [] s = Some s"
| "kwrite_words va (w # ws) s = do { s \<leftarrow> kwrite va w s; kwrite_words (va + 4) ws s }"

text \<open>What \<open>%s\<close> prints of a mapped string.\<close>

partial_function (option) kread_string :: "u32 \<Rightarrow> vm_state \<Rightarrow> u8 list option" where
  "kread_string va s = do {
     c \<leftarrow> kread8 va s;
     if c = 0 then Some [] else do { xs \<leftarrow> kread_string (va + 1) s; Some (c # xs) }
   }"

section \<open>The temporary mappings\<close>

text \<open>Test 1: one page. The flag says whether the function goes on.\<close>

definition test_letters :: "u8 list" where
  "test_letters = map (\<lambda>i. 65 + of_nat (i mod 26)) [0..<100]"

definition temp_test_basic :: "vm_state \<Rightarrow> ((bool \<times> report list) \<times> vm_state) option" where
  "temp_test_basic s = do {
     (phys_page, s) \<leftarrow> alloc_page s;
     if phys_page = 0 then Some ((False, [Error ''Failed to allocate physical page'']), s)
     else do {
       (virt_page, s) \<leftarrow> temp_map_page phys_page s;
       if virt_page = 0 then do {
         s \<leftarrow> free_page phys_page s;
         Some ((False, [Error ''Failed to create temporary mapping'']), s)
       }
       else do {
         s \<leftarrow> kwrite_bytes virt_page test_letters s;
         s \<leftarrow> kwrite8 (virt_page + 100) 0 s;
         t1 \<leftarrow> kread_string virt_page s;
         t2 \<leftarrow> kread_string virt_page s;
         s \<leftarrow> temp_unmap_page virt_page s;
         s \<leftarrow> free_page phys_page s;
         Some ((True, [Text t1, Text t2]), s)
       }
     }
   }"

text \<open>
  Test 2: the loop that maps \<open>n\<close> pages from number \<open>i\<close> on; the report is empty when it ran to its end,
  otherwise it jumped to \<open>cleanup\<close>. The arrays \<open>phys_pages\<close> and \<open>virt_pages\<close> start with what the stack
  holds.
\<close>

fun map_pages :: "nat \<Rightarrow> nat \<Rightarrow> (nat \<Rightarrow> u32) \<Rightarrow> (nat \<Rightarrow> u32) \<Rightarrow> vm_state \<Rightarrow>
    ((report list \<times> (nat \<Rightarrow> u32) \<times> (nat \<Rightarrow> u32)) \<times> vm_state) option" where
  "map_pages i 0 phys_pages virt_pages s = Some (([], phys_pages, virt_pages), s)"
| "map_pages i (Suc n) phys_pages virt_pages s = do {
     (p, s) \<leftarrow> alloc_page s;
     let phys_pages = phys_pages(i := p);
     if p = 0 then Some (([Error ''Failed to allocate page'', Numbers [of_nat i]], phys_pages, virt_pages), s)
     else do {
       (v, s) \<leftarrow> temp_map_page p s;
       let virt_pages = virt_pages(i := v);
       if v = 0 then Some (([Error ''Failed to map page'', Numbers [of_nat i]], phys_pages, virt_pages), s)
       else do {
         s \<leftarrow> kwrite_words v (map (\<lambda>j. of_nat i * 100 + of_nat j) [0..<10]) s;
         map_pages (Suc i) n phys_pages virt_pages s
       }
     }
   }"

fun read_pages :: "nat \<Rightarrow> nat \<Rightarrow> (nat \<Rightarrow> u32) \<Rightarrow> vm_state \<Rightarrow> report list option" where
  "read_pages i 0 virt_pages s = Some []"
| "read_pages i (Suc n) virt_pages s = do {
     x \<leftarrow> kread (virt_pages i + 4 * of_nat 0) s;
     y \<leftarrow> kread (virt_pages i + 4 * of_nat 5) s;
     z \<leftarrow> kread (virt_pages i + 4 * of_nat 9) s;
     r \<leftarrow> read_pages (Suc i) n virt_pages s;
     Some (Numbers [x, y, z] # r)
   }"

fun cleanup_pages :: "nat \<Rightarrow> nat \<Rightarrow> (nat \<Rightarrow> u32) \<Rightarrow> (nat \<Rightarrow> u32) \<Rightarrow> vm_state \<Rightarrow> vm_state option" where
  "cleanup_pages i 0 phys_pages virt_pages s = Some s"
| "cleanup_pages i (Suc n) phys_pages virt_pages s = do {
     s \<leftarrow> (if virt_pages i \<noteq> 0 then temp_unmap_page (virt_pages i) s else Some s);
     s \<leftarrow> (if phys_pages i \<noteq> 0 then free_page (phys_pages i) s else Some s);
     cleanup_pages (Suc i) n phys_pages virt_pages s
   }"

definition test_temp_mapping :: "(nat \<Rightarrow> u32) \<Rightarrow> (nat \<Rightarrow> u32) \<Rightarrow> vm_state \<Rightarrow> (report list \<times> vm_state) option" where
  "test_temp_mapping phys_pages virt_pages s = do {
     ((more, r1), s) \<leftarrow> temp_test_basic s;
     if \<not> more then Some (r1, s)
     else do {
       ((r2, phys_pages, virt_pages), s) \<leftarrow> map_pages 0 3 phys_pages virt_pages s;
       r3 \<leftarrow> (if r2 = [] then read_pages 0 3 virt_pages s else Some []);
       s \<leftarrow> cleanup_pages 0 3 phys_pages virt_pages s;
       Some (r1 @ r2 @ r3, s)
     }
   }"

section \<open>All parts together\<close>

text \<open>
  \<open>struct test_struct\<close> has 40 bytes: \<open>id\<close> at 0, \<open>name\<close> at 4, \<open>value\<close> at 36, here as the bits of the
  single-precision \<open>3.14159f\<close>. The literal \<open>Integration Test\<close> is copied with its NUL byte.
\<close>

definition txt_integration :: "u8 list" where
  "txt_integration = [73, 110, 116, 101, 103, 114, 97, 116, 105, 111, 110, 32, 84, 101, 115, 116]"

definition value_bits :: u32 where "value_bits = 0x40490FD0"

text \<open>\<open>memcpy\<close> from a mapped page to the heap.\<close>

fun copy_to_heap :: "u32 \<Rightarrow> u32 \<Rightarrow> nat \<Rightarrow> vm_state \<Rightarrow> mem \<Rightarrow> mem option" where
  "copy_to_heap dest src 0 v m = Some m"
| "copy_to_heap dest src (Suc n) v m = do {
     c \<leftarrow> kread8 src v;
     copy_to_heap (dest + 1) (src + 1) n v (m(dest := c))
   }"

definition test_integration :: "vm_state \<times> heap_manager \<Rightarrow> (report list \<times> vm_state \<times> heap_manager) option" where
  "test_integration vh = do {
     let (v, h) = vh;
     (phys_page, v) \<leftarrow> alloc_page v;
     if phys_page = 0 then Some ([Error ''Buddy allocation failed''], v, h)
     else do {
       (temp_virt, v) \<leftarrow> temp_map_page phys_page v;
       if temp_virt = 0 then do {
         v \<leftarrow> free_page phys_page v;
         Some ([Error ''Temporary mapping failed''], v, h)
       }
       else do {
         v \<leftarrow> kwrite temp_virt 42 v;
         v \<leftarrow> kwrite_bytes (temp_virt + 4) (txt_integration @ [0]) v;
         v \<leftarrow> kwrite (temp_virt + 36) value_bits v;
         i \<leftarrow> kread temp_virt v;
         t \<leftarrow> kread_string (temp_virt + 4) v;
         x \<leftarrow> kread (temp_virt + 36) v;
         let r1 = [Numbers [i], Text t, Numbers [x]];
         (heap_copy, h) \<leftarrow> kmalloc 40 h;
         (r2, h) \<leftarrow> (if heap_copy \<noteq> 0 then do {
                      m \<leftarrow> copy_to_heap heap_copy temp_virt 40 v (hbytes h);
                      t \<leftarrow> printed_string (heap_copy + 4) m;
                      let r2 = [Numbers [load32 m heap_copy], Text t, Numbers [load32 m (heap_copy + 36)]];
                      h \<leftarrow> kfree heap_copy (h\<lparr>hbytes := m\<rparr>);
                      Some (r2, h)
                    } else Some ([], h));
         v \<leftarrow> temp_unmap_page temp_virt v;
         v \<leftarrow> free_page phys_page v;
         Some (r1 @ r2, v, h)
       }
     }
   }"

definition run_all_memory_tests ::
  "(nat \<Rightarrow> u32) \<Rightarrow> (nat \<Rightarrow> u32) \<Rightarrow> literals \<Rightarrow> vm_state \<times> heap_manager \<Rightarrow> (report list \<times> vm_state \<times> heap_manager) option" where
  "run_all_memory_tests phys_pages virt_pages l vh = do {
     let (v, h) = vh;
     (r1, b) \<leftarrow> test_buddy_system (buddy v);
     (r2, v) \<leftarrow> test_temp_mapping phys_pages virt_pages (v\<lparr>buddy := b\<rparr>);
     (r3, h) \<leftarrow> test_kmalloc l h;
     (r4, v, h) \<leftarrow> test_integration (v, h);
     Some (r1 @ r2 @ r3 @ r4, v, h)
   }"

section \<open>Statistics do not change the allocator\<close>

lemma managed_frame [simp]:
  "managed_pages (push_block a i s) = managed_pages s" "managed_pages (drop_block e i s) = managed_pages s"
  by (simp_all add: push_block_def drop_block_def)

lemma managed_split: "managed_pages (split_block order a n s) = managed_pages s"
  by (induction order a n s rule: split_block.induct) (simp_all add: split_step_def Let_def)

lemma managed_merge: "merge_buddies i x a s = Some (j, c, s') \<Longrightarrow> managed_pages s' = managed_pages s"
proof (induction "11 - i" arbitrary: i x a s)
  case 0
  then show ?case by (subst (asm) merge_buddies.simps) simp
next
  case (Suc n)
  have IH: "merge_buddies (Suc i) y d t = Some (j, c, s') \<Longrightarrow> managed_pages s' = managed_pages t" for y d t
    using Suc.hyps by (intro Suc.hyps(1) [of "Suc i"]) simp_all
  from Suc.prems show ?case
    by (subst (asm) merge_buddies.simps) (auto simp: Let_def dest!: IH split: if_splits option.splits)
qed

lemma managed_alloc: "pmm_alloc_pages order s = Some (a, s') \<Longrightarrow> managed_pages s' = managed_pages s"
  by (auto simp: pmm_alloc_pages_def Let_def managed_split bind_eq_Some_conv split: if_splits lnode.splits)

lemma managed_free: "pmm_free_pages a order s = Some s' \<Longrightarrow> managed_pages s' = managed_pages s"
  by (auto simp: pmm_free_pages_def Let_def bind_eq_Some_conv dest!: managed_merge split: if_splits)

definition pmm_run :: "u32 \<Rightarrow> nat set \<Rightarrow> buddy_system \<Rightarrow> bool" where
  "pmm_run b F s \<longleftrightarrow> pmm_ok b F s \<and> managed_pages s \<noteq> 0"

lemma pmm_run_stats: "pmm_run b F s \<Longrightarrow> \<exists>c. pmm_stats s = Some (c, s)"
  using pmm_stats_counts [of s] by (auto simp: pmm_run_def pmm_ok_def Let_def)

lemma pmm_run_alloc:
  assumes "pmm_run b F s"
  obtains (none) "pmm_alloc_pages order s = Some (0, s)"
  | (block) a s' where "pmm_alloc_pages order s = Some (a, s')" and "a \<noteq> 0" and "pmm_valid b order a"
      and "frames (unat order) a \<subseteq> F" and "pmm_run b (F - frames (unat order) a) s'"
proof -
  have ok: "pmm_ok b F s" using assms by (simp add: pmm_run_def)
  show thesis
  proof (cases rule: pmm_alloc_cases [OF ok, of order])
    case 1
    then show thesis by (rule none)
  next
    case (2 a s')
    then show thesis using block assms managed_alloc [OF 2(1)] by (simp add: pmm_run_def)
  qed
qed

lemma pmm_run_free:
  assumes "pmm_run b F s" and "pmm_valid b order a" and "frames (unat order) a \<inter> F = {}"
  obtains s' where "pmm_free_pages a order s = Some s'" and "pmm_run b (F \<union> frames (unat order) a) s'"
  using pa.release_block [of b F s order a] assms managed_free by (auto simp: pmm_run_def)

text \<open>A free aligned block of order \<open>j\<close>; after an allocation of a lower order a half of it is still free.\<close>

definition frame_room :: "u32 \<Rightarrow> nat \<Rightarrow> nat set \<Rightarrow> bool" where
  "frame_room b j F \<longleftrightarrow> (\<exists>c. good_block b (j, c) \<and> frames j c \<subseteq> F)"

lemma frame_room_half:
  assumes "frame_room b (Suc j) F" and "aligned i a" and "i \<le> j"
  shows "frame_room b j (F - frames i a)"
proof -
  obtain c where c: "good_block b (Suc j, c)" "frames (Suc j) c \<subseteq> F" using assms(1) by (auto simp: frame_room_def)
  have al: "aligned (Suc j) c" "j \<le> 19" "b \<le> c" "Suc j \<le> 11" using c(1) by (auto simp: good_block_def)
  note h = frames_halves [OF al(1,2)]
  have alj: "aligned j c" using al(1) by (rule aligned_mono) simp
  have up: "b \<le> buddy_of j c" using buddy_above [OF al(1,2)] al(3) by (simp add: word_le_nat_alt)
  have good: "good_block b (j, c)" "good_block b (j, buddy_of j c)"
    using alj al up aligned_buddy [OF alj al(2)] by (simp_all add: good_block_def)
  show ?thesis
  proof (cases "frames i a \<inter> frames j c = {}")
    case True
    then show ?thesis using good(1) c(2) h(1) unfolding frame_room_def by blast
  next
    case False
    then have "frames i a \<subseteq> frames j c" using frames_nested [OF assms(2) alj assms(3)] by simp
    then show ?thesis using good(2) c(2) h unfolding frame_room_def by blast
  qed
qed

lemma frame_room_pred: "frame_room b (Suc j) F \<Longrightarrow> frame_room b j F"
proof -
  assume "frame_room b (Suc j) F"
  then obtain c where c: "good_block b (Suc j, c)" "frames (Suc j) c \<subseteq> F" by (auto simp: frame_room_def)
  then have "good_block b (j, c)" using aligned_mono [of "Suc j" c j] by (simp add: good_block_def)
  moreover have "frames j c \<subseteq> frames (Suc j) c" by (auto simp: frames_def)
  ultimately show ?thesis using c(2) unfolding frame_room_def by blast
qed

lemma frame_room_nonempty: "frame_room b j F \<Longrightarrow> F \<noteq> {}"
  using frames_nonempty by (fastforce simp: frame_room_def)

lemma frame_room_alloc:
  assumes "pmm_run b F s" and "frame_room b j F" and "unat order \<le> j"
  shows "pmm_alloc_pages order s \<noteq> Some (0, t)"
proof
  assume null: "pmm_alloc_pages order s = Some (0, t)"
  obtain B where B: "buddy_inv s B" "free_frames B = F" "base_addr s = b"
    using assms(1) by (auto simp: pmm_run_def pmm_ok_def)
  obtain c where c: "good_block b (j, c)" "frames j c \<subseteq> free_frames B" using assms(2) B(2) by (auto simp: frame_room_def)
  have good: "good_blocks b B" using B(1,3) by (auto simp: buddy_inv_def dest: buddy_blocks_good)
  have j: "j \<le> 11" "aligned j c" using c(1) by (simp_all add: good_block_def)
  obtain k d where kd: "(k, d) \<in> B" "j \<le> k" using covered_by_one [OF good j(2,1) c(2)] by auto
  have le: "unat order \<le> 11" "unat order \<le> k" using assms(3) j(1) kd(2) by simp_all
  obtain a s' where "pmm_alloc_pages order s = Some (a, s')" "a \<noteq> 0"
    by (rule pmm_alloc_some_left [OF B(1) le(1) kd(1) le(2)])
  then show False using null by simp
qed

text \<open>The test gives everything back, or reports a failure of the first three allocations and keeps them.\<close>

lemma test_buddy_ok:
  assumes "pmm_run b F s"
  obtains (restored) r s' where "test_buddy_system s = Some (r, s')" and "pmm_run b F s'"
      and "(\<exists>a. a \<noteq> 0 \<and> r = [Numbers [a]]) \<or> r = [Error ''Large allocation failed''] \<and> \<not> frame_room b 6 F"
  | (leak) s' F' where "test_buddy_system s = Some ([Error ''Allocation failed''], s')" and "pmm_run b F' s'"
      and "F' \<subseteq> F" and "F \<noteq> {} \<longrightarrow> F' \<noteq> F" and "\<not> frame_room b 7 F"
proof -
  obtain c0 where st0: "pmm_stats s = Some (c0, s)" using pmm_run_stats [OF assms] by blast
  obtain a1 s1 F1 where 1: "pmm_alloc_pages 0 s = Some (a1, s1)" "pmm_run b F1 s1"
    "if a1 = 0 then F1 = F else pmm_valid b 0 a1 \<and> frames 0 a1 \<subseteq> F \<and> F1 = F - frames 0 a1"
    by (cases rule: pmm_run_alloc [OF assms, of 0]) (use assms in auto)
  obtain a2 s2 F2 where 2: "pmm_alloc_pages 2 s1 = Some (a2, s2)" "pmm_run b F2 s2"
    "if a2 = 0 then F2 = F1 else pmm_valid b 2 a2 \<and> frames 2 a2 \<subseteq> F1 \<and> F2 = F1 - frames 2 a2"
    by (cases rule: pmm_run_alloc [OF 1(2), of 2]) (use 1(2) in auto)
  obtain a3 s3 F3 where 3: "pmm_alloc_pages 4 s2 = Some (a3, s3)" "pmm_run b F3 s3"
    "if a3 = 0 then F3 = F2 else pmm_valid b 4 a3 \<and> frames 4 a3 \<subseteq> F2 \<and> F3 = F2 - frames 4 a3"
    by (cases rule: pmm_run_alloc [OF 2(2), of 4]) (use 2(2) in auto)
  show thesis
  proof (cases "a1 = 0 \<or> a2 = 0 \<or> a3 = 0")
    case True
    have "F3 \<subseteq> F2" "F2 \<subseteq> F1" "F1 \<subseteq> F" using 1(3) 2(3) 3(3) by (auto split: if_splits)
    moreover have "F1 \<noteq> F" if "F \<noteq> {}"
    proof -
      have "a1 \<noteq> 0"
      proof
        assume "a1 = 0"
        then have "s1 = s" using pa.alloc_null [of b F s 0 s1] assms 1(1) by (simp add: pmm_run_def)
        then have "F = {}" using pmm_one_left [of b F s] assms 1(1) \<open>a1 = 0\<close> by (simp add: pmm_run_def)
        then show False using that by simp
      qed
      then show ?thesis using 1(3) by auto
    qed
    moreover have "\<not> frame_room b 7 F"
    proof
      assume room: "frame_room b 7 F"
      have "a1 \<noteq> 0" using frame_room_alloc [OF assms room, of 0] 1(1) by auto
      then have v1: "pmm_valid b 0 a1" "F1 = F - frames 0 a1" using 1(3) by simp_all
      then have room1: "frame_room b 6 F1" using frame_room_half [of b 6 F 0 a1] room by (simp add: pmm_valid_def good_block_def)
      have "a2 \<noteq> 0" using frame_room_alloc [OF 1(2) room1, of 2] 2(1) by auto
      then have v2: "pmm_valid b 2 a2" "F2 = F1 - frames 2 a2" using 2(3) by simp_all
      then have room2: "frame_room b 5 F2" using frame_room_half [of b 5 F1 2 a2] room1 by (simp add: pmm_valid_def good_block_def)
      have "a3 \<noteq> 0" using frame_room_alloc [OF 2(2) room2, of 4] 3(1) by auto
      then show False using True \<open>a1 \<noteq> 0\<close> \<open>a2 \<noteq> 0\<close> by blast
    qed
    ultimately show thesis using leak [of s3 F3] st0 1(1) 2(1) 3 True by (auto simp: test_buddy_system_def)
  next
    case False
    then have b1: "pmm_valid b 0 a1" "frames 0 a1 \<subseteq> F" "F1 = F - frames 0 a1"
      and b2: "pmm_valid b 2 a2" "frames 2 a2 \<subseteq> F1" "F2 = F1 - frames 2 a2"
      and b3: "pmm_valid b 4 a3" "frames 4 a3 \<subseteq> F2" "F3 = F2 - frames 4 a3"
      using 1(3) 2(3) 3(3) by simp_all
    obtain s4 where 4: "pmm_free_pages a2 2 s3 = Some s4" "pmm_run b (F3 \<union> frames 2 a2) s4"
      using pmm_run_free [OF 3(2) b2(1)] b3(3) b2(3) by auto
    have d1: "frames 0 a1 \<inter> (F3 \<union> frames 2 a2) = {}" using b1(3) b2(2,3) b3(3) by blast
    obtain s5 where 5: "pmm_free_pages a1 0 s4 = Some s5" "pmm_run b (F3 \<union> frames 2 a2 \<union> frames 0 a1) s5"
      using pmm_run_free [OF 4(2) b1(1)] d1 by auto
    let ?F5 = "F3 \<union> frames 2 a2 \<union> frames 0 a1"
    have F5: "?F5 = F - frames 4 a3" using b1(2,3) b2(2,3) b3(2,3) by blast
    obtain c3 c5 where st: "pmm_stats s3 = Some (c3, s3)" "pmm_stats s5 = Some (c5, s5)"
      using pmm_run_stats [OF 3(2)] pmm_run_stats [OF 5(2)] by blast
    have f3: "frames 4 a3 \<subseteq> F" using b1(3) b2(3) b3(2) by blast
    obtain a4 s6 s7 s8 where 6: "pmm_alloc_pages 5 s5 = Some (a4, s6)" "\<exists>c. pmm_stats s6 = Some (c, s6)"
      "pmm_free_pages a3 4 s6 = Some s7" "(if a4 \<noteq> 0 then pmm_free_pages a4 5 s7 else Some s7) = Some s8" "pmm_run b F s8"
      "frame_room b 6 F \<longrightarrow> a4 \<noteq> 0"
    proof (cases rule: pmm_run_alloc [OF 5(2), of 5])
      case none: 1
      obtain s7 where "pmm_free_pages a3 4 s5 = Some s7" "pmm_run b (?F5 \<union> frames 4 a3) s7"
        using pmm_run_free [OF 5(2) b3(1)] F5 by auto
      moreover have "?F5 \<union> frames 4 a3 = F" using F5 f3 by blast
      moreover have "\<not> frame_room b 6 F"
      proof
        assume "frame_room b 6 F"
        then have "frame_room b 5 ?F5"
          using frame_room_half [of b 5 F 4 a3] b3(1) unfolding F5 by (simp add: pmm_valid_def good_block_def)
        from frame_room_alloc [OF 5(2) this, of 5 s5] none show False by simp
      qed
      ultimately show thesis using that [of 0 s5 s7 s7] none pmm_run_stats [OF 5(2)] by simp
    next
      case block: (2 a4 s6)
      obtain s7 where 7: "pmm_free_pages a3 4 s6 = Some s7" "pmm_run b (?F5 - frames 5 a4 \<union> frames 4 a3) s7"
        using pmm_run_free [OF block(5) b3(1)] F5 by auto
      have "frames 5 a4 \<inter> (?F5 - frames 5 a4 \<union> frames 4 a3) = {}" using block(4) F5 by auto
      then obtain s8 where 8: "pmm_free_pages a4 5 s7 = Some s8" "pmm_run b (?F5 - frames 5 a4 \<union> frames 4 a3 \<union> frames 5 a4) s8"
        using pmm_run_free [OF 7(2) block(3)] by auto
      have "?F5 - frames 5 a4 \<union> frames 4 a3 \<union> frames 5 a4 = F" using block(4) F5 f3 by auto
      then show thesis using that [OF block(1) _ 7(1), of s8] pmm_run_stats [OF block(5)] 8 block(2) by simp
    qed
    obtain c6 c8 where st6: "pmm_stats s6 = Some (c6, s6)" "pmm_stats s8 = Some (c8, s8)"
      using 6(2) pmm_run_stats [OF 6(5)] by blast
    have "test_buddy_system s = Some (if a4 \<noteq> 0 then [Numbers [a4]] else [Error ''Large allocation failed''], s8)"
      using st0 1(1) 2(1) 3(1) False st 4(1) 5(1) 6(1,3,4) st6 by (simp add: test_buddy_system_def)
    then show thesis using restored 6(5,6) by (auto split: if_splits)
  qed
qed

section \<open>Strings and words through a window\<close>

text \<open>Slot \<open>k\<close> shows frame \<open>f\<close>, which is not one of the two table frames.\<close>

definition window :: "u32 \<Rightarrow> u32 \<Rightarrow> (nat \<Rightarrow> u32 option) \<Rightarrow> nat \<Rightarrow> u32 \<Rightarrow> vm_state \<Rightarrow> bool" where
  "window dir T A k f s \<longleftrightarrow> temp_inv dir T A s \<and> k < 4 \<and> A k = Some f \<and> f \<noteq> dir \<and> f \<noteq> T"

lemma windowD:
  assumes "window dir T A k f s"
  shows "page_aligned f" and "cr3 s = dir"
    and "i < 4096 \<Longrightarrow> translate dir (pmem s) (slot_va k + of_nat i) = Some (f + of_nat i)"
  using assms temp_invD(1,7) window_translate [of dir T A s k f "of_nat i"] by (auto simp: window_def of_nat_offset)

lemma window_mem:
  assumes "window dir T A k f s" and "only_frames {f} (pmem s) m"
  shows "window dir T A k f (s\<lparr>pmem := m\<rparr>)"
  using assms temp_inv_mem [of dir T A s m] by (auto simp: window_def only_frames_def)

lemma only_frames_bytes:
  assumes "page_aligned f" and "i + length xs \<le> 4096"
  shows "only_frames {f} m (store (f + of_nat i) xs m)"
proof -
  have "frame a = f" if a: "a \<in> span (f + of_nat i) (length xs)" for a
  proof -
    obtain j where j: "j < length xs" "a = f + of_nat (i + j)" using a by (auto simp: span_def add.assoc)
    have "unat (of_nat (i + j) :: u32) < 4096" using j(1) assms(2) of_nat_offset [of "i + j"] by simp
    then show ?thesis unfolding j(2) by (rule frame_of_aligned [OF assms(1)])
  qed
  then show ?thesis unfolding only_frames_def same_frame_def by (metis singletonI store_other)
qed

lemma window_write8:
  assumes "window dir T A k f s" and "i < 4096"
  shows "kwrite8 (slot_va k + of_nat i) v s = Some (s\<lparr>pmem := (pmem s)(f + of_nat i := v)\<rparr>)"
  using windowD [OF assms(1)] assms(2) by (simp add: kwrite8_def vwrite8_def)

lemma window_bytes:
  "window dir T A k f s \<Longrightarrow> i + length xs \<le> 4096 \<Longrightarrow>
   kwrite_bytes (slot_va k + of_nat i) xs s = Some (s\<lparr>pmem := store (f + of_nat i) xs (pmem s)\<rparr>)"
proof (induction xs arbitrary: i s)
  case (Cons x xs)
  have i: "i < 4096" using Cons.prems(2) by simp
  have "only_frames {f} (pmem s) (store (f + of_nat i) [x] (pmem s))"
    using windowD(1) [OF Cons.prems(1)] i by (intro only_frames_bytes) simp_all
  from Cons.IH [OF window_mem [OF Cons.prems(1) this], of "Suc i"] window_write8 [OF Cons.prems(1) i] Cons.prems(2)
  show ?case by (simp add: fun_upd_def add.commute add.left_commute)
qed simp

lemma window_string:
  "window dir T A k f s \<Longrightarrow> i + length xs < 4096 \<Longrightarrow> cstr (pmem s) (f + of_nat i) xs \<Longrightarrow>
   kread_string (slot_va k + of_nat i) s = Some xs"
proof (induction xs arbitrary: i)
  case Nil
  then show ?case using windowD [OF Nil(1)]
    by (subst kread_string.simps) (simp add: kread8_def vread8_def)
next
  case (Cons x xs)
  have "kread_string (slot_va k + of_nat (Suc i)) s = Some xs"
    using Cons.prems by (intro Cons.IH) (simp_all add: add.commute add.left_commute)
  then show ?case using Cons.prems windowD [OF Cons.prems(1)]
    by (subst kread_string.simps) (simp add: kread8_def vread8_def add.commute add.left_commute)
qed

lemma window_word:
  assumes "window dir T A k f s" and "i < 1024"
  shows "kwrite (slot_va k + 4 * of_nat i) v s = Some (s\<lparr>pmem := store32 (entry f i) v (pmem s)\<rparr>)"
    and "kread (slot_va k + 4 * of_nat i) s = Some (load32 (pmem s) (entry f i))"
proof -
  have w: "temp_inv dir T A s" "k < 4" "A k = Some f" "f \<noteq> dir" "f \<noteq> T" using assms(1) by (simp_all add: window_def)
  show "kwrite (slot_va k + 4 * of_nat i) v s = Some (s\<lparr>pmem := store32 (entry f i) v (pmem s)\<rparr>)"
    by (rule window_write [OF w assms(2), of v]) simp
  show "kread (slot_va k + 4 * of_nat i) s = Some (load32 (pmem s) (entry f i))"
    by (rule window_read [OF w(1-3) assms(2)])
qed

lemma window_words:
  assumes "window dir T A k f s" and "i + length ws \<le> 1024"
  obtains m where "kwrite_words (slot_va k + 4 * of_nat i) ws s = Some (s\<lparr>pmem := m\<rparr>)"
    and "only_frames {f} (pmem s) m"
    and "\<And>j. j < 1024 \<Longrightarrow> load32 m (entry f j) =
      (if i \<le> j \<and> j < i + length ws then ws ! (j - i) else load32 (pmem s) (entry f j))"
  using assms
proof (induction ws arbitrary: i s thesis)
  case Nil
  show ?case by (rule Nil(1) [of "pmem s"]) auto
next
  case (Cons w ws)
  have i: "i < 1024" and f: "page_aligned f" using Cons.prems(3) windowD(1) [OF Cons.prems(2)] by simp_all
  let ?s = "s\<lparr>pmem := store32 (entry f i) w (pmem s)\<rparr>"
  have o1: "only_frames {f} (pmem s) (pmem ?s)" using only_frames_store [OF f i] by simp
  have win: "window dir T A k f ?s" using window_mem [OF Cons.prems(2) o1] by simp
  have le: "Suc i + length ws \<le> 1024" using Cons.prems(3) by simp
  obtain m where m: "kwrite_words (slot_va k + 4 * of_nat (Suc i)) ws ?s = Some (?s\<lparr>pmem := m\<rparr>)"
    "only_frames {f} (pmem ?s) m"
    "\<And>j. j < 1024 \<Longrightarrow> load32 m (entry f j) =
      (if Suc i \<le> j \<and> j < Suc i + length ws then ws ! (j - Suc i) else load32 (pmem ?s) (entry f j))"
    by (rule Cons.IH [OF _ win le]) blast
  show ?case
  proof (rule Cons.prems(1) [of m])
    show "kwrite_words (slot_va k + 4 * of_nat i) (w # ws) s = Some (s\<lparr>pmem := m\<rparr>)"
      using m(1) window_word(1) [OF Cons.prems(2) i] by (simp add: add.commute add.left_commute distrib_left)
    show "only_frames {f} (pmem s) m" using only_frames_trans [OF o1 m(2)] by simp
    show "load32 m (entry f j) = (if i \<le> j \<and> j < i + length (w # ws) then (w # ws) ! (j - i) else load32 (pmem s) (entry f j))"
      if "j < 1024" for j
      using m(3) [OF that] load_entry_store [OF f f i that, of w "pmem s"] by (auto simp: nth_Cons')
  qed
qed

section \<open>Pages that a test has mapped\<close>

text \<open>
  The slots \<open>K\<close> show the pages \<open>fs k\<close>, taken from the free frames \<open>F\<close> of the start; nothing else is
  mapped.
\<close>

definition slots_of :: "(nat \<Rightarrow> u32) \<Rightarrow> nat set \<Rightarrow> nat \<Rightarrow> u32 option" where
  "slots_of fs K = (\<lambda>k. if k \<in> K then Some (fs k) else None)"

definition mapped :: "u32 \<Rightarrow> u32 \<Rightarrow> u32 \<Rightarrow> nat set \<Rightarrow> (nat \<Rightarrow> u32) \<Rightarrow> nat set \<Rightarrow> vm_state \<Rightarrow> bool" where
  "mapped dir T b F fs K s \<longleftrightarrow> K \<subseteq> {..<4} \<and> vm_ok dir T (slots_of fs K) b (F - pfn ` fs ` K) s \<and> inj_on fs K \<and>
     (\<forall>k\<in>K. pmm_valid b 0 (fs k) \<and> fs k \<noteq> 0 \<and> fs k \<noteq> dir \<and> fs k \<noteq> T \<and> pfn (fs k) \<in> F)"

lemma mapped_none [simp]: "mapped dir T b F fs {} s = vm_ok dir T no_slots b F s"
  by (simp add: mapped_def slots_of_def)

lemma mapped_page: "mapped dir T b F fs K s \<Longrightarrow> k \<in> K \<Longrightarrow> page_aligned (fs k) \<and> fs k \<noteq> 0 \<and> fs k \<noteq> T"
  using valid_page by (auto simp: mapped_def)

lemma mapped_window: "mapped dir T b F fs K s \<Longrightarrow> k \<in> K \<Longrightarrow> window dir T (slots_of fs K) k (fs k) s"
  by (auto simp: mapped_def window_def slots_of_def dest: vm_okD)

lemma mapped_mem:
  assumes "mapped dir T b F fs K s" and "k \<in> K" and "only_frames {fs k} (pmem s) m"
  shows "mapped dir T b F fs K (s\<lparr>pmem := m\<rparr>)"
proof -
  have "temp_inv dir T (slots_of fs K) (s\<lparr>pmem := m\<rparr>)"
    using window_mem [OF mapped_window [OF assms(1,2)] assms(3)] by (simp add: window_def)
  then show ?thesis using assms(1) by (simp add: mapped_def vm_ok_def)
qed

lemma slot_va_not_0: "k < 4 \<Longrightarrow> slot_va k \<noteq> 0"
  using slot_va_unat [of k 0] by auto

lemma first_slot_upto: "i < 4 \<Longrightarrow> first_slot (slots_of fs {..<i}) = Some i"
proof -
  assume "i < 4"
  then have "i = 0 \<or> i = 1 \<or> i = 2 \<or> i = 3" by auto
  then show ?thesis by (auto simp: first_slot_def slots_of_def upt_conv_Cons)
qed

lemma mapped_pfn:
  assumes "mapped dir T b F fs K s" and "k \<in> K" and "L \<subseteq> K" and "k \<notin> L"
  shows "pfn (fs k) \<notin> pfn ` fs ` L"
proof
  assume "pfn (fs k) \<in> pfn ` fs ` L"
  then obtain l where l: "l \<in> L" "pfn (fs k) = pfn (fs l)" by auto
  then have "fs k = fs l"
    using page_pfn_eq mapped_page [OF assms(1), of k] mapped_page [OF assms(1), of l] assms(2,3) by blast
  then show False using assms l(1) by (auto simp: mapped_def dest: inj_onD)
qed

text \<open>One more page; one page less.\<close>

lemma map_step:
  assumes m: "mapped dir T b F fs {..<i} s" and i: "i < 4"
  obtains (none) "alloc_page s = Some (0, s)" and "F \<subseteq> pfn ` fs ` {..<i}"
  | (page) f s1 s' where "alloc_page s = Some (f, s1)" and "f \<noteq> 0" and "temp_map_page f s1 = Some (slot_va i, s')"
      and "mapped dir T b F (fs(i := f)) {..<Suc i} s'" and "only_frames {T} (pmem s) (pmem s')"
proof -
  have ok: "vm_ok dir T (slots_of fs {..<i}) b (F - pfn ` fs ` {..<i}) s" using m by (simp add: mapped_def)
  show thesis
  proof (cases rule: alloc_page_cases [OF ok])
    case 1
    then show thesis using none by blast
  next
    case (2 f s1)
    obtain s' where s': "temp_map_page f s1 = Some (slot_va i, s')"
      "vm_ok dir T ((slots_of fs {..<i})(i \<mapsto> f)) b (F - pfn ` fs ` {..<i} - {pfn f}) s'" "only_frames {T} (pmem s1) (pmem s')"
      using map_slot [OF 2(8,3) first_slot_upto [OF i]] .
    have A: "(slots_of fs {..<i})(i \<mapsto> f) = slots_of (fs(i := f)) {..<Suc i}"
      by (rule ext) (simp add: slots_of_def)
    have img: "(fs(i := f)) ` {..<Suc i} = insert f (fs ` {..<i})" by (auto simp: lessThan_Suc)
    have "F - pfn ` fs ` {..<i} - {pfn f} = F - pfn ` (fs(i := f)) ` {..<Suc i}" unfolding img by auto
    moreover have "inj_on (fs(i := f)) {..<Suc i}" using m 2(5) by (auto simp: mapped_def inj_on_def lessThan_Suc)
    ultimately have "mapped dir T b F (fs(i := f)) {..<Suc i} s'"
      using m i s'(2) 2(2,4-7) unfolding A by (auto simp: mapped_def lessThan_Suc)
    then show thesis using page [OF 2(1,2) s'(1)] s'(3) 2(9) by simp
  qed
qed

lemma unmap_step:
  assumes m: "mapped dir T b F fs K s" and k: "k \<in> K"
  obtains s1 s' where "temp_unmap_page (slot_va k) s = Some s1" and "free_page (fs k) s1 = Some s'"
    and "mapped dir T b F fs (K - {k}) s'" and "only_frames {T} (pmem s) (pmem s')"
proof -
  have ok: "vm_ok dir T (slots_of fs K) b (F - pfn ` fs ` K) s" and k4: "k < 4"
    and pg: "pmm_valid b 0 (fs k)" "fs k \<noteq> dir" "fs k \<noteq> T" "pfn (fs k) \<in> F" using m k by (auto simp: mapped_def)
  obtain s1 where s1: "temp_unmap_page (slot_va k) s = Some s1"
    "vm_ok dir T ((slots_of fs K)(k := None)) b (F - pfn ` fs ` K) s1" "only_frames {T} (pmem s) (pmem s1)"
    by (rule unmap_slot [OF ok k4, of "fs k"]) (use k in \<open>simp_all add: slots_of_def\<close>)
  obtain s' where s': "free_page (fs k) s1 = Some s'"
    "vm_ok dir T ((slots_of fs K)(k := None)) b (insert (pfn (fs k)) (F - pfn ` fs ` K)) s'" "pmem s' = pmem s1"
    by (rule free_page_ok [OF s1(2) pg(1) _ pg(2,3)]) (use k in auto)
  have A: "(slots_of fs K)(k := None) = slots_of fs (K - {k})" by (rule ext) (simp add: slots_of_def)
  have "insert (pfn (fs k)) (F - pfn ` fs ` K) = F - pfn ` fs ` (K - {k})"
    using pg(4) mapped_pfn [OF m k, of "K - {k}"] by auto
  then have "mapped dir T b F fs (K - {k}) s'"
    using m s'(2) unfolding A by (auto simp: mapped_def inj_on_diff)
  then show thesis using that [OF s1(1) s'(1)] s1(3) s'(3) by simp
qed

section \<open>The test of temporary mappings\<close>

lemma letters_no_nul: "0 \<notin> set test_letters" and letters_length: "length test_letters = 100"
  by (simp_all add: test_letters_def upt_rec)

lemma temp_test_basic_ok:
  assumes "vm_ok dir T no_slots b F s"
  obtains (none) "temp_test_basic s = Some ((False, [Error ''Failed to allocate physical page'']), s)" and "F = {}"
  | (finished) s' where "temp_test_basic s = Some ((True, [Text test_letters, Text test_letters]), s')"
      and "vm_ok dir T no_slots b F s'"
proof -
  have start: "mapped dir T b F (\<lambda>_. 0) {..<0} s" using assms by simp
  have z: "0 < (4 :: nat)" by simp
  show thesis
  proof (cases rule: map_step [OF start z])
    case 1
    then show thesis using none by (simp add: temp_test_basic_def)
  next
    case (2 f s1 s2)
    let ?fs = "(\<lambda>_. 0)(0 := f) :: nat \<Rightarrow> u32"
    have m: "mapped dir T b F ?fs {0} s2" using 2(4) by (simp add: lessThan_Suc)
    note win = mapped_window [OF m singletonI]
    have f: "page_aligned f" using mapped_page [OF m, of 0] by simp
    let ?m1 = "store f test_letters (pmem s2)" and ?m2 = "store f (test_letters @ [0]) (pmem s2)"
    have o1: "only_frames {f} (pmem s2) (store f xs (pmem s2))" if "length xs \<le> 101" for xs
      using only_frames_bytes [OF f, of 0 xs] that by simp
    have w1: "kwrite_bytes (slot_va 0) test_letters s2 = Some (s2\<lparr>pmem := ?m1\<rparr>)"
      using window_bytes [OF win, of 0 test_letters] by (simp add: letters_length)
    have m1: "mapped dir T b F ?fs {0} (s2\<lparr>pmem := ?m1\<rparr>)" and m2: "mapped dir T b F ?fs {0} (s2\<lparr>pmem := ?m2\<rparr>)"
      using o1 by (auto intro!: mapped_mem [OF m] simp: letters_length)
    have "?m1(f + of_nat 100 := 0) = ?m2" by (simp add: store_append letters_length)
    then have w2: "kwrite8 (slot_va 0 + 100) 0 (s2\<lparr>pmem := ?m1\<rparr>) = Some (s2\<lparr>pmem := ?m2\<rparr>)"
      using window_write8 [OF mapped_window [OF m1 singletonI], of 100 0] by simp
    have "cstr ?m2 f test_letters" by (rule cstr_stored) (simp_all add: letters_no_nul letters_length)
    then have r: "kread_string (slot_va 0) (s2\<lparr>pmem := ?m2\<rparr>) = Some test_letters"
      using window_string [OF mapped_window [OF m2 singletonI], of 0 test_letters] by (simp add: letters_length)
    obtain s3 s4 where u: "temp_unmap_page (slot_va 0) (s2\<lparr>pmem := ?m2\<rparr>) = Some s3" "free_page f s3 = Some s4"
      "vm_ok dir T no_slots b F s4"
      by (rule unmap_step [OF m2 singletonI]) auto
    have "temp_test_basic s = Some ((True, [Text test_letters, Text test_letters]), s4)"
      using 2(1-3) w1 w2 r u(1,2) slot_va_not_0 [of 0] by (simp add: temp_test_basic_def)
    then show thesis using finished u(3) by blast
  qed
qed

text \<open>The words that test 2 writes to page \<open>i\<close>.\<close>

definition page_words :: "u32 \<Rightarrow> nat \<Rightarrow> mem \<Rightarrow> bool" where
  "page_words f i m \<longleftrightarrow> (\<forall>j<10. load32 m (entry f j) = of_nat i * 100 + of_nat j)"

lemma page_words_keep: "page_words f i m \<Longrightarrow> only_frames S m m' \<Longrightarrow> f \<notin> S \<Longrightarrow> page_aligned f \<Longrightarrow> page_words f i m'"
  using only_frames_entry by (simp add: page_words_def)

definition pages_ready :: "(nat \<Rightarrow> u32) \<Rightarrow> nat \<Rightarrow> (nat \<Rightarrow> u32) \<Rightarrow> (nat \<Rightarrow> u32) \<Rightarrow> mem \<Rightarrow> bool" where
  "pages_ready fs i ps vs m \<longleftrightarrow> (\<forall>k<i. ps k = fs k \<and> vs k = slot_va k \<and> page_words (fs k) k m)"

lemma map_pages_ok:
  "mapped dir T b F fs {..<i} s \<Longrightarrow> i + n \<le> 4 \<Longrightarrow> i + n \<le> card F \<Longrightarrow> pages_ready fs i ps vs (pmem s) \<Longrightarrow>
   \<exists>ps' vs' fs' s'. map_pages i n ps vs s = Some (([], ps', vs'), s') \<and> mapped dir T b F fs' {..<i + n} s' \<and>
     pages_ready fs' (i + n) ps' vs' (pmem s')"
proof (induction n arbitrary: i s ps vs fs)
  case 0
  then show ?case by auto
next
  case (Suc n)
  have i: "i < 4" using Suc.prems(2) by simp
  show ?case
  proof (cases rule: map_step [OF Suc.prems(1) i])
    case 1
    then have "card F \<le> card (pfn ` fs ` {..<i})" by (intro card_mono) simp_all
    also have "\<dots> \<le> i" using card_image_le [of "{..<i}" "\<lambda>k. pfn (fs k)"] by (simp add: image_image)
    finally show ?thesis using Suc.prems(3) by simp
  next
    case (2 f s1 s2)
    let ?fs = "fs(i := f)"
    define ws :: "u32 list" where "ws = map (\<lambda>j. of_nat i * 100 + of_nat j) [0..<10]"
    have ws: "length ws = 10" "\<And>j. j < 10 \<Longrightarrow> ws ! j = of_nat i * 100 + of_nat j" by (simp_all add: ws_def)
    have mem: "i \<in> {..<Suc i}" by simp
    have win: "window dir T (slots_of ?fs {..<Suc i}) i f s2" using mapped_window [OF 2(4) mem] by simp
    have "0 + length ws \<le> 1024" using ws(1) by simp
    then obtain m where m: "kwrite_words (slot_va i + 4 * of_nat 0) ws s2 = Some (s2\<lparr>pmem := m\<rparr>)"
      "only_frames {f} (pmem s2) m"
      "\<And>j. j < 1024 \<Longrightarrow> load32 m (entry f j) =
        (if 0 \<le> j \<and> j < 0 + length ws then ws ! (j - 0) else load32 (pmem s2) (entry f j))"
      by (rule window_words [OF win]) blast
    have mp: "mapped dir T b F ?fs {..<Suc i} (s2\<lparr>pmem := m\<rparr>)"
      by (rule mapped_mem [OF 2(4) mem]) (use m(2) in simp)
    have fr: "only_frames {T, f} (pmem s) m" using only_frames_trans [OF 2(5) m(2)] by (simp add: insert_commute)
    have old: "page_words (fs k) k m" if k: "k < i" for k
    proof -
      have "page_aligned (fs k)" "fs k \<noteq> T" using mapped_page [OF Suc.prems(1), of k] k by auto
      moreover have "f \<noteq> fs k"
      proof
        assume "f = fs k"
        then have eq: "?fs i = ?fs k" using k by simp
        have "inj_on ?fs {..<Suc i}" using 2(4) by (simp only: mapped_def)
        from inj_onD [OF this eq] show False using k by simp
      qed
      ultimately show ?thesis using Suc.prems(4) k by (intro page_words_keep [OF _ fr]) (auto simp: pages_ready_def)
    qed
    have "page_words f i m" using m(3) ws by (simp add: page_words_def)
    then have ready: "pages_ready ?fs (Suc i) (ps(i := f)) (vs(i := slot_va i)) m"
      using Suc.prems(4) old by (simp add: pages_ready_def less_Suc_eq all_conj_distrib)
    have le: "Suc i + n \<le> 4" "Suc i + n \<le> card F" using Suc.prems(2,3) by simp_all
    have rd: "pages_ready ?fs (Suc i) (ps(i := f)) (vs(i := slot_va i)) (pmem (s2\<lparr>pmem := m\<rparr>))" using ready by simp
    obtain ps' vs' fs' s' where r: "map_pages (Suc i) n (ps(i := f)) (vs(i := slot_va i)) (s2\<lparr>pmem := m\<rparr>) = Some (([], ps', vs'), s')"
      "mapped dir T b F fs' {..<Suc i + n} s'" "pages_ready fs' (Suc i + n) ps' vs' (pmem s')"
      using Suc.IH [OF mp le rd] by blast
    have "kwrite_words (slot_va i) ws s2 = Some (s2\<lparr>pmem := m\<rparr>)" using m(1) by simp
    then have "map_pages i (Suc n) ps vs s = Some (([], ps', vs'), s')"
      using r(1) 2(1-3) slot_va_not_0 [OF i] by (simp add: ws_def [symmetric])
    then show ?thesis using r(2,3) by (intro exI conjI) (assumption, simp_all)
  qed
qed

lemma read_pages_ok:
  "mapped dir T b F fs {..<4 - d} s \<Longrightarrow> pages_ready fs (4 - d) ps vs (pmem s) \<Longrightarrow> i + n \<le> 4 - d \<Longrightarrow>
   read_pages i n vs s = Some (map (\<lambda>k. Numbers [of_nat k * 100, of_nat k * 100 + 5, of_nat k * 100 + 9]) [i..<i + n])"
proof (induction n arbitrary: i)
  case (Suc n)
  have i: "i \<in> {..<4 - d}" using Suc.prems(3) by simp
  note win = mapped_window [OF Suc.prems(1) i]
  have "vs i = slot_va i" "page_words (fs i) i (pmem s)" using Suc.prems(2) i by (auto simp: pages_ready_def)
  then have rd: "kread (vs i + 4 * of_nat j) s = Some (of_nat i * 100 + of_nat j)" if "j < 10" for j
    using window_word(2) [OF win, of j] that by (simp add: page_words_def)
  have "[i..<i + Suc n] = i # [Suc i..<Suc i + n]" by (simp add: upt_rec)
  then show ?case
    using rd [of 0] rd [of 5] rd [of 9] Suc.IH [OF Suc.prems(1,2), of "Suc i"] Suc.prems(3) by simp
qed simp

lemma cleanup_pages_ok:
  "mapped dir T b F fs {i..<i + n} s \<Longrightarrow> \<forall>k\<in>{i..<i + n}. ps k = fs k \<and> vs k = slot_va k \<Longrightarrow>
   \<exists>s'. cleanup_pages i n ps vs s = Some s' \<and> vm_ok dir T no_slots b F s'"
proof (induction n arbitrary: i s)
  case (Suc n)
  have i: "i \<in> {i..<i + Suc n}" by simp
  have K: "{i..<i + Suc n} - {i} = {Suc i..<Suc i + n}" by auto
  obtain s1 s2 where u: "temp_unmap_page (slot_va i) s = Some s1" "free_page (fs i) s1 = Some s2"
    "mapped dir T b F fs {Suc i..<Suc i + n} s2"
    by (rule unmap_step [OF Suc.prems(1) i]) (use K in auto)
  have "{i..<i + Suc n} \<subseteq> {..<4}" using Suc.prems(1) by (simp only: mapped_def)
  then have "i \<in> {..<4}" using i by (rule subsetD)
  then have "slot_va i \<noteq> 0" by (intro slot_va_not_0) simp
  moreover have "fs i \<noteq> 0" using mapped_page [OF Suc.prems(1) i] by simp
  moreover have "ps i = fs i" "vs i = slot_va i" using Suc.prems(2) i by blast+
  ultimately show ?case using u Suc.IH [OF u(3)] Suc.prems(2) by simp
qed simp

definition temp_test_report :: "report list" where
  "temp_test_report = [Text test_letters, Text test_letters, Numbers [0, 5, 9], Numbers [100, 105, 109], Numbers [200, 205, 209]]"

lemma test_temp_mapping_ok:
  assumes "vm_ok dir T no_slots b F s" and "3 \<le> card F"
  obtains s' where "test_temp_mapping jp jv s = Some (temp_test_report, s')" and "vm_ok dir T no_slots b F s'"
proof -
  obtain s1 where 1: "temp_test_basic s = Some ((True, [Text test_letters, Text test_letters]), s1)"
    "vm_ok dir T no_slots b F s1"
    by (rule temp_test_basic_ok [OF assms(1)]) (use assms(2) in auto)
  have start: "mapped dir T b F (\<lambda>_. 0) {..<0} s1" "pages_ready (\<lambda>_. 0) 0 jp jv (pmem s1)"
    using 1(2) by (simp_all add: pages_ready_def)
  have le: "0 + 3 \<le> (4 :: nat)" "0 + 3 \<le> card F" using assms(2) by simp_all
  obtain ps vs fs s2 where 2: "map_pages 0 3 jp jv s1 = Some (([], ps, vs), s2)" "mapped dir T b F fs {..<0 + 3} s2"
    "pages_ready fs (0 + 3) ps vs (pmem s2)"
    using map_pages_ok [OF start(1) le start(2)] by blast
  have rd: "read_pages 0 3 vs s2 = Some [Numbers [0, 5, 9], Numbers [100, 105, 109], Numbers [200, 205, 209]]"
    using read_pages_ok [where d = 1 and i = 0 and n = 3, of dir T b F fs s2 ps vs] 2(2,3) by (simp add: upt_rec)
  have "mapped dir T b F fs {0..<0 + 3} s2" using 2(2) by (simp add: atLeast0LessThan)
  then obtain s3 where "cleanup_pages 0 3 ps vs s2 = Some s3" "vm_ok dir T no_slots b F s3"
    using cleanup_pages_ok [of dir T b F fs 0 3 s2 ps vs] 2(3) by (auto simp: pages_ready_def)
  then show thesis using that 1(1) 2(1) rd by (simp add: test_temp_mapping_def temp_test_report_def)
qed

section \<open>The integration test\<close>

lemma offset_not_in_span:
  assumes "j < i \<or> i + n \<le> j" and "i + n < 2 ^ 32" and "j < 2 ^ 32"
  shows "f + of_nat j \<notin> span (f + of_nat i) n"
proof
  assume "f + of_nat j \<in> span (f + of_nat i) n"
  then obtain l where l: "l < n" "f + of_nat j = f + of_nat (i + l)" by (auto simp: span_def add.assoc)
  have "i + l < 2 ^ 32" using l(1) assms(2) by simp
  then have "j = i + l" using off_eq_iff [OF assms(3)] l(2) by blast
  then show False using assms(1) l(1) by auto
qed

lemma load32_cong: "(\<And>i. i < 4 \<Longrightarrow> m' (b + of_nat i) = m (a + of_nat i)) \<Longrightarrow> load32 m' b = load32 m a"
proof -
  assume e: "\<And>i. i < 4 \<Longrightarrow> m' (b + of_nat i) = m (a + of_nat i)"
  show ?thesis using e [of 0] e [of 1] e [of 2] e [of 3] by (simp add: load32_def)
qed

lemma cstr_moved:
  "cstr m p xs \<Longrightarrow> (\<And>i. i \<le> length xs \<Longrightarrow> m' (q + of_nat i) = m (p + of_nat i)) \<Longrightarrow> cstr m' q xs"
proof (induction xs arbitrary: p q)
  case (Cons x xs)
  have "m' (q + 1 + of_nat i) = m (p + 1 + of_nat i)" if "i \<le> length xs" for i
    using Cons.prems(2) [of "Suc i"] that by (simp add: add.assoc)
  then have "cstr m' (q + 1) xs" using Cons.prems(1) by (intro Cons.IH [of "p + 1"]) auto
  then show ?case using Cons.prems(1) Cons.prems(2) [of 0] by simp
qed (use in force)

lemma store_nth: "j < length xs \<Longrightarrow> length xs < 2 ^ 32 \<Longrightarrow> store p xs m (p + of_nat j) = xs ! j"
proof (induction xs arbitrary: p m j)
  case (Cons x xs)
  then show ?case
  proof (cases j)
    case 0
    then show ?thesis using Cons.prems(2) by (simp add: store_first)
  next
    case (Suc i)
    then show ?thesis using Cons.IH [of i "p + 1"] Cons.prems by (simp add: add.assoc)
  qed
qed simp

lemma copy_to_heap_ok:
  "window dir T A k f v \<Longrightarrow> i + n \<le> 4096 \<Longrightarrow>
   copy_to_heap dest (slot_va k + of_nat i) n v m = Some (store dest (map (\<lambda>j. pmem v (f + of_nat j)) [i..<i + n]) m)"
proof (induction n arbitrary: i dest m)
  case (Suc n)
  have "kread8 (slot_va k + of_nat i) v = Some (pmem v (f + of_nat i))"
    using windowD [OF Suc.prems(1)] Suc.prems(2) by (simp add: kread8_def vread8_def)
  moreover have "[i..<i + Suc n] = i # [Suc i..<Suc i + n]" by (simp add: upt_rec)
  ultimately show ?case
    using Suc.IH [OF Suc.prems(1), of "Suc i" "dest + 1"] Suc.prems(2) by (simp add: add.commute add.left_commute)
qed simp

text \<open>The structure in memory at \<open>p\<close>.\<close>

definition test_struct_at :: "u32 \<Rightarrow> mem \<Rightarrow> bool" where
  "test_struct_at p m \<longleftrightarrow> load32 m p = 42 \<and> cstr m (p + 4) txt_integration \<and> load32 m (p + 36) = value_bits"

lemma txt_integration_length: "length txt_integration = 16" and txt_integration_nul: "0 \<notin> set txt_integration"
  by (simp_all add: txt_integration_def)

lemma test_struct_moved:
  assumes "test_struct_at p m" and "\<And>i. i < 40 \<Longrightarrow> m' (q + of_nat i) = m (p + of_nat i)"
  shows "test_struct_at q m'"
proof -
  have at: "load32 m' (q + of_nat d) = load32 m (p + of_nat d)" if "d \<le> 36" for d
  proof (rule load32_cong)
    fix i :: nat assume "i < 4"
    then show "m' (q + of_nat d + of_nat i) = m (p + of_nat d + of_nat i)"
      using assms(2) [of "d + i"] that by (simp add: add.assoc)
  qed
  have "cstr m' (q + 4) txt_integration"
  proof (rule cstr_moved [where p = "p + 4"])
    show "cstr m (p + 4) txt_integration" using assms(1) by (simp add: test_struct_at_def)
    fix i assume "i \<le> length txt_integration"
    then show "m' (q + 4 + of_nat i) = m (p + 4 + of_nat i)"
      using assms(2) [of "4 + i"] by (simp add: txt_integration_length add.assoc)
  qed
  then show ?thesis using assms(1) at [of 0] at [of 36] by (simp add: test_struct_at_def)
qed

text \<open>The three writes through the window make the structure.\<close>

lemma struct_writes:
  assumes m: "mapped dir T b F fs K s" and k: "k \<in> K"
  obtains s1 s2 s3 where "kwrite (slot_va k) 42 s = Some s1"
    and "kwrite_bytes (slot_va k + 4) (txt_integration @ [0]) s1 = Some s2"
    and "kwrite (slot_va k + 36) value_bits s2 = Some s3"
    and "mapped dir T b F fs K s3" and "test_struct_at (fs k) (pmem s3)"
proof -
  let ?f = "fs k" and ?xs = "txt_integration @ [0]"
  have f: "page_aligned ?f" using mapped_page [OF m k] by simp
  have e: "entry ?f 0 = ?f" "entry ?f 9 = ?f + 36" by (simp_all add: entry_def)
  let ?m1 = "store32 ?f 42 (pmem s)"
  let ?m2 = "store (?f + of_nat 4) ?xs ?m1"
  let ?m3 = "store32 (?f + 36) value_bits ?m2"
  have o1: "only_frames {?f} (pmem s) ?m1" using only_frames_store [OF f, of 0 "pmem s" 42] e by simp
  have m1: "mapped dir T b F fs K (s\<lparr>pmem := ?m1\<rparr>)" by (rule mapped_mem [OF m k o1])
  have "only_frames {?f} ?m1 ?m2" using only_frames_bytes [OF f, of 4 ?xs] by (simp add: txt_integration_length)
  then have m2: "mapped dir T b F fs K (s\<lparr>pmem := ?m2\<rparr>)" using mapped_mem [OF m1 k, of ?m2] by simp
  have "only_frames {?f} ?m2 ?m3" using only_frames_store [OF f, of 9 ?m2 value_bits] e by simp
  then have m3: "mapped dir T b F fs K (s\<lparr>pmem := ?m3\<rparr>)" using mapped_mem [OF m2 k, of ?m3] by simp
  have w1: "kwrite (slot_va k) 42 s = Some (s\<lparr>pmem := ?m1\<rparr>)"
    using window_word(1) [OF mapped_window [OF m k], of 0 42] e by simp
  have w2: "kwrite_bytes (slot_va k + 4) ?xs (s\<lparr>pmem := ?m1\<rparr>) = Some (s\<lparr>pmem := ?m2\<rparr>)"
    using window_bytes [OF mapped_window [OF m1 k], of 4 ?xs] by (simp add: txt_integration_length)
  have w3: "kwrite (slot_va k + 36) value_bits (s\<lparr>pmem := ?m2\<rparr>) = Some (s\<lparr>pmem := ?m3\<rparr>)"
    using window_word(1) [OF mapped_window [OF m2 k], of 9 value_bits] e by simp
  have out3: "?m3 (?f + of_nat j) = ?m2 (?f + of_nat j)" if "j < 36" for j
    using store32_outside [of "?f + of_nat j" "?f + of_nat 36"] offset_not_in_span [of j 36 4 ?f] that by simp
  have out2: "?m2 (?f + of_nat j) = ?m1 (?f + of_nat j)" if "j < 4" for j
    using offset_not_in_span [of j 4 17 ?f] that by (intro store_other) (simp add: txt_integration_length)
  have "load32 ?m3 ?f = load32 ?m1 ?f"
  proof (rule load32_cong)
    show "?m3 (?f + of_nat i) = ?m1 (?f + of_nat i)" if "i < 4" for i using out2 [OF that] out3 [of i] that by simp
  qed
  moreover have "cstr ?m3 (?f + of_nat 4) txt_integration"
  proof (rule cstr_moved [where p = "?f + of_nat 4"])
    show "cstr ?m2 (?f + of_nat 4) txt_integration"
      by (rule cstr_stored) (simp_all add: txt_integration_length txt_integration_nul)
    show "?m3 (?f + of_nat 4 + of_nat i) = ?m2 (?f + of_nat 4 + of_nat i)" if "i \<le> length txt_integration" for i
      using out3 [of "4 + i"] that by (simp add: txt_integration_length add.assoc)
  qed
  ultimately have "test_struct_at ?f ?m3" by (simp add: test_struct_at_def)
  then show thesis using that [OF w1 w2 w3 m3] by simp
qed

definition struct_report :: "report list" where
  "struct_report = [Numbers [42], Text txt_integration, Numbers [value_bits]]"

lemma struct_reads:
  assumes m: "mapped dir T b F fs K s" and k: "k \<in> K" and at: "test_struct_at (fs k) (pmem s)"
  shows "kread (slot_va k) s = Some 42" and "kread_string (slot_va k + 4) s = Some txt_integration"
    and "kread (slot_va k + 36) s = Some value_bits"
proof -
  note win = mapped_window [OF m k]
  have e: "entry (fs k) 0 = fs k" "entry (fs k) 9 = fs k + 36" by (simp_all add: entry_def)
  show "kread (slot_va k) s = Some 42" using window_word(2) [OF win, of 0] at e by (simp add: test_struct_at_def)
  show "kread (slot_va k + 36) s = Some value_bits" using window_word(2) [OF win, of 9] at e by (simp add: test_struct_at_def)
  show "kread_string (slot_va k + 4) s = Some txt_integration"
    using window_string [OF win, of 4 txt_integration] at by (simp add: test_struct_at_def txt_integration_length)
qed

text \<open>The copy on the heap, when there is memory for it.\<close>

lemma struct_heap_copy:
  assumes win: "window dir T A k f v" and at: "test_struct_at f (pmem v)" and room: "heap_room lo hi U N h"
  obtains (none) "kmalloc 40 h = Some (0, h)" and "N < 100"
  | (copy) p m h1 h2 where "kmalloc 40 h = Some (p, h1)" and "p \<noteq> 0"
      and "copy_to_heap p (slot_va k) 40 v (hbytes h1) = Some m" and "test_struct_at p m"
      and "kfree p (h1\<lparr>hbytes := m\<rparr>) = Some h2" and "heap_room lo hi U (N - 100) h2"
proof -
  obtain p S h1 where a: "kmalloc 40 h = Some (p, h1)" "holds_block 40 p S" "S \<inter> U = {}"
    "heap_room lo hi (S \<union> U) (N - 100) h1" "same_outside lo hi (hbytes h) (hbytes h1)" "100 \<le> N \<Longrightarrow> p \<noteq> 0"
    by (rule room_alloc_if [OF room, of 40 40 100]) auto
  show thesis
  proof (cases "p = 0")
    case True
    then have "h1 = h" using a(1) kh.alloc_null [OF room_ok [OF room]] by blast
    moreover have "N < 100" using a(6) True by (meson not_le)
    ultimately show thesis using none a(1) True by simp
  next
    case False
    then obtain j where j: "S = {(p, j)}" using holds_blockD [OF a(2)] by blast
    let ?bs = "map (\<lambda>i. pmem v (f + of_nat i)) [0..<0 + 40]"
    let ?m = "store p ?bs (hbytes h1)"
    have c: "copy_to_heap p (slot_va k) 40 v (hbytes h1) = Some ?m"
      using copy_to_heap_ok [OF win, of 0 40 p "hbytes h1"] by (simp del: upt_Suc)
    have "?m (p + of_nat i) = pmem v (f + of_nat i)" if "i < 40" for i
      using store_nth [of i ?bs p "hbytes h1"] that by (simp del: upt_Suc)
    then have st: "test_struct_at p ?m" by (rule test_struct_moved [OF at])
    have room1: "heap_room lo hi (insert (p, j) U) (N - 100) (h1\<lparr>hbytes := ?m\<rparr>)" using a(4) j by (simp add: room_bytes)
    have U: "insert (p, j) U - {(p, j)} = U" using a(3) j by auto
    obtain h2 where "kfree p (h1\<lparr>hbytes := ?m\<rparr>) = Some h2" "heap_room lo hi U (N - 100) h2"
      by (rule room_free [OF room1 insertI1]) (use U in simp)
    then show thesis using copy [OF a(1) False c st] by blast
  qed
qed

lemma test_integration_ok:
  assumes "vm_ok dir T no_slots b F v" and "F \<noteq> {}" and "heap_room lo hi U N h"
  obtains r v' h' where "test_integration (v, h) = Some (r, v', h')" and "vm_ok dir T no_slots b F v'"
    and "heap_room lo hi U (N - 100) h'" and "100 \<le> N \<Longrightarrow> r = struct_report @ struct_report"
proof -
  have start: "mapped dir T b F (\<lambda>_. 0) {..<0} v" using assms(1) by simp
  have z: "0 < (4 :: nat)" by simp
  show thesis
  proof (cases rule: map_step [OF start z])
    case 1
    then show thesis using assms(2) by simp
  next
    case (2 f v1 v2)
    let ?fs = "(\<lambda>_. 0)(0 := f) :: nat \<Rightarrow> u32"
    have m: "mapped dir T b F ?fs {0} v2" using 2(4) by (simp add: lessThan_Suc)
    obtain v3 v4 v5 where w: "kwrite (slot_va 0) 42 v2 = Some v3"
      "kwrite_bytes (slot_va 0 + 4) (txt_integration @ [0]) v3 = Some v4" "kwrite (slot_va 0 + 36) value_bits v4 = Some v5"
      "mapped dir T b F ?fs {0} v5" "test_struct_at (?fs 0) (pmem v5)"
      by (rule struct_writes [OF m singletonI], rule that)
    note rd = struct_reads [OF w(4) singletonI w(5)]
    obtain v6 v7 where u: "temp_unmap_page (slot_va 0) v5 = Some v6" "free_page f v6 = Some v7" "vm_ok dir T no_slots b F v7"
      by (rule unmap_step [OF w(4) singletonI]) auto
    note pre = 2(1-3) w(1-3) rd u(1,2) slot_va_not_0 [of 0]
    have at: "test_struct_at f (pmem v5)" using w(5) by simp
    have win: "window dir T (slots_of ?fs {0}) 0 f v5" using mapped_window [OF w(4) singletonI] by simp
    show thesis
    proof (cases rule: struct_heap_copy [OF win at assms(3)])
      case n: 1
      have "test_integration (v, h) = Some (struct_report, v7, h)"
        using pre n(1) by (simp add: test_integration_def struct_report_def)
      then show thesis using that [OF _ u(3) room_mono [OF assms(3)]] n(2) by simp
    next
      case c: (2 p mm h1 h2)
      have "printed_string (p + 4) mm = Some txt_integration" "load32 mm p = 42" "load32 mm (p + 36) = value_bits"
        using c(4) by (simp_all add: test_struct_at_def printed_string_cstr)
      then have "test_integration (v, h) = Some (struct_report @ struct_report, v7, h2)"
        using pre c(1-3,5) by (simp add: test_integration_def struct_report_def)
      then show thesis using that [OF _ u(3) c(6)] by simp
    qed
  qed
qed

section \<open>All tests\<close>

lemma vm_ok_buddy: "vm_ok dir T A b F v \<Longrightarrow> pmm_ok b F c \<Longrightarrow> vm_ok dir T A b F (v\<lparr>buddy := c\<rparr>)"
  by (simp add: vm_ok_def temp_inv_def)

definition memory_test_report :: "u32 \<Rightarrow> report list" where
  "memory_test_report block = Numbers [block] # temp_test_report @ heap_test_report @ struct_report @ struct_report"

lemma memory_tests_ok:
  assumes vm: "vm_ok dir T no_slots b F v" "managed_pages (buddy v) \<noteq> 0" "frame_room b 7 F"
    and heap: "heap_inv lo hi h bs" "literals_in lo hi l (hbytes h)" "(a, n, True) \<in> set bs" "0x8000 \<le> n"
  shows "\<exists>block v' h'. run_all_memory_tests jp jv l (v, h) = Some (memory_test_report block, v', h') \<and>
    block \<noteq> 0 \<and> vm_ok dir T no_slots b F v' \<and> heap_inv lo hi h' bs"
proof -
  have run: "pmm_run b F (buddy v)" using vm(1,2) by (simp add: pmm_run_def vm_ok_def)
  have r6: "frame_room b 6 F" using vm(3) frame_room_pred [of b 6] by simp
  obtain block c where 1: "test_buddy_system (buddy v) = Some ([Numbers [block]], c)" "block \<noteq> 0" "pmm_run b F c"
    using vm(3) r6 by (cases rule: test_buddy_ok [OF run]) auto
  have v1: "vm_ok dir T no_slots b F (v\<lparr>buddy := c\<rparr>)" using vm(1) 1(3) by (intro vm_ok_buddy) (simp_all add: pmm_run_def)
  obtain d where d: "frames 7 d \<subseteq> F" using vm(3) by (auto simp: frame_room_def)
  have fin: "finite F" by (rule vm_ok_finite [OF vm(1)])
  have "3 \<le> card (frames 7 d)" by simp
  also have "\<dots> \<le> card F" by (rule card_mono [OF fin d])
  finally have c3: "3 \<le> card F" .
  obtain v2 where 2: "test_temp_mapping jp jv (v\<lparr>buddy := c\<rparr>) = Some (temp_test_report, v2)" "vm_ok dir T no_slots b F v2"
    using test_temp_mapping_ok [OF v1 c3] .
  have room: "heap_room lo hi (payload ` used_blocks bs) 0x8000 h"
    unfolding heap_room_def using heap by (intro exI [of _ bs]) auto
  obtain h1 r where 3: "test_kmalloc l h = Some (r, h1)" "heap_room lo hi (payload ` used_blocks bs) 0 h1" "r = heap_test_report"
    by (rule test_kmalloc_ok [OF room heap(2)]) simp
  have inv1: "heap_inv lo hi h1 bs" by (rule heap_ok_same_blocks [OF heap(1) room_ok [OF 3(2)]])
  have room1: "heap_room lo hi (payload ` used_blocks bs) 0x8000 h1"
    unfolding heap_room_def using inv1 heap(3,4) by (intro exI [of _ bs]) auto
  have "F \<noteq> {}" using c3 by auto
  then obtain r4 v3 h2 where 4: "test_integration (v2, h1) = Some (r4, v3, h2)" "vm_ok dir T no_slots b F v3"
    "heap_room lo hi (payload ` used_blocks bs) (0x8000 - 100) h2" "r4 = struct_report @ struct_report"
    by (rule test_integration_ok [OF 2(2) _ room1]) simp
  have inv2: "heap_inv lo hi h2 bs" by (rule heap_ok_same_blocks [OF heap(1) room_ok [OF 4(3)]])
  have "run_all_memory_tests jp jv l (v, h) = Some (memory_test_report block, v3, h2)"
    using 1(1) 2(1) 3(1,3) 4(1,4) by (simp add: run_all_memory_tests_def memory_test_report_def)
  then show ?thesis using 1(2) 4(2) inv2 by blast
qed

section \<open>What a failure leaves behind\<close>

lemma map_pages_add:
  "map_pages i m ps vs s = Some (([], ps', vs'), s') \<Longrightarrow> map_pages i (m + n) ps vs s = map_pages (i + m) n ps' vs' s'"
proof (induction m arbitrary: i ps vs s)
  case (Suc m)
  then show ?case by (auto simp: bind_eq_Some_conv Let_def split: if_splits) (drule Suc.IH, simp add: fun_upd_def)
qed simp

lemma map_pages_stops:
  assumes "mapped dir T b F fs {..<i} s" and "i < 4" and "card F \<le> i"
  shows "map_pages i (Suc n) ps vs s = Some (([Error ''Failed to allocate page'', Numbers [of_nat i]], ps(i := 0), vs), s)"
proof (cases rule: map_step [OF assms(1,2)])
  case 1
  then show ?thesis by (simp add: Let_def)
next
  case (2 f s1 s')
  have fin: "finite F"
  proof -
    have "finite (F - pfn ` fs ` {..<i})" using assms(1) by (auto simp: mapped_def dest: vm_ok_finite)
    then show ?thesis by simp
  qed
  have sub: "pfn ` (fs(i := f)) ` {..<Suc i} \<subseteq> F" using 2(4) unfolding mapped_def by blast
  have "inj_on (pfn \<circ> fs(i := f)) {..<Suc i}"
  proof (rule inj_onI)
    fix x y assume xy: "x \<in> {..<Suc i}" "y \<in> {..<Suc i}" "(pfn \<circ> fs(i := f)) x = (pfn \<circ> fs(i := f)) y"
    show "x = y" using mapped_pfn [OF 2(4) xy(1), of "{y}"] xy by auto
  qed
  from card_image [OF this] have "card ((pfn \<circ> fs(i := f)) ` {..<Suc i}) = Suc i" by (simp only: card_lessThan)
  then have "Suc i \<le> card F" using card_mono [OF fin sub] by (simp only: image_comp)
  then show ?thesis using assms(3) by simp
qed

lemma temp_test_junk:
  assumes ok: "vm_ok dir T no_slots b F s" and one: "card F = 1" and jv: "jv 1 = 0" "jv 2 = 0"
    and x: "pmm_valid b 0 (jp 2)" "pfn (jp 2) \<notin> F" "jp 2 \<noteq> 0"
  shows "\<exists>s'. test_temp_mapping jp jv s =
      Some ([Text test_letters, Text test_letters, Error ''Failed to allocate page'', Numbers [1]], s') \<and>
    pmm_ok b (insert (pfn (jp 2)) F) (buddy s')"
proof -
  obtain s1 where 1: "temp_test_basic s = Some ((True, [Text test_letters, Text test_letters]), s1)"
    "vm_ok dir T no_slots b F s1"
    by (rule temp_test_basic_ok [OF ok]) (use one in auto)
  have start: "mapped dir T b F (\<lambda>_. 0) {..<0} s1" "pages_ready (\<lambda>_. 0) 0 jp jv (pmem s1)"
    using 1(2) by (simp_all add: pages_ready_def)
  have le: "0 + 1 \<le> (4 :: nat)" "0 + 1 \<le> card F" using one by simp_all
  obtain ps vs fs s2 where m: "map_pages 0 1 jp jv s1 = Some (([], ps, vs), s2)" "mapped dir T b F fs {..<0 + 1} s2"
    "pages_ready fs (0 + 1) ps vs (pmem s2)"
    using map_pages_ok [OF start(1) le start(2)] by blast
  have ps: "ps 0 = fs 0" "vs 0 = slot_va 0" "ps 2 = jp 2" "vs 1 = 0" "vs 2 = 0"
    using m(1,3) jv by (auto simp: pages_ready_def bind_eq_Some_conv Let_def split: if_splits)
  let ?e = "[Error ''Failed to allocate page'', Numbers [1]]"
  have stop: "map_pages 1 2 ps vs s2 = Some ((?e, ps(1 := 0), vs), s2)"
    using map_pages_stops [OF m(2), of 1 ps vs] one by (simp add: numeral_2_eq_2)
  have mp: "map_pages 0 3 jp jv s1 = Some ((?e, ps(1 := 0), vs), s2)"
  proof -
    have n: "(3 :: nat) = 1 + 2" "(0 :: nat) + 1 = 1" by simp_all
    show ?thesis unfolding n(1) map_pages_add [OF m(1)] n(2) by (rule stop)
  qed
  have m0: "mapped dir T b F fs {0} s2" using m(2) by (simp add: lessThan_Suc)
  obtain s3 s4 where u: "temp_unmap_page (slot_va 0) s2 = Some s3" "free_page (fs 0) s3 = Some s4"
    "vm_ok dir T no_slots b F s4"
    by (rule unmap_step [OF m0 singletonI]) auto
  have pm: "pmm_ok b F (buddy s4)" using u(3) by (simp add: vm_ok_def)
  obtain c where c: "pmm_free_pages (jp 2) 0 (buddy s4) = Some c" "pmm_ok b (F \<union> frames (unat (0 :: u32)) (jp 2)) c"
    using pa.release_block [OF pm x(1)] x(2) frames_one [of "jp 2"] by auto
  then have f: "free_page (jp 2) s4 = Some (s4\<lparr>buddy := c\<rparr>)" by (simp add: free_page_def)
  have "cleanup_pages 0 3 (ps(1 := 0)) vs s2 = Some (s4\<lparr>buddy := c\<rparr>)"
    using ps u(1,2) f x(3) mapped_page [OF m0 singletonI] slot_va_not_0 [of 0] by (simp add: numeral_3_eq_3 numeral_2_eq_2)
  then have "test_temp_mapping jp jv s = Some ([Text test_letters, Text test_letters] @ ?e, s4\<lparr>buddy := c\<rparr>)"
    using 1(1) mp by (simp add: test_temp_mapping_def)
  then show ?thesis using c(2) frames_one [of "jp 2"] by simp
qed

section \<open>An allocator without blocks\<close>

lemma empty_pmm:
  obtains s where "pmm_ok 0x01000000 {} s" and "managed_pages s = 4096"
proof -
  let ?s = "init_free_areas (buddy_bss\<lparr>base_addr := 0x01000000, managed_pages := 4096\<rparr>)"
  have "buddy_blocks ?s {}" by (rule init_free_areas_blocks) (simp_all add: aligned_def)
  then have "buddy_inv ?s {}" by (simp add: buddy_inv_def buddy_bss_def)
  then have "pmm_ok 0x01000000 {} ?s" by (auto simp: pmm_ok_def free_frames_def)
  then show thesis using that by simp
qed

lemma one_page_pmm:
  obtains s where "pmm_ok 0x01000000 {0x1800} s" and "managed_pages s = 4096"
proof -
  obtain s0 where s0: "pmm_ok 0x01000000 {} s0" "managed_pages s0 = 4096" by (rule empty_pmm)
  have v: "pmm_valid 0x01000000 0 0x01800000" by (simp add: pmm_valid_def good_block_def aligned_def)
  obtain s where s: "pmm_free_pages 0x01800000 0 s0 = Some s" "pmm_ok 0x01000000 ({} \<union> frames (unat (0 :: u32)) 0x01800000) s"
    using pa.release_block [OF s0(1) v] by auto
  then have "pmm_ok 0x01000000 {0x1800} s" using frames_one [of "0x01800000"] by (simp add: pfn_def)
  then show thesis using that managed_free [OF s(1)] s0(2) by simp
qed

section \<open>Properties\<close>

theorem test_buddy_system_spec:
  assumes "buddy_inv s B" and "managed_pages s \<noteq> 0"
  shows "\<exists>r s'. test_buddy_system s = Some (r, s') \<and>
    (if r = [Error ''Allocation failed'']
     then \<exists>B'. buddy_inv s' B' \<and> free_frames B' \<subseteq> free_frames B \<and> (B \<noteq> {} \<longrightarrow> free_frames B' \<noteq> free_frames B)
     else buddy_inv s' B)"
proof -
  have run: "pmm_run (base_addr s) (free_frames B) s" using assms by (auto simp: pmm_run_def pmm_ok_def)
  show ?thesis
  proof (cases rule: test_buddy_ok [OF run])
    case (1 r s')
    then have "buddy_inv s' B" using pmm_ok_same_blocks [OF assms(1)] by (simp add: pmm_run_def)
    then show ?thesis using 1 by auto
  next
    case (2 s' F')
    then obtain B' where "buddy_inv s' B'" "free_frames B' = F'" by (auto simp: pmm_run_def pmm_ok_def)
    moreover have "B \<noteq> {} \<longrightarrow> free_frames B \<noteq> {}" using bframes_start by (auto simp: free_frames_def)
    ultimately show ?thesis using 2 by auto
  qed
qed

theorem test_buddy_system_spec_witness:
  "\<exists>s r s' B'. pmm_ok 0x01000000 {0x1800} s \<and> test_buddy_system s = Some (r, s') \<and> buddy_inv s' B' \<and>
     free_frames B' \<subseteq> {0x1800}"
proof -
  obtain s where s: "pmm_ok 0x01000000 {0x1800} s" "managed_pages s = 4096" by (rule one_page_pmm)
  then obtain B where B: "buddy_inv s B" "free_frames B = {0x1800}" by (auto simp: pmm_ok_def)
  from test_buddy_system_spec [OF B(1)] s show ?thesis using B(2) by (fastforce split: if_splits)
qed

text \<open>
  C34: When there is one free page, test_temp_mapping jumps to its cleanup in the second round of its
  loop, where it passes the third element of an array that was never set to pmm_free_pages: if the
  stack happens to hold 0 in the two virtual addresses that were not set and names a page in use
  (valid, not 0) in that element, that page becomes free.
\<close>

theorem test_temp_mapping_frees_junk:
  assumes "vm_ok dir T no_slots b F s" and "card F = 1" and "virt_pages 1 = 0" and "virt_pages 2 = 0"
    and "pmm_valid b 0 (phys_pages 2)" and "pfn (phys_pages 2) \<notin> F" and "phys_pages 2 \<noteq> 0"
  shows "\<exists>s'. test_temp_mapping phys_pages virt_pages s =
      Some ([Text test_letters, Text test_letters, Error ''Failed to allocate page'', Numbers [1]], s') \<and>
    pmm_ok b (insert (pfn (phys_pages 2)) F) (buddy s')"
  by (rule temp_test_junk [where jp = phys_pages and jv = virt_pages, OF assms])

theorem test_temp_mapping_frees_junk_witness:
  "\<exists>c r s'. test_temp_mapping (\<lambda>_. 0x01801000) (\<lambda>_. 0) (boot_vm c) = Some (r, s') \<and>
     pmm_ok 0x01000000 {0x1800} c \<and> pmm_ok 0x01000000 {0x1801, 0x1800} (buddy s')"
proof -
  obtain c where c: "pmm_ok 0x01000000 {0x1800} c" by (rule one_page_pmm)
  have "vm_ok 0x1000 0x2000 no_slots 0x01000000 {0x1800} (boot_vm c)"
    using boot_vm_inv [of c] c by (simp add: vm_ok_def pfn_def)
  from test_temp_mapping_frees_junk [OF this, where virt_pages = "\<lambda>_. 0" and phys_pages = "\<lambda>_. 0x01801000"] c show ?thesis
    by (auto simp: pmm_valid_def good_block_def aligned_def pfn_def)
qed

end
