(* ===== verification/Boot.thy ===== *)
theory Boot
  imports Syscall Interrupts Serial MemTests
begin

text \<open>
  The start of the kernel: \<open>kernel/boot.c\<close> and \<open>kernel/kmain.c\<close>, with the constants of
  \<open>include/boot_config.h\<close>, and the self test of the file layer that runs during start
  (\<open>kernel/fs/test_fs.c\<close>). Addresses that the linker chooses are parameters. The log goes out on the
  serial line and waits for it: the lines of \<open>boot.c\<close> with a fixed text are written where the code writes
  them, the other log output of a step is written when the step is done and its bytes are a parameter.
\<close>

section \<open>Data\<close>

definition BOOT_PMM_PHYS_START :: u32 where [simp]: "BOOT_PMM_PHYS_START = 0x01000000"
definition BOOT_PMM_PHYS_END :: u32 where [simp]: "BOOT_PMM_PHYS_END = 0x02000000"
definition BOOT_MBI_FLAG_MODULES :: u32 where [simp]: "BOOT_MBI_FLAG_MODULES = push_bit 3 1"
definition MULTIBOOT_BOOTLOADER_MAGIC :: u32 where [simp]: "MULTIBOOT_BOOTLOADER_MAGIC = 0x2BADB002"

text \<open>\<open>hello\<close>\<close>

definition BOOT_DEMO_USER_MODULE_NAME :: "u8 list" where
  "BOOT_DEMO_USER_MODULE_NAME = [104, 101, 108, 108, 111]"

text \<open>The fields of \<open>multiboot_info_t\<close> that the kernel reads; \<open>mods\<close> is the module table at \<open>mods_addr\<close>.\<close>

record multiboot_info =
  mbi_flags :: u32
  mbi_mods_count :: u32
  mbi_mods :: "nat \<Rightarrow> grub_module"

text \<open>
  Addresses of labels, tables, string literals and of the stack, what the stack holds where the
  memory tests put their arrays, and the bytes that the steps of the start send to the log.
\<close>

record image =
  im_vectors :: "nat \<Rightarrow> u32"
  im_syscall_entry :: u32
  im_idt :: u32
  im_tss :: u32
  im_esp :: u32
  im_buffer :: u32
  im_stat :: u32
  im_console_msg :: u32
  im_stdout_msg :: u32
  im_literals :: literals
  im_phys_pages :: "nat \<Rightarrow> u32"
  im_virt_pages :: "nat \<Rightarrow> u32"
  im_log :: "nat \<Rightarrow> u8 list"

text \<open>\<open>printed\<close> collects what the self tests report.\<close>

record machine =
  kern :: kernel
  mio :: io_log
  tabs :: tables
  printed :: "report list"

section \<open>Steps of the start\<close>

text \<open>\<open>MatrixOS Booting...\<close>, \<open>System Ready!\<close>, \<open>No user modules found\<close>, \<open>Starting user program...\<close>.\<close>

definition msg_booting :: "u8 list" where
  "msg_booting = [77, 97, 116, 114, 105, 120, 79, 83, 32, 66, 111, 111, 116, 105, 110, 103, 46, 46, 46, 10]"
definition msg_ready :: "u8 list" where
  "msg_ready = [83, 121, 115, 116, 101, 109, 32, 82, 101, 97, 100, 121, 33, 10]"
definition msg_no_modules :: "u8 list" where
  "msg_no_modules = [78, 111, 32, 117, 115, 101, 114, 32, 109, 111, 100, 117, 108, 101, 115, 32, 102, 111, 117, 110, 100, 10]"
definition msg_starting :: "u8 list" where
  "msg_starting = [83, 116, 97, 114, 116, 105, 110, 103, 32, 117, 115, 101, 114, 32, 112, 114, 111, 103, 114, 97, 109, 46, 46, 46, 10]"

definition screen_puts :: "u8 list \<Rightarrow> kernel \<Rightarrow> kernel" where
  "screen_puts xs k = k\<lparr>files := (files k)\<lparr>wcon := fb_puts_lit xs (wcon (files k))\<rparr>\<rparr>"

text \<open>A message on the serial line.\<close>

definition boot_log :: "device \<Rightarrow> u8 list \<Rightarrow> machine \<Rightarrow> machine option" where
  "boot_log dev bs m = do { io \<leftarrow> serial_write_buf dev COM1 bs (mio m); Some (m\<lparr>mio := io\<rparr>) }"

definition boot_early_console :: "device \<Rightarrow> machine \<Rightarrow> machine option" where
  "boot_early_console dev m = do {
     let m = m\<lparr>kern := (kern m)\<lparr>files := (files (kern m))\<lparr>wcon := fb_init (wcon (files (kern m)))\<rparr>\<rparr>\<rparr>;
     let m = m\<lparr>mio := serial_init COM1 1 (mio m)\<rparr>;
     m \<leftarrow> boot_log dev msg_booting m;
     Some (m\<lparr>kern := screen_puts msg_booting (kern m)\<rparr>)
   }"

definition boot_multiboot_ok :: "u32 \<Rightarrow> bool" where
  "boot_multiboot_ok magic \<longleftrightarrow> magic = MULTIBOOT_BOOTLOADER_MAGIC"

text \<open>The message for a wrong magic number.\<close>

definition msg_bad_magic :: "u32 \<Rightarrow> u8 list" where
  "msg_bad_magic magic = lit ''ERROR: Invalid multiboot magic: 0x'' @ itoa_hex magic @ [10]"

definition boot_mm_init :: "kernel \<Rightarrow> kernel option" where
  "boot_mm_init k = do {
     b \<leftarrow> pmm_init BOOT_PMM_PHYS_START BOOT_PMM_PHYS_END (buddy (vm k));
     let v = temp_mapping_init ((vm k)\<lparr>buddy := b\<rparr>);
     (h, b) \<leftarrow> kmalloc_init (wheap (files k)) (buddy v);
     Some (k\<lparr>vm := v\<lparr>buddy := b\<rparr>, files := (files k)\<lparr>wheap := h\<rparr>\<rparr>)
   }"

definition boot_kernel_subsystems_init :: "kernel \<Rightarrow> kernel" where
  "boot_kernel_subsystems_init k = process_init k"

definition boot_modules_from_mbi :: "multiboot_info \<Rightarrow> kernel \<Rightarrow> kernel" where
  "boot_modules_from_mbi mbi k =
     (if mbi_flags mbi AND BOOT_MBI_FLAG_MODULES \<noteq> 0
      then k\<lparr>files := loader_init (mbi_mods_count mbi) (mbi_mods mbi) (files k)\<rparr> else k)"

text \<open>
  The self test asks for the status of the demo module, reads it, writes to the console device and to
  standard output. The result lists what its messages say.
\<close>

definition test_filesystem_integration :: "image \<Rightarrow> world \<Rightarrow> (report list \<times> world) option" where
  "test_filesystem_integration im w = do {
     let (result, stat) = vfs_stat (Some BOOT_DEMO_USER_MODULE_NAME) (im_stat im) w;
     let r1 = (if result = 0 then [Numbers [st_size (the stat), st_mode (the stat), st_type (the stat)]]
               else [Error ''Cannot stat file'']);
     let (fd, w) = vfs_open (Some BOOT_DEMO_USER_MODULE_NAME) O_RDONLY w;
     (r2, w) \<leftarrow> (if sint fd \<ge> 0 then do {
                 let (bytes_read, w) = vfs_read fd (im_buffer im) (128 - 1) w;
                 (r, w) \<leftarrow> (if sint bytes_read > 0 then do {
                            let w = w\<lparr>wmem := (wmem w)(im_buffer im + bytes_read := 0)\<rparr>;
                            text \<leftarrow> printed_string (im_buffer im) (wmem w);
                            Some ([Numbers [bytes_read], Text text], w)
                          } else Some ([], w));
                 Some (r, snd (vfs_close fd w))
               } else Some ([Error ''Cannot open file''], w));
     let (console_fd, w) = vfs_open (Some [47, 100, 101, 118, 47, 99, 111, 110, 115, 111, 108, 101]) O_WRONLY w;
     (r3, w) \<leftarrow> (if sint console_fd \<ge> 0 then do {
                 n \<leftarrow> strlen (im_console_msg im) (wmem w);
                 let w = snd (vfs_write console_fd (im_console_msg im) n w);
                 Some ([Check True], snd (vfs_close console_fd w))
               } else Some ([Error ''Cannot open /dev/console''], w));
     n \<leftarrow> strlen (im_stdout_msg im) (wmem w);
     Some (r1 @ r2 @ r3, snd (vfs_write 1 (im_stdout_msg im) n w))
   }"

definition boot_filesystem_demo :: "image \<Rightarrow> kernel \<Rightarrow> (report list \<times> kernel) option" where
  "boot_filesystem_demo im k = do { (r, w) \<leftarrow> test_filesystem_integration im (files k); Some (r, k\<lparr>files := w\<rparr>) }"

definition boot_interrupts_and_input :: "image \<Rightarrow> device \<Rightarrow> machine \<Rightarrow> machine option" where
  "boot_interrupts_and_input im dev m = do {
     let (t, io) = isr_install dev (im_vectors im) (im_syscall_entry im) (im_idt im) (im_tss im) (im_esp im) (tabs m, mio m);
     m \<leftarrow> boot_log dev (im_log im 6) (m\<lparr>tabs := t, mio := io\<rparr>);
     io \<leftarrow> keyboard_init dev (mio m);
     Some (m\<lparr>mio := io\<rparr>)
   }"

definition boot_print_ready :: "device \<Rightarrow> machine \<Rightarrow> machine option" where
  "boot_print_ready dev m = do {
     m \<leftarrow> boot_log dev ([10] @ lit ''=== System Ready ==='' @ [10]) m;
     Some (m\<lparr>kern := screen_puts msg_ready (kern m)\<rparr>)
   }"

text \<open>The memory tests run when \<open>BOOT_DEMO_RUN_MEMORY_TESTS\<close> is set, here the argument \<open>tests\<close>.\<close>

definition boot_optional_memory_tests :: "image \<Rightarrow> bool \<Rightarrow> kernel \<Rightarrow> (report list \<times> kernel) option" where
  "boot_optional_memory_tests im tests k =
     (if tests then do {
        (r, v, h) \<leftarrow> run_all_memory_tests (im_phys_pages im) (im_virt_pages im) (im_literals im) (vm k, wheap (files k));
        Some (r, k\<lparr>vm := v, files := (files k)\<lparr>wheap := h\<rparr>\<rparr>)
      }
      else Some ([], k))"

text \<open>
  The second component is the call of \<open>switch_to_user_mode\<close>, when it is made. The call of \<open>vfs_stat\<close> is there
  for the log only.
\<close>

definition boot_user_demo :: "kernel \<Rightarrow> (kernel \<times> (u32 \<times> u32 \<times> u32) option) option" where
  "boot_user_demo k =
     (if loader_get_module_count (files k) = 0 then Some (screen_puts msg_no_modules k, None)
      else do {
        (p, k) \<leftarrow> process_create_from_module BOOT_DEMO_USER_MODULE_NAME k;
        if p \<noteq> 0 then Some (process_start p (screen_puts msg_starting k))
        else Some (k, None)
      })"

text \<open>
  One round of the idle loop without its log line; the loop halts the processor until the next interrupt
  and repeats.
\<close>

definition boot_idle_round :: "kernel \<Rightarrow> kernel" where
  "boot_idle_round k =
     (let (c, kb) = keyboard_get_char (wkbd (files k));
          k = k\<lparr>files := (files k)\<lparr>wkbd := kb\<rparr>\<rparr>
      in if c \<noteq> 0 then k\<lparr>files := (files k)\<lparr>wcon := fb_putchar c (wcon (files k))\<rparr>\<rparr> else k)"

section \<open>The whole start\<close>

text \<open>
  \<open>kmain\<close> up to the idle loop. The build decides whether the file-system tests and the user program
  run (\<open>demo\<close>, on by default) and the memory tests (\<open>tests\<close>, off by default). A wrong magic number ends
  it at once.
\<close>

definition kmain :: "image \<Rightarrow> device \<Rightarrow> bool \<Rightarrow> bool \<Rightarrow> u32 \<Rightarrow> multiboot_info \<Rightarrow> machine \<Rightarrow>
    (machine \<times> (u32 \<times> u32 \<times> u32) option) option" where
  "kmain im dev demo tests magic mbi m = do {
     m \<leftarrow> boot_early_console dev m;
     if \<not> boot_multiboot_ok magic then do { m \<leftarrow> boot_log dev (msg_bad_magic magic) m; Some (m, None) }
     else do {
       k \<leftarrow> boot_mm_init (kern m);
       m \<leftarrow> boot_log dev (im_log im 1) (m\<lparr>kern := k\<rparr>);
       m \<leftarrow> boot_log dev (im_log im 2) (m\<lparr>kern := boot_kernel_subsystems_init (kern m)\<rparr>);
       m \<leftarrow> boot_log dev (im_log im 3) (m\<lparr>kern := boot_modules_from_mbi mbi (kern m)\<rparr>);
       w \<leftarrow> boot_vfs_init (files (kern m));
       m \<leftarrow> boot_log dev (im_log im 4) (m\<lparr>kern := (kern m)\<lparr>files := w\<rparr>\<rparr>);
       (r, k) \<leftarrow> (if demo then boot_filesystem_demo im (kern m) else Some ([], kern m));
       m \<leftarrow> boot_log dev (im_log im 5) (m\<lparr>kern := k, printed := printed m @ r\<rparr>);
       m \<leftarrow> boot_interrupts_and_input im dev m;
       m \<leftarrow> boot_print_ready dev m;
       (r, k) \<leftarrow> boot_optional_memory_tests im tests (kern m);
       m \<leftarrow> boot_log dev (im_log im 7) (m\<lparr>kern := k, printed := printed m @ r\<rparr>);
       (k, c) \<leftarrow> (if demo then boot_user_demo (kern m) else Some (kern m, None));
       m \<leftarrow> boot_log dev (im_log im 8) (m\<lparr>kern := k\<rparr>);
       Some (m, c)
     }
   }"

section \<open>What the start leaves\<close>

lemma reach_calls:
  "vfs_reach w \<Longrightarrow> vfs_reach (snd (vfs_open p fl w))" "vfs_reach w \<Longrightarrow> vfs_reach (snd (vfs_close fd w))"
  "vfs_reach w \<Longrightarrow> vfs_reach (snd (vfs_read fd b n w))" "vfs_reach w \<Longrightarrow> vfs_reach (snd (vfs_write fd b n w))"
  "vfs_reach w \<Longrightarrow> vfs_reach (w\<lparr>wmem := m\<rparr>)" "vfs_reach w \<Longrightarrow> vfs_reach (w\<lparr>wcon := c\<rparr>)" "vfs_reach w \<Longrightarrow> vfs_reach (w\<lparr>wkbd := kb\<rparr>)"
  by (erule vfs_reach.step, rule vfs_step.intros vfs_outside)+

lemma reach_heap: "vfs_reach w \<Longrightarrow> vfs_reach (w\<lparr>wheap := h\<rparr>)"
  using vfs_reach.step [OF _ vfs_step.outside [where w = w and m = "wmem w" and k = "wkbd w" and c = "wcon w" and h = h]] by simp

lemma reach_steps: "vfs_reach w \<Longrightarrow> file_step w w' \<Longrightarrow> vfs_reach w'"
  by (auto simp: file_step_def intro: vfs_reach.step)

lemma test_filesystem_reach:
  "vfs_reach w \<Longrightarrow> test_filesystem_integration im w = Some (r, w') \<Longrightarrow> vfs_reach w'"
  unfolding test_filesystem_integration_def
  by (auto simp: Let_def case_prod_beta bind_eq_Some_conv reach_calls split: if_splits)

lemma create_files: "process_create_from_module name k = Some (r, k') \<Longrightarrow> files k' = files k"
  by (erule create_cases) simp_all

lemma start_files: "files (fst (process_start p k)) = files k"
  by (cases rule: process_start_cases [of p k]) simp_all

text \<open>The invariants of the file layer and of the process table together.\<close>

definition kernel_inv :: "kernel \<Rightarrow> bool" where
  "kernel_inv k \<longleftrightarrow> vfs_reach (files k) \<and> (\<exists>n. table_inv n k)"

lemma table_inv_files: "table_inv n k \<Longrightarrow> processes k' = processes k \<Longrightarrow> next_pid k' = next_pid k \<Longrightarrow>
  current_process k' = current_process k \<Longrightarrow> table_inv n k'"
  by (simp add: table_inv_def)

lemma kernel_inv_files: "kernel_inv k \<Longrightarrow> vfs_reach w \<Longrightarrow> kernel_inv (k\<lparr>files := w\<rparr>)"
  by (auto simp: kernel_inv_def table_inv_def)

lemma kernel_inv_screen: "kernel_inv k \<Longrightarrow> kernel_inv (screen_puts xs k)"
  unfolding screen_puts_def by (rule kernel_inv_files) (simp_all add: kernel_inv_def reach_calls)

lemma kernel_inv_create: "kernel_inv k \<Longrightarrow> process_create_from_module name k = Some (r, k') \<Longrightarrow> kernel_inv k'"
  using table_inv_create [of _ k name r k'] create_files [of name k r k'] by (auto simp: kernel_inv_def)

lemma kernel_inv_start: "kernel_inv k \<Longrightarrow> kernel_inv (fst (process_start p k))"
  using table_inv_start [of _ k p] by (auto simp: kernel_inv_def start_files)

lemma kernel_inv_user_demo:
  assumes inv: "kernel_inv k" and "boot_user_demo k = Some (k', c)"
  shows "kernel_inv k'"
proof (cases "loader_get_module_count (files k) = 0")
  case True
  then show ?thesis using assms kernel_inv_screen by (auto simp: boot_user_demo_def)
next
  case False
  then obtain p k1 where k1: "process_create_from_module BOOT_DEMO_USER_MODULE_NAME k = Some (p, k1)"
    and r: "(if p \<noteq> 0 then process_start p (screen_puts msg_starting k1) else (k1, None)) = (k', c)"
    using assms(2) by (auto simp: boot_user_demo_def bind_eq_Some_conv split: if_splits)
  have inv1: "kernel_inv k1" by (rule kernel_inv_create [OF inv k1])
  show ?thesis
  proof (cases "p = 0")
    case False
    then have "k' = fst (process_start p (screen_puts msg_starting k1))" using r by simp
    then show ?thesis using kernel_inv_start [OF kernel_inv_screen [OF inv1]] by simp
  qed (use r inv1 in simp)
qed

lemma kernel_inv_tests:
  assumes "kernel_inv k" and "boot_optional_memory_tests im tests k = Some (r, k')"
  shows "kernel_inv k'"
proof -
  obtain v h where "k' = k \<or> k' = k\<lparr>vm := v, files := (files k)\<lparr>wheap := h\<rparr>\<rparr>"
    using assms(2) by (auto simp: boot_optional_memory_tests_def bind_eq_Some_conv split: if_splits)
  then show ?thesis using assms(1) by (auto simp: kernel_inv_def table_inv_def reach_heap)
qed

lemma mm_init_table:
  "boot_mm_init k = Some k' \<Longrightarrow> next_pid k' = next_pid k \<and> current_process k' = current_process k \<and>
     files k' = (files k)\<lparr>wheap := wheap (files k')\<rparr>"
  by (auto simp: boot_mm_init_def bind_eq_Some_conv Let_def)

text \<open>A message changes the port log only; on a ready line it is sent, otherwise the call does not return.\<close>

lemma boot_logD: "boot_log dev bs m = Some m' \<Longrightarrow> kern m' = kern m \<and> tabs m' = tabs m \<and> printed m' = printed m"
  by (auto simp: boot_log_def bind_eq_Some_conv)

lemma boot_log_ready: "ready dev COM1 \<Longrightarrow> boot_log dev bs m = Some (m\<lparr>mio := the (serial_write_buf dev COM1 bs (mio m))\<rparr>)"
  using write_buf_returns [of dev COM1 bs "mio m"] by (auto simp: boot_log_def)

lemma early_never: "never_ready dev COM1 \<Longrightarrow> boot_early_console dev m = None"
  by (simp add: boot_early_console_def boot_log_def msg_booting_def Let_def write_buf_never del: serial_write_buf.simps)

text \<open>The state that the first message leaves, and the kernel after it.\<close>

definition early_kernel :: "kernel \<Rightarrow> kernel" where
  "early_kernel k = screen_puts msg_booting (k\<lparr>files := (files k)\<lparr>wcon := fb_init (wcon (files k))\<rparr>\<rparr>)"

lemma early_kernelD: "boot_early_console dev m = Some m' \<Longrightarrow> kern m' = early_kernel (kern m) \<and> printed m' = printed m"
  by (auto simp: boot_early_console_def bind_eq_Some_conv early_kernel_def Let_def dest!: boot_logD)

lemma early_kernel_same [simp]:
  "vm (early_kernel k) = vm k" "next_pid (early_kernel k) = next_pid k" "current_process (early_kernel k) = current_process k"
  "wheap (files (early_kernel k)) = wheap (files k)" "modules (files (early_kernel k)) = modules (files k)"
  "wmem (files (early_kernel k)) = wmem (files k)"
  by (simp_all add: early_kernel_def screen_puts_def)

lemma interrupts_kern: "boot_interrupts_and_input im dev m = Some m' \<Longrightarrow> kern m' = kern m \<and> printed m' = printed m"
  by (auto simp: boot_interrupts_and_input_def Let_def case_prod_beta bind_eq_Some_conv dest!: boot_logD)

lemma print_ready_kern: "boot_print_ready dev m = Some m' \<Longrightarrow> kern m' = screen_puts msg_ready (kern m) \<and> printed m' = printed m"
  by (auto simp: boot_print_ready_def bind_eq_Some_conv dest!: boot_logD)

text \<open>The stages of a start that came to an end.\<close>

lemma kmain_stages:
  assumes "kmain im dev demo tests magic mbi m = Some (m', c)" and "boot_multiboot_ok magic"
  obtains k1 w r k4 r' k6 where "boot_mm_init (early_kernel (kern m)) = Some k1"
    and "boot_vfs_init (files (boot_modules_from_mbi mbi (boot_kernel_subsystems_init k1))) = Some w"
    and "(if demo then boot_filesystem_demo im ((boot_modules_from_mbi mbi (boot_kernel_subsystems_init k1))\<lparr>files := w\<rparr>)
          else Some ([], (boot_modules_from_mbi mbi (boot_kernel_subsystems_init k1))\<lparr>files := w\<rparr>)) = Some (r, k4)"
    and "boot_optional_memory_tests im tests (screen_puts msg_ready k4) = Some (r', k6)"
    and "(if demo then boot_user_demo k6 else Some (k6, None)) = Some (kern m', c)"
    and "printed m' = printed m @ r @ r'"
proof -
  obtain m0 where m0: "boot_early_console dev m = Some m0" using assms by (auto simp: kmain_def bind_eq_Some_conv)
  obtain k1 m1 where m1: "boot_mm_init (kern m0) = Some k1" "boot_log dev (im_log im 1) (m0\<lparr>kern := k1\<rparr>) = Some m1"
    using assms m0 by (auto simp: kmain_def bind_eq_Some_conv)
  obtain m2 where m2: "boot_log dev (im_log im 2) (m1\<lparr>kern := boot_kernel_subsystems_init (kern m1)\<rparr>) = Some m2"
    using assms m0 m1 by (auto simp: kmain_def bind_eq_Some_conv)
  obtain m3 where m3: "boot_log dev (im_log im 3) (m2\<lparr>kern := boot_modules_from_mbi mbi (kern m2)\<rparr>) = Some m3"
    using assms m0 m1 m2 by (auto simp: kmain_def bind_eq_Some_conv)
  obtain w m4 where m4: "boot_vfs_init (files (kern m3)) = Some w"
    "boot_log dev (im_log im 4) (m3\<lparr>kern := (kern m3)\<lparr>files := w\<rparr>\<rparr>) = Some m4"
    using assms m0 m1 m2 m3 by (auto simp: kmain_def bind_eq_Some_conv)
  obtain r k4 m5 where m5: "(if demo then boot_filesystem_demo im (kern m4) else Some ([], kern m4)) = Some (r, k4)"
    "boot_log dev (im_log im 5) (m4\<lparr>kern := k4, printed := printed m4 @ r\<rparr>) = Some m5"
    using assms m0 m1 m2 m3 m4 by (auto simp: kmain_def bind_eq_Some_conv)
  obtain m6 m7 where m7: "boot_interrupts_and_input im dev m5 = Some m6" "boot_print_ready dev m6 = Some m7"
    using assms m0 m1 m2 m3 m4 m5 by (auto simp: kmain_def bind_eq_Some_conv)
  obtain r' k6 m8 where m8: "boot_optional_memory_tests im tests (kern m7) = Some (r', k6)"
    "boot_log dev (im_log im 7) (m7\<lparr>kern := k6, printed := printed m7 @ r'\<rparr>) = Some m8"
    using assms m0 m1 m2 m3 m4 m5 m7 by (auto simp: kmain_def bind_eq_Some_conv)
  obtain k where k: "(if demo then boot_user_demo (kern m8) else Some (kern m8, None)) = Some (k, c)"
    "boot_log dev (im_log im 8) (m8\<lparr>kern := k\<rparr>) = Some m'"
    using assms m0 m1 m2 m3 m4 m5 m7 m8 by (auto simp: kmain_def bind_eq_Some_conv)
  note e0 = early_kernelD [OF m0] and e1 = boot_logD [OF m1(2)] and e2 = boot_logD [OF m2] and e3 = boot_logD [OF m3]
    and e4 = boot_logD [OF m4(2)] and e5 = boot_logD [OF m5(2)] and e6 = interrupts_kern [OF m7(1)]
    and e7 = print_ready_kern [OF m7(2)] and e8 = boot_logD [OF m8(2)] and e9 = boot_logD [OF k(2)]
  have k3: "kern m3 = boot_modules_from_mbi mbi (boot_kernel_subsystems_init k1)" using e1 e2 e3 by simp
  have k7: "kern m7 = screen_puts msg_ready k4" using e5 e6 e7 by simp
  show thesis
  proof (rule that)
    show "boot_mm_init (early_kernel (kern m)) = Some k1" using m1(1) e0 by simp
    show "boot_vfs_init (files (boot_modules_from_mbi mbi (boot_kernel_subsystems_init k1))) = Some w" using m4(1) k3 by simp
    show "(if demo then boot_filesystem_demo im ((boot_modules_from_mbi mbi (boot_kernel_subsystems_init k1))\<lparr>files := w\<rparr>)
          else Some ([], (boot_modules_from_mbi mbi (boot_kernel_subsystems_init k1))\<lparr>files := w\<rparr>)) = Some (r, k4)"
      using m5(1) e4 k3 by (cases demo) auto
    show "boot_optional_memory_tests im tests (screen_puts msg_ready k4) = Some (r', k6)" using m8(1) k7 by simp
    show "(if demo then boot_user_demo k6 else Some (k6, None)) = Some (kern m', c)" using k(1) e8 e9 by (cases demo) auto
    show "printed m' = printed m @ r @ r'" using e0 e1 e2 e3 e4 e5 e6 e7 e8 e9 by simp
  qed
qed

lemma kmain_inv:
  assumes run: "kmain im dev demo tests magic mbi m = Some (m', c)" and "boot_multiboot_ok magic"
    and "next_pid (kern m) = 1" and "current_process (kern m) = None"
  shows "kernel_inv (kern m')"
  using run assms(2)
proof (cases rule: kmain_stages)
  case (1 k1 w r k4 r' k6)
  let ?k2 = "boot_modules_from_mbi mbi (boot_kernel_subsystems_init k1)"
  have "table_inv 0 (boot_kernel_subsystems_init k1)"
    unfolding boot_kernel_subsystems_init_def using mm_init_table [OF 1(1)] assms(3,4) by (intro process_init_inv) simp_all
  then have "table_inv 0 ?k2" by (simp add: boot_modules_from_mbi_def table_inv_def)
  moreover have reach: "vfs_reach w" using 1(2) by (rule vfs_reach.boot)
  ultimately have inv3: "kernel_inv (?k2\<lparr>files := w\<rparr>)" by (auto simp: kernel_inv_def table_inv_def)
  have "kernel_inv k4"
  proof (cases demo)
    case True
    then obtain w' where "test_filesystem_integration im w = Some (r, w')" "k4 = ?k2\<lparr>files := w'\<rparr>"
      using 1(3) by (auto simp: boot_filesystem_demo_def bind_eq_Some_conv)
    then show ?thesis using inv3 test_filesystem_reach [OF reach] by (auto simp: kernel_inv_def table_inv_def)
  qed (use 1(3) inv3 in simp)
  then have "kernel_inv k6" by (rule kernel_inv_tests [OF kernel_inv_screen 1(4)])
  then show ?thesis using 1(5) kernel_inv_user_demo [of k6 "kern m'" c] by (cases demo) auto
qed

section \<open>Memory after the start\<close>

lemma temp_mapping_init_inv:
  assumes "kernel_tables (cr3 s) T (pmem s)"
  shows "temp_inv (cr3 s) T no_slots (temp_mapping_init s)"
proof -
  have "k = 0 \<or> k = 1 \<or> k = 2 \<or> k = 3" if "k < 4" for k :: nat using that by auto
  then have "(15 :: u32) AND 2 ^ k \<noteq> 0" if "k < 4" for k using that by fastforce
  then show ?thesis using assms by (simp add: temp_inv_def temp_mapping_init_def Let_def upt_conv_Cons)
qed

lemma temp_mapping_init_rest: "buddy (temp_mapping_init s) = buddy s" "pmem (temp_mapping_init s) = pmem s"
  by (simp_all add: temp_mapping_init_def Let_def upt_conv_Cons)

lemma boot_mm_ok:
  assumes "buddy (vm k) = buddy_bss" and tab: "kernel_tables (cr3 (vm k)) T (pmem (vm k))"
    and "pfn (cr3 (vm k)) < 0x1800" and "pfn T < 0x1800"
  obtains k' where "boot_mm_init k = Some k'"
    and "heap_inv 0x02000000 0x02100000 (wheap (files k')) [(0x02000000, 0x100000, True)]"
    and "vm_ok (cr3 (vm k)) T no_slots 0x01000000 ({0x1800..<0x2800} - {0x2000..<0x2100}) (vm k')"
    and "managed_pages (buddy (vm k')) = 4096" and "hbytes (wheap (files k')) = hbytes (wheap (files k))"
proof -
  obtain b0 where b0: "pmm_init 0x01000000 0x02000000 buddy_bss = Some b0" "buddy_inv b0 (init_blocks 0x01800000 2)"
    "base_addr b0 = 0x01000000" "free_frames (init_blocks 0x01800000 2) = {0x1800..<0x2800}" "managed_pages b0 = 4096"
    by (rule boot_blocks)
  have ok0: "pmm_ok 0x01000000 {0x1800..<0x2800} b0" using b0 by (auto simp: pmm_ok_def)
  have "\<exists>s1 s2. pmm_init 0x01000000 0x02000000 buddy_bss = Some s1 \<and> pmm_alloc_pages 8 s1 = Some (0x02000000, s2)"
    by (rule first_page_is_memory_end [where n = 2]) (simp_all add: aligned_def)
  then obtain b1 where b1: "pmm_alloc_pages 8 b0 = Some (0x02000000, b1)" using b0(1) by auto
  have "pmm_ok 0x01000000 ({0x1800..<0x2800} - frames (unat (8 :: u32)) 0x02000000) b1"
    using pa.alloc_block [OF ok0 b1] by simp
  then have ok1: "pmm_ok 0x01000000 ({0x1800..<0x2800} - {0x2000..<0x2100}) b1" by (simp add: frames_def pfn_def)
  have nz: "(0x02000000 :: u32) \<noteq> 0" and al: "aligned 8 0x02000000" and sm: "unat (0x02000000 :: u32) + 0x100000 < 2 ^ 32"
    by (simp_all add: aligned_def)
  obtain h where h: "kmalloc_init (wheap (files k)) b0 = Some (h, b1)"
    "heap_inv (unat (0x02000000 :: u32)) (unat (0x02000000 :: u32) + 0x100000) h [(0x02000000, 0x100000, True)]"
    using kmalloc_init_rep [OF b1 nz al sm] by blast
  let ?v = "temp_mapping_init ((vm k)\<lparr>buddy := b0\<rparr>)"
  have "temp_inv (cr3 (vm k)) T no_slots ?v"
    using temp_mapping_init_inv [of "(vm k)\<lparr>buddy := b0\<rparr>"] tab by simp
  then have "vm_ok (cr3 (vm k)) T no_slots 0x01000000 ({0x1800..<0x2800} - {0x2000..<0x2100}) (?v\<lparr>buddy := b1\<rparr>)"
    using ok1 assms(3,4) by (simp add: vm_ok_def temp_inv_def)
  moreover have "boot_mm_init k = Some (k\<lparr>vm := ?v\<lparr>buddy := b1\<rparr>, files := (files k)\<lparr>wheap := h\<rparr>\<rparr>)"
    using b0(1) h(1) assms(1) by (simp add: boot_mm_init_def Let_def temp_mapping_init_rest)
  moreover have "managed_pages b1 = 4096" using managed_alloc [OF b1] b0(5) by simp
  moreover have "hbytes h = hbytes (wheap (files k))" using h(1) by (auto simp: kmalloc_init_def Let_def bind_eq_Some_conv upd_hdr_def)
  ultimately show thesis using that h(2) by simp
qed

section \<open>The start comes to an end\<close>

text \<open>A state that the boot loader leaves: zeroed data and the kernel's tables.\<close>

definition boot_state :: "u32 \<Rightarrow> machine \<Rightarrow> bool" where
  "boot_state T m \<longleftrightarrow> buddy (vm (kern m)) = buddy_bss \<and> kernel_tables (cr3 (vm (kern m))) T (pmem (vm (kern m))) \<and>
     pfn (cr3 (vm (kern m))) < 0x1800 \<and> pfn T < 0x1800 \<and> modules (files (kern m)) = [] \<and>
     next_pid (kern m) = 1 \<and> current_process (kern m) = None"

text \<open>The memory tests after the start, when the file systems hold two blocks of the heap.\<close>

lemma boot_frame_room: "frame_room 0x01000000 7 ({0x1800..<0x2800} - {0x2000..<0x2100})"
proof -
  have "good_block 0x01000000 (7, 0x01800000)" by (simp add: good_block_def aligned_def)
  moreover have "frames 7 0x01800000 \<subseteq> {0x1800..<0x2800} - {0x2000..<0x2100}" by (auto simp: frames_def pfn_def)
  ultimately show ?thesis unfolding frame_room_def by blast
qed

lemma two_small_blocks:
  assumes "heap_inv lo hi s [(a, n, True)]" and "0x8100 \<le> n" and "literals_in lo hi l (hbytes s)"
  obtains p h1 q h2 bs where "kmalloc 24 s = Some (p, h1)" and "p \<noteq> 0" and "kmalloc 24 h1 = Some (q, h2)" and "q \<noteq> 0"
    and "heap_inv lo hi h2 bs" and "\<exists>c m. (c, m, True) \<in> set bs \<and> 0x8000 \<le> m" and "literals_in lo hi l (hbytes h2)"
proof -
  have room: "heap_room lo hi {} n s"
    unfolding heap_room_def using assms(1) by (intro exI [of _ "[(a, n, True)]"]) (simp add: used_blocks_def)
  obtain p S h1 where p: "kmalloc 24 s = Some (p, h1)" "heap_room lo hi (S \<union> {}) (n - 79) h1"
    "same_outside lo hi (hbytes s) (hbytes h1)" "79 \<le> n \<Longrightarrow> p \<noteq> 0"
    by (rule room_alloc_if [OF room, of 24 24 79]) auto
  obtain q S' h2 where q: "kmalloc 24 h1 = Some (q, h2)" "heap_room lo hi (S' \<union> (S \<union> {})) (n - 79 - 79) h2"
    "same_outside lo hi (hbytes h1) (hbytes h2)" "79 \<le> n - 79 \<Longrightarrow> q \<noteq> 0"
    by (rule room_alloc_if [OF p(2), of 24 24 79]) auto
  have "heap_room lo hi (S' \<union> (S \<union> {})) 0x8000 h2" using assms(2) by (intro room_mono [OF q(2)]) simp
  then obtain bs where "heap_inv lo hi h2 bs" "\<exists>c m. (c, m, True) \<in> set bs \<and> 0x8000 \<le> m" by (auto simp: heap_room_def)
  moreover have "literals_in lo hi l (hbytes h2)"
    by (rule literals_keep [OF literals_keep [OF assms(3) p(3)] q(3)])
  ultimately show thesis using that p(1,4) q(1,4) assms(2) by simp
qed

text \<open>The literals of the tests are in the kernel image, outside the heap.\<close>

definition test_literals_ok :: "image \<Rightarrow> machine \<Rightarrow> bool" where
  "test_literals_ok im m \<longleftrightarrow> literals_in 0x02000000 0x02100000 (im_literals im) (hbytes (wheap (files (kern m))))"

text \<open>On a ready line, with a controller that keeps its output buffer empty, no message and no wait is in the way.\<close>

lemma kmain_on_ready_line:
  assumes line: "ready dev COM1" and dev: "\<And>io. dev io 0x64 AND 0x01 = 0" and ok: "boot_multiboot_ok magic"
    and "boot_mm_init (early_kernel (kern m)) = Some k1"
    and "boot_vfs_init (files (boot_modules_from_mbi mbi (boot_kernel_subsystems_init k1))) = Some w"
    and "(if demo then boot_filesystem_demo im ((boot_modules_from_mbi mbi (boot_kernel_subsystems_init k1))\<lparr>files := w\<rparr>)
          else Some ([], (boot_modules_from_mbi mbi (boot_kernel_subsystems_init k1))\<lparr>files := w\<rparr>)) = Some (r, k4)"
    and "boot_optional_memory_tests im tests (screen_puts msg_ready k4) = Some (r', k6)"
    and "(if demo then boot_user_demo k6 else Some (k6, None)) = Some (k7, c)"
  obtains m' where "kmain im dev demo tests magic mbi m = Some (m', c)" and "kern m' = k7" and "printed m' = printed m @ r @ r'"
proof -
  note log = boot_log_ready [OF line]
  have early: "\<exists>m0. boot_early_console dev m = Some m0"
    using log by (simp add: boot_early_console_def Let_def)
  have ints: "\<exists>m'. boot_interrupts_and_input im dev m = Some m'" for m
  proof -
    let ?t = "isr_install dev (im_vectors im) (im_syscall_entry im) (im_idt im) (im_tss im) (im_esp im) (tabs m, mio m)"
    obtain m1 where m1: "boot_log dev (im_log im 6) (m\<lparr>tabs := fst ?t, mio := snd ?t\<rparr>) = Some m1" using log by blast
    obtain io where "keyboard_init dev (mio m1) = Some io" using keyboard_init_returns [OF line dev] by blast
    with m1 show ?thesis by (simp add: boot_interrupts_and_input_def case_prod_beta Let_def)
  qed
  have ready: "\<exists>m'. boot_print_ready dev m = Some m'" for m
    using log by (simp add: boot_print_ready_def)
  obtain m0 where m0: "boot_early_console dev m = Some m0" using early by blast
  obtain m1 where m1: "boot_log dev (im_log im 1) (m0\<lparr>kern := k1\<rparr>) = Some m1" using log by blast
  obtain m2 where m2: "boot_log dev (im_log im 2) (m1\<lparr>kern := boot_kernel_subsystems_init (kern m1)\<rparr>) = Some m2" using log by blast
  obtain m3 where m3: "boot_log dev (im_log im 3) (m2\<lparr>kern := boot_modules_from_mbi mbi (kern m2)\<rparr>) = Some m3" using log by blast
  obtain m4 where m4: "boot_log dev (im_log im 4) (m3\<lparr>kern := (kern m3)\<lparr>files := w\<rparr>\<rparr>) = Some m4" using log by blast
  obtain m5 where m5: "boot_log dev (im_log im 5) (m4\<lparr>kern := k4, printed := printed m4 @ r\<rparr>) = Some m5" using log by blast
  obtain m6 where m6: "boot_interrupts_and_input im dev m5 = Some m6" using ints by blast
  obtain m7 where m7: "boot_print_ready dev m6 = Some m7" using ready by blast
  obtain m8 where m8: "boot_log dev (im_log im 7) (m7\<lparr>kern := k6, printed := printed m7 @ r'\<rparr>) = Some m8" using log by blast
  obtain m9 where m9: "boot_log dev (im_log im 8) (m8\<lparr>kern := k7\<rparr>) = Some m9" using log by blast
  note e = early_kernelD [OF m0] boot_logD [OF m1] boot_logD [OF m2] boot_logD [OF m3] boot_logD [OF m4] boot_logD [OF m5]
    interrupts_kern [OF m6] print_ready_kern [OF m7] boot_logD [OF m8] boot_logD [OF m9]
  have k: "kern m0 = early_kernel (kern m)" "kern m3 = boot_modules_from_mbi mbi (boot_kernel_subsystems_init k1)"
    "kern m4 = (boot_modules_from_mbi mbi (boot_kernel_subsystems_init k1))\<lparr>files := w\<rparr>"
    "kern m7 = screen_puts msg_ready k4" "kern m8 = k6" "kern m9 = k7" "printed m9 = printed m @ r @ r'"
    using e by simp_all
  have calls: "boot_mm_init (kern m0) = Some k1" "boot_vfs_init (files (kern m3)) = Some w"
    "(if demo then boot_filesystem_demo im (kern m4) else Some ([], kern m4)) = Some (r, k4)"
    "boot_optional_memory_tests im tests (kern m7) = Some (r', k6)"
    "(if demo then boot_user_demo (kern m8) else Some (kern m8, None)) = Some (k7, c)"
    unfolding k by (rule assms)+
  have "kmain im dev demo tests magic mbi m = Some (m9, c)"
    using ok by (simp only: kmain_def m0 calls m1 m2 m3 m4 m5 m6 m7 m8 m9 Option.bind.simps simp_thms if_False prod.case)
  then show thesis by (rule that) (rule k)+
qed

lemma kmain_returns:
  assumes m: "boot_state T m" and magic: "boot_multiboot_ok magic" and line: "ready dev COM1"
    and dev: "\<And>io. dev io 0x64 AND 0x01 = 0" and lits: "tests \<Longrightarrow> test_literals_ok im m"
  obtains m' where "kmain im dev False tests magic mbi m = Some (m', None)"
    and "fs_list (files (kern m')) = [\<lparr>fs_name = devfs_name, fs_table = Devfs_ops\<rparr>, \<lparr>fs_name = ramfs_name, fs_table = Ramfs_ops\<rparr>]"
    and "ramfs_files (files (kern m')) =
      (if mbi_flags mbi AND 8 = 0 then [] else map module_file (modules (loader_init (mbi_mods_count mbi) (mbi_mods mbi) world_bss)))"
proof -
  let ?k = "early_kernel (kern m)" and ?F = "{0x1800..<0x2800} - {0x2000..<0x2100} :: nat set"
  obtain k1 where k1: "boot_mm_init ?k = Some k1"
    "heap_inv 0x02000000 0x02100000 (wheap (files k1)) [(0x02000000, 0x100000, True)]"
    "vm_ok (cr3 (vm ?k)) T no_slots 0x01000000 ?F (vm k1)" "managed_pages (buddy (vm k1)) = 4096"
    "hbytes (wheap (files k1)) = hbytes (wheap (files (kern m)))"
    using m by (auto simp: boot_state_def intro: boot_mm_ok [of ?k T])
  have mods1: "modules (files k1) = []"
    using mm_init_table [OF k1(1)] m by (metis boot_state_def early_kernel_same(5) world.ext_inject world.surjective world.update_convs(4))
  let ?k2 = "boot_modules_from_mbi mbi (boot_kernel_subsystems_init k1)"
  have heap: "wheap (files ?k2) = wheap (files k1)" and vm2: "vm ?k2 = vm k1"
    by (simp_all add: boot_modules_from_mbi_def boot_kernel_subsystems_init_def process_init_def loader_init_def Let_def)
  obtain p h1 q h2 where h: "kmalloc 24 (wheap (files k1)) = Some (p, h1)" "p \<noteq> 0" "kmalloc 24 h1 = Some (q, h2)" "q \<noteq> 0"
    by (rule heap_two_small [of "0x02000000" "wheap (files k1)"]) (use k1(2) in simp)
  have mods: "modules (files ?k2) = (if mbi_flags mbi AND 8 = 0 then [] else modules (loader_init (mbi_mods_count mbi) (mbi_mods mbi) world_bss))"
    using mods1 by (simp add: boot_modules_from_mbi_def boot_kernel_subsystems_init_def process_init_def loader_init_def Let_def)
  have len: "length (modules (files ?k2)) \<le> 16" unfolding mods using loader_module_count by simp
  obtain w where w: "boot_vfs_init (files ?k2) = Some w"
    "fs_list w = [\<lparr>fs_name = devfs_name, fs_table = Devfs_ops\<rparr>, \<lparr>fs_name = ramfs_name, fs_table = Ramfs_ops\<rparr>]"
    "ramfs_files w = map module_file (modules (files ?k2))"
    by (rule boot_result [OF h(1) [folded heap] h(2-4) len])
  have wh: "wheap w = h2" by (rule boot_result_heap [OF h(1) [folded heap] h(2-4) len w(1)])
  let ?k3 = "screen_puts msg_ready (?k2\<lparr>files := w\<rparr>)"
  have k3: "vm ?k3 = vm k1" "wheap (files ?k3) = h2" "fs_list (files ?k3) = fs_list w" "ramfs_files (files ?k3) = ramfs_files w"
    using vm2 wh by (simp_all add: screen_puts_def)
  obtain r' k4 where k4: "boot_optional_memory_tests im tests ?k3 = Some (r', k4)" "fs_list (files k4) = fs_list w"
    "ramfs_files (files k4) = ramfs_files w"
  proof (cases tests)
    case False
    then show thesis using that [of "[]" ?k3] k3 by (simp add: boot_optional_memory_tests_def)
  next
    case True
    have lit: "literals_in 0x02000000 0x02100000 (im_literals im) (hbytes (wheap (files k1)))"
      using lits [OF True] k1(5) by (simp add: test_literals_ok_def)
    obtain bs c n where bs: "heap_inv 0x02000000 0x02100000 h2 bs" "(c, n, True) \<in> set bs" "0x8000 \<le> n"
      "literals_in 0x02000000 0x02100000 (im_literals im) (hbytes h2)"
      by (rule two_small_blocks [OF k1(2) _ lit]) (use h in auto)
    obtain r v' h' where "run_all_memory_tests (im_phys_pages im) (im_virt_pages im) (im_literals im) (vm k1, h2) = Some (r, v', h')"
      using memory_tests_ok [OF k1(3) _ boot_frame_room bs(1,4,2,3), where jp = "im_phys_pages im" and jv = "im_virt_pages im"]
        k1(4) by auto
    then show thesis using that k3 True by (simp add: boot_optional_memory_tests_def)
  qed
  obtain m' where "kmain im dev False tests magic mbi m = Some (m', None)" "kern m' = k4"
    by (rule kmain_on_ready_line [where demo = False, OF line dev magic k1(1) w(1) _ k4(1)]) simp_all
  then show thesis using that [of m'] w(2,3) mods k4(2,3) by simp
qed

end
