(* ===== verification/BootDemo.thy ===== *)
theory BootDemo
  imports Boot
begin

text \<open>
  The start as it is built by default: \<open>kmain\<close> with the demos runs the self test of the file layer and
  then starts the user program.
\<close>

section \<open>The self test of the file layer\<close>

text \<open>A descriptor of a RAM file: reading and closing it leave the other descriptors and the devices alone.\<close>

definition ram_descriptor :: "world \<Rightarrow> u32 \<Rightarrow> u32 \<Rightarrow> bool" where
  "ram_descriptor w fd h \<longleftrightarrow> \<not> vfs_bad fd w \<and> (\<exists>name p r. open_files w (unat fd) =
     \<lparr>fh_fs = Some \<lparr>fs_name = name, fs_table = Ramfs_ops\<rparr>, fh_private = h, fh_pos = p, fh_flags = O_RDONLY, fh_ref = r\<rparr>)"

definition others_same :: "u32 \<Rightarrow> world \<Rightarrow> world \<Rightarrow> bool" where
  "others_same fd w w' \<longleftrightarrow> devfs_handles w' = devfs_handles w \<and> fs_list w' = fs_list w \<and> modules w' = modules w \<and>
     (\<forall>i. i \<noteq> unat fd \<longrightarrow> open_files w' i = open_files w i)"

lemma others_trans: "others_same fd u v \<Longrightarrow> others_same fd v w \<Longrightarrow> others_same fd u w"
  by (simp add: others_same_def)

lemma add_pos_others: "others_same fd w (add_pos fd r w)"
  by (simp add: others_same_def add_pos_def set_fh_def Let_def)

lemma ram_read_others:
  assumes "ram_descriptor w fd h"
  shows "others_same fd w (snd (vfs_read fd b n w)) \<and> ram_descriptor (snd (vfs_read fd b n w)) fd h"
proof -
  let ?r = "ramfs_read h b n w"
  have same: "devfs_handles (snd ?r) = devfs_handles w" "fs_list (snd ?r) = fs_list w" "modules (snd ?r) = modules w"
    "open_files (snd ?r) = open_files w"
    by (simp_all add: ramfs_read_def set_ramfs_pos_def Let_def)
  have "snd (vfs_read fd b n w) = add_pos fd (fst ?r) (snd ?r)"
    using assms by (auto simp: vfs_read_def ram_descriptor_def fs_read_def case_prod_beta)
  moreover have "others_same fd w (snd ?r)" using same by (simp add: others_same_def)
  moreover have "ram_descriptor (snd ?r) fd h" using assms same(4) by (simp add: ram_descriptor_def vfs_bad_def)
  then have "ram_descriptor (add_pos fd e (snd ?r)) fd h" for e
    by (auto simp: ram_descriptor_def vfs_bad_def add_pos_def set_fh_def Let_def)
  ultimately show ?thesis using add_pos_others others_trans by metis
qed

lemma ram_close_others: "ram_descriptor w fd h \<Longrightarrow> others_same fd w (snd (vfs_close fd w))"
  by (auto simp: vfs_close_def ram_descriptor_def others_same_def set_fh_def fs_close_def ramfs_close_def Let_def)

lemma others_wmem: "others_same fd u (w\<lparr>wmem := m\<rparr>) = others_same fd u w" "ram_descriptor (w\<lparr>wmem := m\<rparr>) fd h = ram_descriptor w fd h"
  by (simp_all add: others_same_def ram_descriptor_def vfs_bad_def)

text \<open>Opening \<open>/dev/console\<close> needs a free descriptor and a free handle.\<close>

lemma console_opens:
  assumes "vfs_find_registered devfs_name w = Some fs" and "fs_table fs = Devfs_ops"
    and "fh_ref (open_files w 4) = 0" and "dh_device (devfs_handles w 0) = 0"
  shows "0 \<le> sint (fst (vfs_open (Some [47, 100, 101, 118, 47, 99, 111, 110, 115, 111, 108, 101]) fl w))"
proof -
  obtain n where n: "free_slot (\<lambda>i. fh_ref (open_files w i) = 0) 3 = Some n"
    using free_slot_None [of "\<lambda>i. fh_ref (open_files w i) = 0" 3] assms(3) by fastforce
  then have "n < 32" using free_slot_Some by blast
  moreover have "free_slot (\<lambda>i. dh_device (devfs_handles w i) = 0) 0 = Some 0" by (rule first_free) (simp_all add: assms(4))
  ultimately show ?thesis using n assms(1,2)
    by (simp add: vfs_open_def vfs_resolve_fs_def fs_open_def devfs_open_def devfs_resolve_device_def Let_def sint_of_nat_slot)
qed

text \<open>What \<open>%s\<close> prints of a buffer that ends with a NUL.\<close>

lemma printed_string_takeWhile:
  assumes "\<And>i. i < length xs \<Longrightarrow> m (p + of_nat i) = xs ! i" and "m (p + of_nat (length xs)) = 0"
  shows "printed_string p m = Some (takeWhile (\<lambda>c. c \<noteq> 0) xs)"
  using assms
proof (induction xs arbitrary: p)
  case Nil
  then show ?case by (subst printed_string.simps) simp
next
  case (Cons x xs)
  have x: "m p = x" using Cons.prems(1) [of 0] by simp
  have "printed_string (p + 1) m = Some (takeWhile (\<lambda>c. c \<noteq> 0) xs)"
    using Cons.prems(1) [of "Suc _"] Cons.prems(2) by (intro Cons.IH) (simp_all add: add.assoc)
  with x show ?case by (subst printed_string.simps) simp
qed

text \<open>What the self test reports for the demo module: its size, its mode, the first 127 bytes up to a NUL.\<close>

definition self_test_report :: "module_info \<Rightarrow> mem \<Rightarrow> report list" where
  "self_test_report md m = [Numbers [mod_size md, 0x124, FT_REGULAR]] @
     (if mod_size md = 0 then []
      else [Numbers [min 127 (mod_size md)],
        Text (takeWhile (\<lambda>c. c \<noteq> 0) (map (\<lambda>i. m (mod_start md + of_nat i)) [0..<min 127 (unat (mod_size md))]))]) @
     [Check True]"

lemma stat_module:
  assumes "ramfs_find_file path w = Some i" and "ramfs_files w ! i = module_file md" and "take 5 path \<noteq> [47, 100, 101, 118, 47]"
    and "vfs_find_registered ramfs_name w = Some fs" and "fs_table fs = Ramfs_ops" and "p \<noteq> 0"
  obtains st where "vfs_stat (Some path) p w = (0, Some st)" and "st_size st = mod_size md" and "st_mode st = 0x124"
    and "st_type st = FT_REGULAR"
  using assms by (simp add: vfs_stat_def vfs_resolve_fs_def fs_stat_def ramfs_stat_def Let_def module_file_def)

text \<open>The status, the first descriptor and the first read after boot.\<close>

lemma first_module_calls:
  assumes w0: "w0 = loader_init mods_count grub v" and md: "loader_find_module name w0 = Some md"
    and heap: "kmalloc 24 (wheap w0) = Some (p, h1)" "p \<noteq> 0" "kmalloc 24 h1 = Some (q, h2)" "q \<noteq> 0"
    and name: "dropWhile (\<lambda>c. c = 47) name = name" "take 5 name \<noteq> [47, 100, 101, 118, 47]"
    and bounds: "unat (mod_start md) + unat (mod_size md) \<le> 2 ^ 32" "unat buf + unat count \<le> 2 ^ 32" "stat \<noteq> 0"
    and apart: "unat buf + unat count \<le> unat (mod_start md) \<or> unat (mod_start md) + unat (mod_size md) \<le> unat buf"
    and w: "boot_vfs_init w0 = Some w"
  obtains st w2 w3 n where "vfs_stat (Some name) stat w = (0, Some st)" and "st_size st = mod_size md" and "st_mode st = 0x124"
    and "st_type st = FT_REGULAR" and "vfs_open (Some name) O_RDONLY w = (3, w2)" and "vfs_read 3 buf count w2 = (of_nat n, w3)"
    and "n = min (unat count) (unat (mod_size md))"
    and "\<forall>i<n. wmem w3 (buf + of_nat i) = wmem w0 (mod_start md + of_nat i)"
    and "wmem w = wmem w0" and "wmem w2 = wmem w0" and "ram_descriptor w2 3 0" and "modules w2 = modules w"
    and "vfs_find_registered devfs_name w2 = Some \<lparr>fs_name = devfs_name, fs_table = Devfs_ops\<rparr>"
    and "fh_ref (open_files w2 4) = 0" and "dh_device (devfs_handles w2 0) = 0"
proof -
  obtain w2 w3 n where r: "wmem w = wmem w0" "vfs_open (Some name) O_RDONLY w = (3, w2)" "vfs_read 3 buf count w2 = (of_nat n, w3)"
    "n = min (unat count) (unat (mod_size md))" "\<forall>i<n. wmem w3 (buf + of_nat i) = wmem w0 (mod_start md + of_nat i)"
    using boot_read_module [OF w0 md heap name bounds(1,2) apart] w by auto
  have "length (modules w0) \<le> 16" using loader_module_count w0 by simp
  then obtain w1 where "boot_vfs_init w0 = Some w1"
    "fs_list w1 = [\<lparr>fs_name = devfs_name, fs_table = Devfs_ops\<rparr>, \<lparr>fs_name = ramfs_name, fs_table = Ramfs_ops\<rparr>]"
    "ramfs_files w1 = map module_file (modules w0)"
    by (rule boot_result [OF heap])
  then have l: "fs_list w = [\<lparr>fs_name = devfs_name, fs_table = Devfs_ops\<rparr>, \<lparr>fs_name = ramfs_name, fs_table = Ramfs_ops\<rparr>]"
    "ramfs_files w = map module_file (modules w0)" using w by simp_all
  obtain i where i: "ramfs_find_file name w = Some i" "ramfs_files w ! i = module_file md"
    using find_module_file [OF w0 md l(2) name(1)] by blast
  have "vfs_find_registered ramfs_name w = Some \<lparr>fs_name = ramfs_name, fs_table = Ramfs_ops\<rparr>"
    by (simp add: vfs_find_registered_def l(1) ramfs_name_def devfs_name_def)
  then obtain st where st: "vfs_stat (Some name) stat w = (0, Some st)" "st_size st = mod_size md" "st_mode st = 0x124"
    "st_type st = FT_REGULAR" by (rule stat_module [OF i name(2) _ _ bounds(3)]) simp_all
  let ?fs = "\<lparr>fs_name = ramfs_name, fs_table = Ramfs_ops\<rparr>"
  have w2: "w2 = w\<lparr>ramfs_handles := (ramfs_handles w)(0 := \<lparr>rh_file = Some i, rh_pos = 0\<rparr>), open_files := (open_files w)(3 :=
      \<lparr>fh_fs = Some ?fs, fh_private = 0, fh_pos = 0, fh_flags = O_RDONLY, fh_ref = 1\<rparr>)\<rparr>"
    using first_open [OF w l(1) i(1) name(2)] r(2) by simp
  note h = boot_handles [OF w]
  have "ram_descriptor w2 3 0" by (simp add: ram_descriptor_def vfs_bad_def out_of_table_def w2)
  moreover have "vfs_find_registered devfs_name w2 = Some \<lparr>fs_name = devfs_name, fs_table = Devfs_ops\<rparr>"
    by (simp add: vfs_find_registered_def w2 l(1))
  moreover have "fh_ref (open_files w2 4) = 0" "dh_device (devfs_handles w2 0) = 0"
    using h by (simp_all add: w2 no_file_handle_def no_devfs_handle_def)
  moreover have "wmem w2 = wmem w0" "modules w2 = modules w" by (simp_all add: w2 r(1))
  ultimately show thesis using that st r by blast
qed

lemma demo_name: "dropWhile (\<lambda>c. c = 47) BOOT_DEMO_USER_MODULE_NAME = BOOT_DEMO_USER_MODULE_NAME"
  "take 5 BOOT_DEMO_USER_MODULE_NAME \<noteq> [47, 100, 101, 118, 47]"
  by (simp_all add: BOOT_DEMO_USER_MODULE_NAME_def)

lemma test_filesystem_passes:
  assumes w0: "w0 = loader_init mods_count grub v" and md: "loader_find_module BOOT_DEMO_USER_MODULE_NAME w0 = Some md"
    and heap: "kmalloc 24 (wheap w0) = Some (p, h1)" "p \<noteq> 0" "kmalloc 24 h1 = Some (q, h2)" "q \<noteq> 0"
    and bounds: "unat (mod_start md) + unat (mod_size md) \<le> 2 ^ 32" "unat (im_buffer im) + 128 \<le> 2 ^ 32" "im_stat im \<noteq> 0"
    and apart: "unat (im_buffer im) + 128 \<le> unat (mod_start md) \<or> unat (mod_start md) + unat (mod_size md) \<le> unat (im_buffer im)"
    and msg: "cstr (wmem w0) (im_console_msg im) xs" "cstr (wmem w0) (im_stdout_msg im) ys"
    and msg_apart: "span (im_buffer im) 128 \<inter> span (im_console_msg im) (Suc (length xs)) = {}"
      "span (im_buffer im) 128 \<inter> span (im_stdout_msg im) (Suc (length ys)) = {}"
    and w: "boot_vfs_init w0 = Some w"
  obtains w' where "test_filesystem_integration im w = Some (self_test_report md (wmem w0), w')" and "modules w' = modules w"
proof -
  let ?b = "im_buffer im" and ?con = "Some [47, 100, 101, 118, 47, 99, 111, 110, 115, 111, 108, 101] :: u8 list option"
  have count: "unat ?b + unat (127 :: u32) \<le> 2 ^ 32"
    "unat ?b + unat (127 :: u32) \<le> unat (mod_start md) \<or> unat (mod_start md) + unat (mod_size md) \<le> unat ?b"
    using bounds(2) apart by auto
  show thesis
    using w0 md heap demo_name bounds(1) count(1) bounds(3) count(2) w
  proof (cases rule: first_module_calls)
    case (1 st w2 w3 n)
    have n: "n = min 127 (unat (mod_size md))" using 1(7) by simp
    then have n127: "n \<le> 127" by simp
    have sn: "sint (of_nat n :: u32) = int n" using n127 by (subst sint_small) (simp_all add: unsigned_of_nat take_bit_nat_eq_self)
    let ?w4 = "if 0 < n then w3\<lparr>wmem := (wmem w3)(?b + of_nat n := 0)\<rparr> else w3"
    let ?w5 = "snd (vfs_close 3 ?w4)"
    have same: "others_same 3 w2 w3" "ram_descriptor w3 3 0" using ram_read_others [OF 1(11), of ?b 127] 1(6) by simp_all
    then have same4: "others_same 3 w2 ?w4" "ram_descriptor ?w4 3 0" by (simp_all add: others_wmem)
    have same5: "others_same 3 w2 ?w5" by (rule others_trans [OF same4(1) ram_close_others [OF same4(2)]])
    have "vfs_find_registered devfs_name ?w5 = Some \<lparr>fs_name = devfs_name, fs_table = Devfs_ops\<rparr>"
      "fh_ref (open_files ?w5 4) = 0" "dh_device (devfs_handles ?w5 0) = 0"
      using same5 1(13-15) by (simp_all add: others_same_def vfs_find_registered_def)
    note dev5 = this
    have con: "0 \<le> sint (fst (vfs_open ?con O_WRONLY ?w5))" by (rule console_opens [OF dev5(1) _ dev5(2,3)]) simp
    have outside: "wmem ?w5 a = wmem w0 a" if a: "a \<notin> span ?b 128" for a
    proof -
      have "span ?b 127 \<subseteq> span ?b 128" by (rule span_mono) simp
      then have "a \<notin> span ?b (unat (127 :: u32))" using a by auto
      then have "wmem w3 a = wmem w0 a" using vfs_read_outside [of a ?b 127 3 w2] 1(6,10) by simp
      moreover have "?b + of_nat n \<in> span ?b 128" using n127 by (auto simp: span_def)
      then have "a \<noteq> ?b + of_nat n" using a by blast
      ultimately show ?thesis by simp
    qed
    have c: "cstr (wmem ?w5) (im_console_msg im) xs" "cstr (wmem ?w5) (im_stdout_msg im) ys"
      using msg msg_apart outside cstr_cong [of "im_console_msg im" xs "wmem ?w5" "wmem w0"]
        cstr_cong [of "im_stdout_msg im" ys "wmem ?w5" "wmem w0"] by blast+
    have len: "strlen (im_console_msg im) (wmem ?w5) = Some (of_nat (length xs))" "strlen (im_stdout_msg im) (wmem ?w5) = Some (of_nat (length ys))"
      using strlen_loop_spec [of "wmem ?w5" _ 0] c by (simp_all add: strlen_def)
    let ?text = "takeWhile (\<lambda>c. c \<noteq> 0) (map (\<lambda>i. wmem w0 (mod_start md + of_nat i)) [0..<n])"
    have shown: "printed_string ?b ((wmem w3)(?b + of_nat n := 0)) = Some ?text"
    proof (rule printed_string_takeWhile)
      fix i assume "i < length (map (\<lambda>i. wmem w0 (mod_start md + of_nat i)) [0..<n])"
      then have i: "i < n" by simp
      have "unat (of_nat i :: u32) = i" "unat (of_nat n :: u32) = n" using i n127 by (simp_all add: unat_of_nat_small)
      then have "?b + of_nat i \<noteq> ?b + of_nat n" using i by auto
      then show "((wmem w3)(?b + of_nat n := 0)) (?b + of_nat i) = map (\<lambda>i. wmem w0 (mod_start md + of_nat i)) [0..<n] ! i"
        using 1(8) i by simp
    qed simp
    define r2 where "r2 = (if 0 < n then [Numbers [of_nat n], Text ?text] else [])"
    have read: "(if 0 \<le> sint (3 :: u32) then do {
        let (bytes_read, w) = vfs_read 3 ?b (128 - 1) w2;
        (r, w) \<leftarrow> (if sint bytes_read > 0 then do {
                   let w = w\<lparr>wmem := (wmem w)(?b + bytes_read := 0)\<rparr>;
                   shown \<leftarrow> printed_string ?b (wmem w);
                   Some ([Numbers [bytes_read], Text shown], w)
                 } else Some ([], w));
        Some (r, snd (vfs_close 3 w))
      } else Some ([Error ''Cannot open file''], w2)) = Some (r2, ?w5)"
      using 1(6) sn shown by (cases "0 < n") (simp_all add: r2_def)
    define w6 where "w6 = snd (vfs_close (fst (vfs_open ?con O_WRONLY ?w5))
        (snd (vfs_write (fst (vfs_open ?con O_WRONLY ?w5)) (im_console_msg im) (of_nat (length xs)) (snd (vfs_open ?con O_WRONLY ?w5)))))"
    have len6: "strlen (im_stdout_msg im) (wmem w6) = Some (of_nat (length ys))" using len(2) by (simp add: w6_def)
    have m6: "modules w6 = modules w" using same5 1(12) by (simp add: w6_def others_same_def)
    have r: "self_test_report md (wmem w0) = [Numbers [st_size st, st_mode st, st_type st]] @ r2 @ [Check True]"
    proof (cases "mod_size md = 0")
      case True
      then show ?thesis using n 1(2-4) by (simp add: self_test_report_def r2_def)
    next
      case False
      then have "0 < n" using n by (simp add: unat_gt_0)
      moreover have "of_nat n = min 127 (mod_size md)" unfolding n by (simp add: min_def word_le_nat_alt)
      ultimately show ?thesis using False n 1(2-4) by (simp add: self_test_report_def r2_def)
    qed
    have tail: "(do {
        let (console_fd, w) = vfs_open ?con O_WRONLY ?w5;
        (r3, w) \<leftarrow> (if sint console_fd \<ge> 0 then do {
                    n \<leftarrow> strlen (im_console_msg im) (wmem w);
                    let w = snd (vfs_write console_fd (im_console_msg im) n w);
                    Some ([Check True], snd (vfs_close console_fd w))
                  } else Some ([Error ''Cannot open /dev/console''], w));
        n \<leftarrow> strlen (im_stdout_msg im) (wmem w);
        Some (r1 @ r2 @ r3, snd (vfs_write 1 (im_stdout_msg im) n w))
      }) = Some (r1 @ r2 @ [Check True], snd (vfs_write 1 (im_stdout_msg im) (of_nat (length ys)) w6))" for r1
      using con len(1) len6 by (simp del: vfs_wmem(2,3) add: case_prod_beta w6_def)
    have "test_filesystem_integration im w = Some ((if (0 :: u32) = 0
        then [Numbers [st_size (the (Some st)), st_mode (the (Some st)), st_type (the (Some st))]] else [Error ''Cannot stat file'']) @
        r2 @ [Check True], snd (vfs_write 1 (im_stdout_msg im) (of_nat (length ys)) w6))"
      by (simp only: test_filesystem_integration_def 1(1,5) Let_def prod.case read [unfolded Let_def] tail [unfolded Let_def]
          Option.bind.simps)
    then have "test_filesystem_integration im w = Some (self_test_report md (wmem w0),
        snd (vfs_write 1 (im_stdout_msg im) (of_nat (length ys)) w6))"
      unfolding r by simp
    then show thesis by (rule that) (simp add: m6)
  qed
qed

section \<open>The default start\<close>

lemma mm_init_pmem: "boot_mm_init k = Some k' \<Longrightarrow> pmem (vm k') = pmem (vm k) \<and> processes k' = processes k"
  by (auto simp: boot_mm_init_def bind_eq_Some_conv Let_def temp_mapping_init_rest)

lemma add_modules_same: "modules (ramfs_add_modules i n w) = modules w"
  by (induction i n w rule: ramfs_add_modules.induct) (simp_all add: Let_def split: option.split)

lemma register_modules: "vfs_register_fs (Some name) (Some ops) w = Some (r, w') \<Longrightarrow> modules w' = modules w"
  by (auto simp: vfs_register_fs_def Let_def bind_eq_Some_conv split: if_splits)

lemma boot_vfs_modules: "boot_vfs_init w = Some w' \<Longrightarrow> modules w' = modules w"
  by (auto simp: boot_vfs_init_def ramfs_init_def devfs_init_def bind_eq_Some_conv dest!: register_modules)
    (simp add: devfs_load_def ramfs_load_def vfs_init_def Let_def add_modules_same)

lemma find_module_cong: "modules w = modules w' \<Longrightarrow> loader_find_module name w = loader_find_module name w'"
  by (simp add: loader_find_module_def)

lemma find_module_count:
  assumes "loader_find_module name w = Some md" and "length (modules w) \<le> 16"
  shows "loader_get_module_count w \<noteq> 0"
proof -
  have "modules w \<noteq> []" using assms(1) by (auto simp: loader_find_module_def)
  then have "unat (of_nat (length (modules w)) :: u32) \<noteq> 0" using assms(2) by (simp add: unat_of_nat_small)
  then show ?thesis by (auto simp: loader_get_module_count_def)
qed

text \<open>The user program, when the table is empty and there are pages.\<close>

lemma user_demo_ok:
  assumes tab: "table_inv 0 k" and ok: "vm_ok dir T no_slots b F (vm k)" and room: "6 \<le> card F"
    and m: "loader_find_module BOOT_DEMO_USER_MODULE_NAME (files k) = Some md" "length (modules (files k)) \<le> 16"
      "page_aligned (mod_start md)" "mod_start md \<noteq> T" "pfn (mod_start md) \<notin> F" "unat (mod_size md) \<le> 4096"
  obtains k' p where "boot_user_demo k = Some (k', Some (page_directory p, 0, USER_STACK_TOP))"
    and "current_process k' = Some 0" and "processes k' ! 0 = p\<lparr>pstate := PROCESS_RUNNING\<rparr>"
    and "new_process dir (pmem (vm k)) md 1 (pmem (vm k')) p"
proof -
  have n: "0 < (16 :: nat)" "next_pid k = 1" "length (processes k) = 16" using tab by (simp_all add: table_inv_def)
  have count: "loader_get_module_count (files k) \<noteq> 0" by (rule find_module_count [OF m(1,2)])
  show thesis
    using tab n(1) ok m(1,3-6)
  proof (cases rule: create_ok)
    case (created v p P ks)
    let ?k = "screen_puts msg_starting (k\<lparr>next_pid := next_pid k + 1, processes := (processes k)[0 := p], vm := v\<rparr>)"
    have p: "pid p = 1" "pstate p = PROCESS_READY" "entry_point p = 0" "user_stack p = USER_STACK_TOP"
      using created(5) n(2) by (simp_all add: new_process_def)
    let ?k' = "?k\<lparr>current_process := Some 0, processes := (processes k)[0 := p\<lparr>pstate := PROCESS_RUNNING\<rparr>]\<rparr>"
    have k: "processes ?k = (processes k)[0 := p]" "vm ?k = v" by (simp_all add: screen_puts_def)
    have k': "current_process ?k' = Some 0" "processes ?k' ! 0 = p\<lparr>pstate := PROCESS_RUNNING\<rparr>" "vm ?k' = v"
      using n(3) by (simp_all add: screen_puts_def)
    have "List.find (\<lambda>i. pid (processes ?k ! i) = 1 \<and> pstate (processes ?k ! i) = PROCESS_READY) [0..<MAX_PROCESSES] = Some 0"
      using p n(3) by (simp add: k upt_conv_Cons)
    then have start: "process_start 1 ?k = (?k', Some (page_directory p, 0, USER_STACK_TOP))"
      using p n(3) by (simp add: process_start_def k)
    have "boot_user_demo k = Some (?k', Some (page_directory p, 0, USER_STACK_TOP))"
      using created(1) n(2) count start by (simp add: boot_user_demo_def)
    then show thesis by (rule that) (use created(5) n(2) k' in simp_all)
  qed (use room in simp_all)
qed

lemma kmain_demo_ok:
  assumes m: "boot_state T m" and magic: "boot_multiboot_ok magic" and line: "ready dev COM1"
    and dev: "\<And>io. dev io 0x64 AND 0x01 = 0"
    and msg: "cstr (wmem (files (kern m))) (im_console_msg im) xs" "cstr (wmem (files (kern m))) (im_stdout_msg im) ys"
      "span (im_buffer im) 128 \<inter> span (im_console_msg im) (Suc (length xs)) = {}"
      "span (im_buffer im) 128 \<inter> span (im_stdout_msg im) (Suc (length ys)) = {}"
    and stack: "unat (im_buffer im) + 128 \<le> 2 ^ 32" "im_stat im \<noteq> 0"
      "unat (im_buffer im) + 128 \<le> unat (mod_start md) \<or> unat (mod_start md) + unat (mod_size md) \<le> unat (im_buffer im)"
    and mods: "mbi_flags mbi AND 8 \<noteq> 0"
      "loader_find_module BOOT_DEMO_USER_MODULE_NAME (loader_init (mbi_mods_count mbi) (mbi_mods mbi) world_bss) = Some md"
    and md: "page_aligned (mod_start md)" "mod_start md \<noteq> T" "pfn (mod_start md) \<notin> {0x1800..<0x2800}"
      "unat (mod_size md) \<le> 4096"
  obtains m' p where "kmain im dev True False magic mbi m = Some (m', Some (page_directory p, 0, USER_STACK_TOP))"
    and "current_process (kern m') = Some 0" and "processes (kern m') ! 0 = p\<lparr>pstate := PROCESS_RUNNING\<rparr>"
    and "new_process (cr3 (vm (kern m))) (pmem (vm (kern m))) md 1 (pmem (vm (kern m'))) p"
    and "printed m' = printed m @ self_test_report md (wmem (files (kern m)))"
proof -
  let ?k = "early_kernel (kern m)" and ?F = "{0x1800..<0x2800} - {0x2000..<0x2100} :: nat set"
  obtain k1 where k1: "boot_mm_init ?k = Some k1"
    "heap_inv 0x02000000 0x02100000 (wheap (files k1)) [(0x02000000, 0x100000, True)]"
    "vm_ok (cr3 (vm (kern m))) T no_slots 0x01000000 ?F (vm k1)"
    using m by (auto simp: boot_state_def intro: boot_mm_ok [of ?k T])
  have "files k1 = (files ?k)\<lparr>wheap := wheap (files k1)\<rparr>" using mm_init_table [OF k1(1)] by blast
  then have "wmem (files k1) = wmem ((files ?k)\<lparr>wheap := wheap (files k1)\<rparr>)" by metis
  then have "wmem (files k1) = wmem (files (kern m))" by simp
  then have t1: "next_pid k1 = 1" "current_process k1 = None" "wmem (files k1) = wmem (files (kern m))"
    "pmem (vm k1) = pmem (vm (kern m))"
    using mm_init_table [OF k1(1)] mm_init_pmem [OF k1(1)] m by (simp_all add: boot_state_def)
  define k2 where "k2 = boot_modules_from_mbi mbi (boot_kernel_subsystems_init k1)"
  let ?w0 = "loader_init (mbi_mods_count mbi) (mbi_mods mbi) (files (boot_kernel_subsystems_init k1))"
  have w0: "files k2 = ?w0" using mods(1) by (simp add: k2_def boot_modules_from_mbi_def)
  have k2: "wheap (files k2) = wheap (files k1)" "vm k2 = vm k1" "wmem (files k2) = wmem (files (kern m))"
    "modules (files k2) = modules (loader_init (mbi_mods_count mbi) (mbi_mods mbi) world_bss)"
    using mods(1) t1(3) by (simp_all add: k2_def boot_modules_from_mbi_def boot_kernel_subsystems_init_def process_init_def loader_init_def Let_def)
  have "table_inv 0 (boot_kernel_subsystems_init k1)"
    unfolding boot_kernel_subsystems_init_def using t1(1,2) by (intro process_init_inv) simp_all
  then have inv2: "table_inv 0 k2" by (simp add: k2_def boot_modules_from_mbi_def table_inv_def)
  obtain p h1 q h2 where h: "kmalloc 24 (wheap (files k1)) = Some (p, h1)" "p \<noteq> 0" "kmalloc 24 h1 = Some (q, h2)" "q \<noteq> 0"
    by (rule heap_two_small [of "0x02000000" "wheap (files k1)"]) (use k1(2) in simp)
  have len: "length (modules (files k2)) \<le> 16" unfolding k2(4) using loader_module_count by simp
  have find2: "loader_find_module BOOT_DEMO_USER_MODULE_NAME (files k2) = Some md"
    using mods(2) find_module_cong [of "files k2"] k2(4) by metis
  obtain w where w: "boot_vfs_init (files k2) = Some w" by (rule boot_result [OF h(1) [folded k2(1)] h(2-4) len])
  have sz: "unat (mod_start md) + unat (mod_size md) \<le> 2 ^ 32"
    using aligned_bound [OF md(1)] md(4) by simp
  obtain w' where w': "test_filesystem_integration im w = Some (self_test_report md (wmem (files k2)), w')" "modules w' = modules w"
    by (rule test_filesystem_passes [OF w0 find2 h(1) [folded k2(1)] h(2-4) sz stack msg(1,2) [folded k2(3)] msg(3,4) w])
  let ?k4 = "screen_puts msg_ready (k2\<lparr>files := w'\<rparr>)"
  have k4: "vm ?k4 = vm k1" "modules (files ?k4) = modules (files k2)"
    using k2(2) w'(2) boot_vfs_modules [OF w] by (simp_all add: screen_puts_def)
  have inv4: "table_inv 0 ?k4" using inv2 by (simp add: screen_puts_def table_inv_def)
  have vm4: "vm_ok (cr3 (vm (kern m))) T no_slots 0x01000000 ?F (vm ?k4)" using k1(3) k4(1) by simp
  have "card ?F = 3840" by (subst card_Diff_subset) auto
  then have room: "6 \<le> card ?F" by simp
  have find: "loader_find_module BOOT_DEMO_USER_MODULE_NAME (files ?k4) = Some md"
    using find2 find_module_cong [of "files ?k4" "files k2"] k4(2) by metis
  have len4: "length (modules (files ?k4)) \<le> 16" using len k4(2) by simp
  have nF: "pfn (mod_start md) \<notin> ?F" using md(3) by blast
  obtain k5 p where k5: "boot_user_demo ?k4 = Some (k5, Some (page_directory p, 0, USER_STACK_TOP))"
    "current_process k5 = Some 0" "processes k5 ! 0 = p\<lparr>pstate := PROCESS_RUNNING\<rparr>"
    "new_process (cr3 (vm (kern m))) (pmem (vm ?k4)) md 1 (pmem (vm k5)) p"
    by (rule user_demo_ok [OF inv4 vm4 room find len4 md(1,2) nF md(4)])
  have demo: "(if True then boot_filesystem_demo im (k2\<lparr>files := w\<rparr>) else Some ([], k2\<lparr>files := w\<rparr>)) =
      Some (self_test_report md (wmem (files (kern m))), k2\<lparr>files := w'\<rparr>)"
    using w'(1) k2(3) by (simp add: boot_filesystem_demo_def)
  have tests: "boot_optional_memory_tests im False ?k4 = Some ([], ?k4)" by (simp add: boot_optional_memory_tests_def)
  have user: "(if True then boot_user_demo ?k4 else Some (?k4, None)) = Some (k5, Some (page_directory p, 0, USER_STACK_TOP))"
    using k5(1) by simp
  obtain m' where "kmain im dev True False magic mbi m = Some (m', Some (page_directory p, 0, USER_STACK_TOP))" "kern m' = k5"
    "printed m' = printed m @ self_test_report md (wmem (files (kern m))) @ []"
    by (rule kmain_on_ready_line [where demo = True, OF line dev magic k1(1) w [unfolded k2_def] demo [unfolded k2_def]
          tests [unfolded k2_def] user [unfolded k2_def]])
  then show thesis using that k5 k4(1) t1(4) by simp
qed

end
