(* ===== verification/Spec2Isabelle.thy ===== *)
theory Spec2Isabelle
  imports BootDemo
begin

text \<open>
  MatrixOS, a teaching kernel for 32-bit x86: a verification library of its C code.

  THE PROGRAM. The boot loader enters \<open>kmain\<close>, which initialises a buddy allocator for physical pages,
  four windows for temporary mappings, a kernel heap (one block of the buddy allocator), the process
  table, the list of boot modules, a virtual file system with a read-only RAM file system over the
  modules and a device file system over the console, then interrupts and the keyboard. A user program
  is a boot module: it is copied to a page of a new address space and started; it calls the kernel
  through \<open>int 0x80\<close>. The rest is an idle loop that echoes the keyboard.

  THEORIES AND SOURCES (under \<open>src/\<close>).
    \<^item> \<open>Prelude\<close>: machine words, byte memory, the spinlock of \<open>kernel/mm/spinlock.h\<close>; an operation that
      waits for a lock that is held does not return (\<open>None\<close>).
    \<^item> \<open>Klist\<close>: the intrusive lists of \<open>include/list.h\<close> as next/prev links, with the interface of a list
      as a locale. \<open>BuddyMath\<close>, \<open>Blocks\<close>: arithmetic of buddies; sets of free blocks.
    \<^item> \<open>Pmm\<close>, \<open>PmmInit\<close>: \<open>kernel/mm/pmm.c\<close>. The state is \<open>struct buddy_system\<close>; \<open>buddy_inv s B\<close> ties it to
      the set \<open>B\<close> of free blocks. A locale states what a page allocator promises.
    \<^item> \<open>Kmalloc\<close>: \<open>kernel/mm/kmalloc.c\<close>; \<open>heap_inv lo hi s bs\<close> ties the headers to a list of blocks that
      tiles the heap.
    \<^item> \<open>Cstring\<close>: \<open>lib/string.c\<close> on byte memory.
    \<^item> \<open>Ports\<close>, \<open>Keyboard\<close>, \<open>Fb\<close>, \<open>Serial\<close>, \<open>Interrupts\<close>: port accesses and interrupt controllers
      (\<open>kernel/drivers/io.h\<close>, \<open>kernel/interrupts/pic.c\<close>), \<open>keyboard.c\<close>, \<open>kernel/drivers/fb.c\<close>, \<open>serial.c\<close>,
      and the descriptor tables of \<open>idt.c\<close>, \<open>tss.c\<close>, \<open>interrupt.c\<close>. What the hardware answers is a parameter.
    \<^item> \<open>FsTypes\<close>, \<open>Ramfs\<close>, \<open>Devfs\<close>, \<open>Vfs\<close>: \<open>kernel/fs/\<close> and \<open>kernel/process/loader.c\<close>; the record \<open>world\<close> is
      their state. \<open>struct file_operations\<close> is the locale \<open>file_system\<close>, which both file systems and the
      dispatch of the virtual one interpret. \<open>VfsFrame\<close>: for each file call the fields that it can change
      and the bytes that it can store to.
    \<^item> \<open>Paging\<close>: what the processor does with the tables: little-endian words in physical memory and the
      two-level page walk. \<open>TempMap\<close>: \<open>kernel/mm/temp_mapping.c\<close>. \<open>Vmm\<close>: \<open>kernel/mm/vmm.c\<close>.
    \<^item> \<open>Process\<close>: \<open>kernel/process/process.c\<close>; the record \<open>kernel\<close> joins files, memory and processes.
    \<^item> \<open>Syscall\<close>: \<open>kernel/syscall/syscall.c\<close>. \<open>HeapTests\<close>, \<open>MemTests\<close>: \<open>kernel/mm/test_mm.c\<close>; a test returns
      what it prints besides fixed text.
    \<^item> \<open>Boot\<close>, \<open>BootDemo\<close>: \<open>kernel/boot.c\<close>, \<open>kernel/kmain.c\<close>, \<open>include/boot_config.h\<close>,
      \<open>kernel/fs/test_fs.c\<close>; the build switches of the demos and of the memory tests are arguments.
    \<^item> this theory: runs of the whole kernel and the properties that span components.

  HOW THE MODEL READS. Each function of the code is a definition of the same name, in state-passing
  style, in the order of its statements; a C \<open>int\<close> or \<open>uint32_t\<close> is a 32-bit word and wraps, a signed
  comparison is one on \<open>sint\<close>. Errors are the words the code returns. \<open>None\<close> is a call that does not
  return or a page fault. Loops over memory whose end depends on the data are
  \<open>partial_function (option)\<close>, so that every claim that one returns is part of its theorem; loops with a
  counter recurse on it (the keyboard's timeouts of 10000, the 256 descriptors), no fuel is invented.

  WHAT IS SHOWN. For the page allocator and the heap: which block a call returns, what stays free,
  that the representation invariant is kept, that release undoes allocation including all splits. For
  the file layer: descriptors and handles correspond one to one in every reachable state, open and close
  cancel, reads deliver the module's bytes. For keyboard, console and serial line: refinement of a queue,
  of a terminal and of the rendering of a format. For address spaces and processes: the complete
  translation of a new address space, the pages taken and lost, the order in which the table fills. For
  the tables of the processor: what every gate decodes to. For the keyboard reader: interrupts between
  its statements cannot be told from interrupts around it. For the self tests: they pass and give
  everything back when there is room, and what they leave behind when there is not. For the whole kernel:
  both invariants hold in every run, on a ready serial line the start comes to an end, and the default
  build passes its self test and gets as far as the switch to its user program. Where the code does not do what it means to, the theorem states what
  it does.

  THE SERIAL LINE. Every message waits without a timeout until the line status port says ready, so what
  returns and what does not depends on the line. \<open>Serial\<close> models the wait. \<open>kmain\<close>, the functions of
  \<open>boot.c\<close> and \<open>keyboard_init\<close> write their messages and wait: those with a fixed text where the code
  writes them; what the other functions send during one step of the start goes out behind that step, and
  its bytes are the parameter \<open>im_log\<close>. Everywhere else the log calls are left out: the theorems on
  these operations say what they do once their messages have gone out. Claims that the start returns
  assume a line that is always ready (\<open>ready\<close>), and for one that never is (\<open>never_ready\<close>) they say that
  it does not return.

  TWO VIEWS OF MEMORY. Paging, address spaces and program loading work on physical memory (\<open>pmem\<close>)
  through the page walk. String, heap and file code uses addresses directly and is modelled on one flat
  memory (\<open>wmem\<close>, the heap's own maps); that is the memory as the kernel's own directory shows it, where
  physical addresses below 128 MiB are mapped to themselves by \<open>boot/loader.asm\<close>. Nothing in the model
  makes a store in one view appear in the other, so a theorem that uses both keeps their ranges apart:
  \<open>kmain_starts_program\<close> puts the module outside the pages of the allocator and the heap. The property
  \<open>process_lacks_heap\<close> shows where the two views part: in a process the identity mapping is absent, and
  the processor faults on the addresses of the heap and of the modules. The model of a system call works
  on the flat memory, that is with the kernel's directory in force.
  The page allocator's list nodes and bitmap are kept in a record of their own; that nothing else
  overwrites them is an assumption of the model.

  NOT MODELLED. Assembly (entry stubs, the mode switch, port instructions, the boot loader's tables): the
  C side of each interface is modelled and the rest is a parameter or, for \<open>switch_to_user_mode\<close>, the
  arguments of the call. Output to the log outside the start, see above. The user programs in assembly. Interrupts are taken between the
  operations of the C code, in \<open>keyboard_get_char\<close> also between its statements: it is the one operation
  that shares memory with an interrupt handler while interrupts are enabled.
  Of the memory tests the statistics they print and the address of the large block are not compared with
  anything; string literals and uninitialised stack contents are arguments.
  A translation cache: every change of a table entry that is already present is followed by \<open>invlpg\<close>.
\<close>

section \<open>Runs of the kernel\<close>

text \<open>
  After \<open>kmain\<close>: system calls of programs, keyboard interrupts, rounds of the idle loop, further
  processes, and whatever programs and devices do to memory.
\<close>

inductive kernel_step :: "kernel \<Rightarrow> kernel \<Rightarrow> bool" where
  syscall: "syscall_handler r k = Some (r', k') \<Longrightarrow> kernel_step k k'"
| interrupt: "kernel_step k (k\<lparr>files := (files k)\<lparr>wkbd := fst (interrupt_handler dev n (wkbd (files k)) io)\<rparr>\<rparr>)"
| idle: "kernel_step k (boot_idle_round k)"
| create: "process_create_from_module name k = Some (r, k') \<Longrightarrow> kernel_step k k'"
| start: "kernel_step k (fst (process_start p k))"
| memory: "kernel_step k (k\<lparr>files := (files k)\<lparr>wmem := m\<rparr>, vm := v\<rparr>)"

inductive_cases kernel_stepE: "kernel_step k k'"

inductive kernel_reach :: "kernel \<Rightarrow> bool" where
  boot: "kmain im dev demo tests magic mbi m = Some (m', c) \<Longrightarrow> boot_multiboot_ok magic \<Longrightarrow> next_pid (kern m) = 1 \<Longrightarrow>
    current_process (kern m) = None \<Longrightarrow> kernel_reach (kern m')"
| step: "kernel_reach k \<Longrightarrow> kernel_step k k' \<Longrightarrow> kernel_reach k'"

lemma kernel_inv_syscall:
  assumes inv: "kernel_inv k" and "syscall_handler r k = Some (r', k')"
  shows "kernel_inv k'"
proof (cases "r_eax r = SYSCALL_EXIT")
  case True
  then have "process_exit_current k = Some k'" using assms(2)
    by (auto simp: syscall_handler_def Let_def bind_eq_Some_conv)
  then show ?thesis using inv table_inv_exit exit_files by (fastforce simp: kernel_inv_def)
next
  case False
  then have "file_step (files k) (files k')" "k' = k\<lparr>files := files k'\<rparr>" using syscall_frame [OF assms(2)] by auto
  then show ?thesis using kernel_inv_files [OF inv, of "files k'"] inv reach_steps by (auto simp: kernel_inv_def)
qed

lemma kernel_inv_idle: "kernel_inv k \<Longrightarrow> kernel_inv (boot_idle_round k)"
  by (auto simp: boot_idle_round_def Let_def case_prod_beta kernel_inv_def table_inv_def reach_calls)

lemma kernel_inv_step: "kernel_step k k' \<Longrightarrow> kernel_inv k \<Longrightarrow> kernel_inv k'"
proof (erule kernel_stepE)
  fix m v assume "kernel_inv k" "k' = k\<lparr>files := (files k)\<lparr>wmem := m\<rparr>, vm := v\<rparr>"
  then show "kernel_inv k'" by (auto simp: kernel_inv_def table_inv_def reach_calls)
next
  fix dev n io assume "kernel_inv k" "k' = k\<lparr>files := (files k)\<lparr>wkbd := fst (interrupt_handler dev n (wkbd (files k)) io)\<rparr>\<rparr>"
  then show "kernel_inv k'" by (auto simp: kernel_inv_def table_inv_def reach_calls)
qed (auto intro: kernel_inv_syscall kernel_inv_idle kernel_inv_create kernel_inv_start)

lemma kernel_reach_inv: "kernel_reach k \<Longrightarrow> kernel_inv k"
  by (induction rule: kernel_reach.induct) (auto intro: kmain_inv kernel_inv_step)

section \<open>A concrete start\<close>

definition demo_image :: image where
  "demo_image = \<lparr>im_vectors = (\<lambda>i. 0xC0100000 + 16 * of_nat i), im_syscall_entry = 0xC0105000, im_idt = 0xC0120000,
     im_tss = 0xC0121000, im_esp = 0xC012FF00, im_buffer = 0xC012FE00, im_stat = 0xC012FDC0, im_console_msg = 0xC0110000, im_stdout_msg = 0xC0110100,
     im_literals = demo_literals, im_phys_pages = (\<lambda>_. 0), im_virt_pages = (\<lambda>_. 0),
     im_log = (\<lambda>n. lit ''step done'' @ [10])\<rparr>"

definition demo_mbi :: multiboot_info where
  "demo_mbi = \<lparr>mbi_flags = 8, mbi_mods_count = 2, mbi_mods = demo_grub\<rparr>"

definition demo_machine :: machine where
  "demo_machine = \<lparr>kern = \<lparr>files = world_bss\<lparr>wheap := heap_bss\<lparr>hbytes := demo_bytes\<rparr>\<rparr>,
     vm = boot_vm buddy_bss, processes = [], current_process = None, next_pid = 1\<rparr>,
     mio = [], tabs = \<lparr>idt = (\<lambda>_. \<lparr>base_low = 0, sel = 0, zero = 0, flags = 0, base_high = 0\<rparr>),
       idtr = \<lparr>limit = 0, base = 0\<rparr>, tss = tss_zero, gdt_tss_base = 0, task_register = 0\<rparr>, printed = []\<rparr>"

lemma demo_boot_state: "boot_state 0x2000 demo_machine"
  using boot_kernel_tables by (simp add: boot_state_def demo_machine_def world_bss_def pfn_def)

lemma demo_literals_ok: "test_literals_ok demo_image demo_machine"
  using demo_literals_in by (simp add: test_literals_ok_def demo_image_def demo_machine_def)

text \<open>A serial line that is ready and a keyboard controller that is idle.\<close>

definition demo_device :: device where
  "demo_device io port = (if port = 0x64 then 0 else 0x20)"

lemma demo_device_ok: "ready demo_device COM1" "demo_device io 0x64 AND 0x01 = 0"
  by (simp_all add: demo_device_def ready_def)

lemma demo_boot_ends:
  obtains m' where "kmain demo_image demo_device False True 0x2BADB002 demo_mbi demo_machine = Some (m', None)"
proof -
  have ok: "boot_multiboot_ok 0x2BADB002" by (simp add: boot_multiboot_ok_def)
  show thesis
    by (rule kmain_returns [where im = demo_image and mbi = demo_mbi, OF demo_boot_state ok demo_device_ok demo_literals_ok])
      (rule that)
qed

section \<open>Properties\<close>

text \<open>
  C8: In every state that the kernel reaches from kmain by system calls, keyboard interrupts, idle
  rounds, process creations and starts and arbitrary changes of memory, open file-system handles and
  descriptors correspond one to one and the process table is filled in order, with the current process
  running.
\<close>

theorem kernel_tables_consistent:
  assumes "kernel_reach k"
  shows "vfs_inv (files k) \<and>
    (\<exists>n\<le>16. next_pid k = of_nat (Suc n) \<and>
      (\<forall>i<16. if i < n then pid (processes k ! i) = of_nat (Suc i) \<and> pstate (processes k ! i) \<noteq> PROCESS_UNUSED
         else pstate (processes k ! i) = PROCESS_UNUSED) \<and>
      (\<forall>i. current_process k = Some i \<longrightarrow> i < n \<and> pstate (processes k ! i) = PROCESS_RUNNING))"
proof -
  obtain n where "vfs_reach (files k)" "table_inv n k"
    using kernel_reach_inv [OF assms] by (auto simp: kernel_inv_def)
  then show ?thesis by (intro conjI vfs_reach_inv exI [of _ n]) (auto simp: table_inv_def)
qed

theorem kernel_tables_consistent_witness:
  "\<exists>k :: kernel. vfs_inv (files k) \<and> (\<exists>n\<le>16. next_pid k = of_nat (Suc n))"
proof -
  obtain m' where m': "kmain demo_image demo_device False True 0x2BADB002 demo_mbi demo_machine = Some (m', None)"
    by (rule demo_boot_ends)
  have "kernel_reach (kern m')"
    by (rule kernel_reach.boot [OF m']) (simp_all add: boot_multiboot_ok_def demo_machine_def)
  from kernel_tables_consistent [OF this] show ?thesis by blast
qed

text \<open>
  C28: Without the demos, with or without the memory tests (whose string literals must lie outside the
  heap), and with a keyboard controller whose output buffer is empty: on a serial line that is always
  ready to send, kmain gets to the idle loop (or returns early on a wrong magic number), and then both
  file systems are registered and there is a file for each boot module, for the first 16 of them; on a
  line that is never ready, as when there is no serial port that answers, kmain does not return from
  its first message.
\<close>

theorem kmain_reaches_idle:
  assumes "boot_state T m" and "\<And>io. dev io 0x64 AND 0x01 = 0" and "tests \<Longrightarrow> test_literals_ok im m"
  shows "(ready dev COM1 \<longrightarrow> (\<exists>m'. kmain im dev False tests magic mbi m = Some (m', None) \<and>
      (magic = MULTIBOOT_BOOTLOADER_MAGIC \<longrightarrow>
        map fs_name (fs_list (files (kern m'))) = [devfs_name, ramfs_name] \<and>
        length (ramfs_files (files (kern m'))) =
          (if mbi_flags mbi AND 8 = 0 then 0 else min 16 (unat (mbi_mods_count mbi)))))) \<and>
    (never_ready dev COM1 \<longrightarrow> kmain im dev False tests magic mbi m = None)"
proof (intro conjI impI)
  assume line: "ready dev COM1"
  show "\<exists>m'. kmain im dev False tests magic mbi m = Some (m', None) \<and>
      (magic = MULTIBOOT_BOOTLOADER_MAGIC \<longrightarrow>
        map fs_name (fs_list (files (kern m'))) = [devfs_name, ramfs_name] \<and>
        length (ramfs_files (files (kern m'))) =
          (if mbi_flags mbi AND 8 = 0 then 0 else min 16 (unat (mbi_mods_count mbi))))"
  proof (cases "boot_multiboot_ok magic")
    case True
    obtain m' where m': "kmain im dev False tests magic mbi m = Some (m', None)"
      "fs_list (files (kern m')) = [\<lparr>fs_name = devfs_name, fs_table = Devfs_ops\<rparr>, \<lparr>fs_name = ramfs_name, fs_table = Ramfs_ops\<rparr>]"
      "ramfs_files (files (kern m')) =
        (if mbi_flags mbi AND 8 = 0 then [] else map module_file (modules (loader_init (mbi_mods_count mbi) (mbi_mods mbi) world_bss)))"
      using kmain_returns [where dev = dev and im = im and mbi = mbi, OF assms(1) True line assms(2,3)] .
    then show ?thesis by (intro exI [of _ m']) (auto simp: loader_init_def Let_def word_less_nat_alt min_def)
  next
    case False
    then show ?thesis using line
      by (simp add: kmain_def boot_early_console_def boot_log_ready Let_def boot_multiboot_ok_def)
  qed
qed (simp add: kmain_def early_never)

theorem kmain_reaches_idle_witness:
  "(\<exists>m'. kmain demo_image demo_device False True MULTIBOOT_BOOTLOADER_MAGIC demo_mbi demo_machine = Some (m', None) \<and>
     length (ramfs_files (files (kern m'))) = 2) \<and>
   kmain demo_image (\<lambda>_ _. 0) False True MULTIBOOT_BOOTLOADER_MAGIC demo_mbi demo_machine = None"
proof
  obtain m' where "kmain demo_image demo_device False True MULTIBOOT_BOOTLOADER_MAGIC demo_mbi demo_machine = Some (m', None)"
    "length (ramfs_files (files (kern m'))) = (if mbi_flags demo_mbi AND 8 = 0 then 0 else min 16 (unat (mbi_mods_count demo_mbi)))"
    using kmain_reaches_idle [where tests = True and dev = demo_device and magic = MULTIBOOT_BOOTLOADER_MAGIC and mbi = demo_mbi,
        OF demo_boot_state demo_device_ok(2) demo_literals_ok] demo_device_ok(1) by blast
  then show "\<exists>m'. kmain demo_image demo_device False True MULTIBOOT_BOOTLOADER_MAGIC demo_mbi demo_machine = Some (m', None) \<and>
     length (ramfs_files (files (kern m'))) = 2" by (auto simp: demo_mbi_def)
  have "(\<lambda>_ _. 0 :: u8) io 0x64 AND 0x01 = 0" for io :: io_log by simp
  moreover have "never_ready (\<lambda>_ _. 0) COM1" by (simp add: never_ready_def)
  ultimately show "kmain demo_image (\<lambda>_ _. 0) False True MULTIBOOT_BOOTLOADER_MAGIC demo_mbi demo_machine = None"
    using kmain_reaches_idle [where tests = True and dev = "\<lambda>_ _. 0" and magic = MULTIBOOT_BOOTLOADER_MAGIC and mbi = demo_mbi,
        OF demo_boot_state _ demo_literals_ok] by blast
qed

text \<open>
  C12: boot_mm_init puts the kernel heap at physical address 0x02000000, behind the managed memory,
  and uses this address as a pointer; in the address space of the first process, created from a
  page-aligned module of at most one page that lies below frame 0x1800 and neither at 0 nor in the
  page of the kernel's temporary page table, the processor faults on every load from and every store
  to a byte of the heap or of the boot module at these addresses.
\<close>

theorem process_lacks_heap:
  assumes "buddy (vm k0) = buddy_bss" and "kernel_tables (cr3 (vm k0)) T (pmem (vm k0))"
    and "pfn (cr3 (vm k0)) < 0x1800" and "pfn T < 0x1800" and "next_pid k0 = 1" and "current_process k0 = None"
    and "loader_find_module name (files k0) = Some md" and "page_aligned (mod_start md)" and "mod_start md \<noteq> T"
    and "pfn (mod_start md) < 0x1800" and "unat (mod_size md) \<le> 4096" and "mod_start md \<noteq> 0"
  shows "\<exists>k1 k2. boot_mm_init k0 = Some k1 \<and>
    heap_inv 0x02000000 0x02100000 (wheap (files k1)) [(0x02000000, 0x100000, True)] \<and>
    process_create_from_module name (process_init k1) = Some (1, k2) \<and>
    (\<forall>a v. 0x02000000 \<le> unat a \<and> unat a < 0x02100000 \<or> (\<exists>i<unat (mod_size md). a = mod_start md + of_nat i) \<longrightarrow>
      vread8 (page_directory (processes k2 ! 0)) a (pmem (vm k2)) = None \<and>
      vwrite8 (page_directory (processes k2 ! 0)) a v (pmem (vm k2)) = None)"
proof -
  let ?F = "{0x1800..<0x2800} - {0x2000..<0x2100} :: nat set"
  obtain k1 where k1: "boot_mm_init k0 = Some k1"
    "heap_inv 0x02000000 0x02100000 (wheap (files k1)) [(0x02000000, 0x100000, True)]"
    "vm_ok (cr3 (vm k0)) T no_slots 0x01000000 ?F (vm k1)"
    using boot_mm_ok [OF assms(1-4)] .
  note t = mm_init_table [OF k1(1)]
  have inv: "table_inv 0 (process_init k1)" using t assms(5,6) by (intro process_init_inv) simp_all
  have vm: "vm_ok (cr3 (vm k0)) T no_slots 0x01000000 ?F (vm (process_init k1))" using k1(3) by (simp add: process_init_def)
  have "modules (files k1) = modules ((files k0)\<lparr>wheap := wheap (files k1)\<rparr>)" using t by metis
  then have "modules (files (process_init k1)) = modules (files k0)" by (simp add: process_init_def)
  then have m: "loader_find_module name (files (process_init k1)) = Some md" using assms(7) by (simp add: loader_find_module_def)
  have nF: "pfn (mod_start md) \<notin> ?F" using assms(10) by simp
  have card: "card ?F = 3840" by (subst card_Diff_subset) auto
  have n: "0 < (16::nat)" by simp
  show ?thesis
    using inv n vm m assms(8,9) nF assms(11)
  proof (cases rule: create_ok)
    case (created v p P ks)
    let ?k2 = "(process_init k1)\<lparr>next_pid := next_pid (process_init k1) + 1, processes := (processes (process_init k1))[0 := p], vm := v\<rparr>"
    have pid: "next_pid (process_init k1) = 1" "processes ?k2 ! 0 = p" using inv by (simp_all add: table_inv_def)
    have none: "translate (page_directory p) (pmem v) va = None" if "0x1000 \<le> unat va" "unat va < 0xC0000000" for va
      using created(5) that by (simp add: new_process_def)
    have "translate (page_directory p) (pmem v) (mod_start md + of_nat i) = None" if "i < unat (mod_size md)" for i
    proof -
      have i: "unat (of_nat i :: u32) = i" using that assms(11) by (intro of_nat_offset) simp
      then have "unat (mod_start md + of_nat i) = unat (mod_start md) + i"
        using unat_offset [OF assms(8), of "of_nat i"] that assms(11) by simp
      moreover have "0x1000 \<le> unat (mod_start md)" "unat (mod_start md) < 0x1800000"
        using assms(8,10,12) by (auto simp: page_aligned_unat pfn_def unat_gt_0 dvd_imp_le div_less_iff_less_mult)
      ultimately show ?thesis using that assms(11) by (intro none) simp_all
    qed
    then have "vread8 (page_directory p) a (pmem v) = None \<and> vwrite8 (page_directory p) a c (pmem v) = None"
      if "0x02000000 \<le> unat a \<and> unat a < 0x02100000 \<or> (\<exists>i<unat (mod_size md). a = mod_start md + of_nat i)" for a c
      using that none [of a] by (auto simp: vread8_def vwrite8_def)
    then show ?thesis using k1(1,2) created(1) pid
      by (intro exI [of _ k1] exI [of _ ?k2]) simp
  qed (use card in simp_all)
qed

theorem process_lacks_heap_witness:
  "\<exists>k0 k1 k2. boot_mm_init k0 = Some k1 \<and> process_create_from_module [104, 105] (process_init k1) = Some (1, k2) \<and>
     vread8 (page_directory (processes k2 ! 0)) 0x02000010 (pmem (vm k2)) = None \<and>
     vread8 (page_directory (processes k2 ! 0)) 0x00800000 (pmem (vm k2)) = None"
proof -
  let ?k0 = "boot_kernel (boot_vm buddy_bss)"
  have h: "loader_find_module [104, 105] (files ?k0) = Some hi_module" by (rule boot_kernel_facts)
  have s: "buddy (vm ?k0) = buddy_bss" "kernel_tables (cr3 (vm ?k0)) 0x2000 (pmem (vm ?k0))" "pfn (cr3 (vm ?k0)) < 0x1800"
    "pfn 0x2000 < 0x1800" "next_pid ?k0 = 1" "current_process ?k0 = None"
    using boot_kernel_tables by (simp_all add: boot_kernel_def process_init_def pfn_def)
  have m: "pfn (mod_start hi_module) < 0x1800" "mod_start hi_module \<noteq> 0" by (simp_all add: hi_module_def pfn_def)
  obtain k1 k2 where k: "boot_mm_init ?k0 = Some k1" "process_create_from_module [104, 105] (process_init k1) = Some (1, k2)"
    "\<forall>a v. 0x02000000 \<le> unat a \<and> unat a < 0x02100000 \<or> (\<exists>i<unat (mod_size hi_module). a = mod_start hi_module + of_nat i) \<longrightarrow>
      vread8 (page_directory (processes k2 ! 0)) a (pmem (vm k2)) = None \<and>
      vwrite8 (page_directory (processes k2 ! 0)) a v (pmem (vm k2)) = None"
    using process_lacks_heap [OF s h boot_kernel_facts(4,5) m(1) boot_kernel_facts(7) m(2)] by blast
  have "\<exists>i<unat (mod_size hi_module). (0x00800000 :: u32) = mod_start hi_module + of_nat i"
    by (intro exI [of _ 0]) (simp add: hi_module_def)
  then have "vread8 (page_directory (processes k2 ! 0)) 0x00800000 (pmem (vm k2)) = None" using k(3) by blast
  moreover have "vread8 (page_directory (processes k2 ! 0)) 0x02000010 (pmem (vm k2)) = None"
    by (rule k(3) [rule_format, THEN conjunct1]) simp
  ultimately show ?thesis using k(1,2) by blast
qed


text \<open>A boot loader that gives no name: the first module is called \<open>hello\<close>.\<close>

definition hello_mbi :: multiboot_info where
  "hello_mbi = \<lparr>mbi_flags = 8, mbi_mods_count = 1, mbi_mods = (\<lambda>i. (0x800000, 0x800010, None))\<rparr>"

text \<open>Its page holds \<open>hi\<close> and zeroes.\<close>

definition hello_machine :: machine where
  "hello_machine = demo_machine\<lparr>kern := (kern demo_machine)\<lparr>files := (files (kern demo_machine))\<lparr>wmem :=
     (\<lambda>_. 0)(0x800000 := 104, 0x800001 := 105)\<rparr>\<rparr>\<rparr>"


text \<open>
  C10: With the temporary mappings unused, a free block of 128 pages, a free heap block of 32 KiB and
  the string literals outside the heap, run_all_memory_tests returns, every one of its tests reports
  success with exactly the texts and numbers that the code means to print, the free pages and the
  mapping slots are the same as before, and the heap has the same list of blocks.
\<close>

theorem memory_tests_pass:
  assumes "vm_ok dir T no_slots b F v" and "managed_pages (buddy v) \<noteq> 0" and "frame_room b 7 F"
    and "heap_inv lo hi h bs" and "literals_in lo hi l (hbytes h)" and "(a, n, True) \<in> set bs" and "0x8000 \<le> n"
  shows "\<exists>block v' h'. run_all_memory_tests phys_pages virt_pages l (v, h) = Some (memory_test_report block, v', h') \<and>
    block \<noteq> 0 \<and> vm_ok dir T no_slots b F v' \<and> heap_inv lo hi h' bs"
  using assms by (rule memory_tests_ok)

theorem memory_tests_pass_witness:
  "\<exists>k block v h. boot_mm_init (kern demo_machine) = Some k \<and>
     run_all_memory_tests (\<lambda>_. 7) (\<lambda>_. 7) demo_literals (vm k, wheap (files k)) = Some (memory_test_report block, v, h) \<and>
     heap_inv 0x02000000 0x02100000 h [(0x02000000, 0x100000, True)]"
proof -
  have st: "buddy (vm (kern demo_machine)) = buddy_bss" "kernel_tables (cr3 (vm (kern demo_machine))) 0x2000 (pmem (vm (kern demo_machine)))"
    "pfn (cr3 (vm (kern demo_machine))) < 0x1800" "pfn 0x2000 < 0x1800"
    using demo_boot_state by (simp_all add: boot_state_def)
  obtain k where k: "boot_mm_init (kern demo_machine) = Some k"
    "heap_inv 0x02000000 0x02100000 (wheap (files k)) [(0x02000000, 0x100000, True)]"
    "vm_ok (cr3 (vm (kern demo_machine))) 0x2000 no_slots 0x01000000 ({0x1800..<0x2800} - {0x2000..<0x2100}) (vm k)"
    "managed_pages (buddy (vm k)) = 4096" "hbytes (wheap (files k)) = hbytes (wheap (files (kern demo_machine)))"
    by (rule boot_mm_ok [OF st])
  have l: "literals_in 0x02000000 0x02100000 demo_literals (hbytes (wheap (files k)))"
    using demo_literals_ok k(5) by (simp add: test_literals_ok_def demo_image_def)
  have "managed_pages (buddy (vm k)) \<noteq> 0" using k(4) by simp
  from memory_tests_pass [OF k(3) this boot_frame_room k(2) l, where a = "0x02000000" and n = "0x100000" and phys_pages = "\<lambda>_. 7" and virt_pages = "\<lambda>_. 7"] k(1)
  show ?thesis by auto
qed

end
